(* ===== verification/Prelude.thy ===== *)
theory Prelude
  imports Main "HOL-Library.Word" "HOL-Library.List_Lexorder" "HOL-Library.AList"
begin

text \<open>
  Shared ground of the development: the machine types of the Go source, the result type that
  carries Go errors and panics as values, big-endian integers (package \<open>encoding/binary\<close>), file
  reads (\<open>ReadAt\<close>, \<open>io.ReadFull\<close>), binary search (\<open>sort.Search\<close>), and the generic lemmas on
  lists and words that the components use. Go strings and byte slices are both lists of bytes;
  their order is the lexicographic one of \<open>HOL-Library.List_Lexorder\<close>, which is the order of Go
  string comparison.
\<close>

unbundle bit_operations_syntax

named_theorems wire_simps \<open>equations that evaluate the byte formats\<close>
named_theorems idx_simps \<open>index arithmetic on 64-bit words, moved to nat\<close>

section \<open>Types\<close>

type_synonym byte = "8 word"
type_synonym u32 = "32 word"
type_synonym u64 = "64 word"
type_synonym bytes = "byte list"

text \<open>A Go call either returns, returns an error, or panics.\<close>

datatype failure = Panic | Err string

type_synonym 'a result = "failure + 'a"

definition rbind :: "'a result \<Rightarrow> ('a \<Rightarrow> 'b result) \<Rightarrow> 'b result" where
  "rbind m f = (case m of Inl e \<Rightarrow> Inl e | Inr x \<Rightarrow> f x)"

lemma rbind_simps [simp]: "rbind (Inl e) f = Inl e" "rbind (Inr x) f = f x"
  by (simp_all add: rbind_def)

lemma rbind_Inr_iff: "rbind m f = Inr y \<longleftrightarrow> (\<exists>x. m = Inr x \<and> f x = Inr y)"
  by (cases m) simp_all

section \<open>Big-endian integers\<close>

text \<open>\<open>be_bytes k n\<close> is the \<open>k\<close>-byte big-endian form of \<open>n\<close>; \<open>be_val\<close> reads one back.\<close>

fun be_bytes :: "nat \<Rightarrow> nat \<Rightarrow> bytes" where
  "be_bytes 0 n = []"
| "be_bytes (Suc k) n = be_bytes k (n div 256) @ [word_of_nat (n mod 256)]"

definition be_val :: "bytes \<Rightarrow> nat" where
  "be_val bs = foldl (\<lambda>a b. a * 256 + unat b) 0 bs"

definition putUint32 :: "u32 \<Rightarrow> bytes" where
  "putUint32 w = be_bytes 4 (unat w)"

definition putUint64 :: "u64 \<Rightarrow> bytes" where
  "putUint64 w = be_bytes 8 (unat w)"

definition getUint32 :: "bytes \<Rightarrow> u32" where
  "getUint32 bs = word_of_nat (be_val (take 4 bs))"

definition getUint64 :: "bytes \<Rightarrow> u64" where
  "getUint64 bs = word_of_nat (be_val (take 8 bs))"

lemma length_be_bytes [simp]: "length (be_bytes k n) = k"
  by (induction k arbitrary: n) auto

lemma be_val_snoc [simp]: "be_val (bs @ [b]) = be_val bs * 256 + unat b"
  by (simp add: be_val_def)

lemma be_val_Nil [simp]: "be_val [] = 0"
  by (simp add: be_val_def)

lemma unat_of_mod_256 [simp]: "unat (word_of_nat (n mod 256) :: byte) = n mod 256"
  by (simp add: unat_of_nat)

lemma be_val_be_bytes: "be_val (be_bytes k n) = n mod 256 ^ k"
proof (induction k arbitrary: n)
  case 0
  then show ?case by simp
next
  case (Suc k)
  have "n div 256 mod 256 ^ k * 256 + n mod 256 = n mod (256 * 256 ^ k)"
    by (simp add: mod_mult2_eq)
  then show ?case by (simp add: Suc)
qed

lemma be_val_less: "be_val bs < 256 ^ length bs"
proof (induction bs rule: rev_induct)
  case Nil
  then show ?case by simp
next
  case (snoc b bs)
  have "unat b < 256" using unsigned_less [of b] by simp
  with snoc show ?case by simp
qed

lemma be_bytes_be_val: "be_bytes (length bs) (be_val bs) = bs"
proof (induction bs rule: rev_induct)
  case Nil
  then show ?case by simp
next
  case (snoc b bs)
  have "unat b < 256" using unsigned_less [of b] by simp
  then have "(be_val bs * 256 + unat b) div 256 = be_val bs"
    and "(be_val bs * 256 + unat b) mod 256 = unat b" by simp_all
  with snoc show ?case by simp
qed

lemma length_putUint [simp]: "length (putUint32 w) = 4" "length (putUint64 v) = 8"
  by (simp_all add: putUint32_def putUint64_def)

lemma putUint_not_Nil [simp]: "putUint32 w \<noteq> []" "putUint64 v \<noteq> []"
  by (simp_all flip: length_greater_0_conv)

lemma unat_u64_less: "unat (w :: u64) < 2 ^ 64"
  using unsigned_less [of w, where 'a = nat] by simp

lemma unat_u32_less: "unat (w :: u32) < 2 ^ 32"
  using unsigned_less [of w, where 'a = nat] by simp

lemma getUint32_put [simp, wire_simps]: "getUint32 (putUint32 w @ rest) = w"
  using unat_u32_less [of w] by (simp add: getUint32_def putUint32_def be_val_be_bytes)

lemma getUint64_put [simp, wire_simps]: "getUint64 (putUint64 w @ rest) = w"
  using unat_u64_less [of w] by (simp add: getUint64_def putUint64_def be_val_be_bytes)

lemma getUint_put_end [simp, wire_simps]:
  "getUint32 (putUint32 w) = w" "getUint64 (putUint64 v) = v"
  using getUint32_put [of w "[]"] getUint64_put [of v "[]"] by simp_all

section \<open>CRC-32\<close>

text \<open>\<open>crc32.ChecksumIEEE\<close>: the reflected polynomial \<open>0xEDB88320\<close>, bit by bit.\<close>

definition crc_bit :: "u32 \<Rightarrow> u32" where
  "crc_bit c = (if bit c 0 then drop_bit 1 c XOR 3988292384 else drop_bit 1 c)"

definition crc_byte :: "u32 \<Rightarrow> byte \<Rightarrow> u32" where
  "crc_byte c b = (crc_bit ^^ 8) (c XOR ucast b)"

definition crc32 :: "bytes \<Rightarrow> u32" where
  "crc32 bs = NOT (foldl crc_byte (NOT 0) bs)"

section \<open>Counters and indexes\<close>

text \<open>64-bit arithmetic read as natural numbers, where it does not wrap.\<close>

lemma unat_add_u64 [idx_simps]:
  "unat a + unat b < 2 ^ 64 \<Longrightarrow> unat (a + b :: u64) = unat a + unat b"
  by (simp add: unat_word_ariths)

lemma unat_inc_u64 [idx_simps]: "unat a < 2 ^ 64 - 1 \<Longrightarrow> unat (a + 1 :: u64) = unat a + 1"
  by (subst unat_add_u64) simp_all

lemma unat_of_nat_u64 [idx_simps]: "n < 2 ^ 64 \<Longrightarrow> unat (word_of_nat n :: u64) = n"
  by (simp add: unat_of_nat)

lemma unat_of_nat_u32 [idx_simps]: "n < 2 ^ 32 \<Longrightarrow> unat (word_of_nat n :: u32) = n"
  by (simp add: unat_of_nat)

lemma unat_sub_u64 [idx_simps]: "b \<le> a \<Longrightarrow> unat (a - b :: u64) = unat a - unat b"
  by (rule unat_sub)

lemma sint_of_int_u64 [idx_simps]:
  assumes "- (2 ^ 63) \<le> x" "x < 2 ^ 63"
  shows "sint (word_of_int x :: u64) = x"
  using assms by (simp add: signed_of_int signed_take_bit_int_eq_self)

lemma sint_of_nat_u64 [idx_simps]: "n < 2 ^ 63 \<Longrightarrow> sint (word_of_nat n :: u64) = int n"
  using sint_of_int_u64 [of "int n"] by simp

lemma u64_less_inc: "unat x < 2 ^ 64 - 1 \<Longrightarrow> y < x + 1 \<longleftrightarrow> y \<le> (x :: u64)"
  by (simp add: word_less_nat_alt word_le_nat_alt unat_inc_u64 less_Suc_eq_le)

lemma u64_inc_nonzero: "x + 1 \<noteq> 0 \<Longrightarrow> x < x + (1 :: u64)"
proof -
  assume a: "x + 1 \<noteq> 0"
  have "unat x \<noteq> 2 ^ 64 - 1"
  proof
    assume "unat x = 2 ^ 64 - 1"
    then have "unat (x + 1) = 0" by (simp add: unat_word_ariths)
    with a show False by (simp add: unat_eq_zero)
  qed
  then have "unat x < 2 ^ 64 - 1" using unat_u64_less [of x] by simp
  then show ?thesis by (simp add: u64_less_inc)
qed

section \<open>Files\<close>

text \<open>
  \<open>readAt f off n\<close> is \<open>(*os.File).ReadAt\<close> of \<open>n\<close> bytes at \<open>off\<close> in a file with content \<open>f\<close>:
  a negative offset and a short read are errors, an empty read at a valid offset is not.
  \<open>readFull s n\<close> is \<open>io.ReadFull\<close> of \<open>n\<close> bytes from the unread rest \<open>s\<close> of a stream; it tells
  apart \<open>io.EOF\<close> (nothing left to read) and \<open>io.ErrUnexpectedEOF\<close> (a partial read).
\<close>

definition readAt :: "bytes \<Rightarrow> int \<Rightarrow> nat \<Rightarrow> bytes option" where
  "readAt f off n =
     (if off < 0 then None
      else if n = 0 then Some []
      else if nat off + n \<le> length f then Some (take n (drop (nat off) f))
      else None)"

datatype read_outcome = Full bytes bytes | EOF | UnexpectedEOF

definition readFull :: "bytes \<Rightarrow> nat \<Rightarrow> read_outcome" where
  "readFull s n =
     (if n \<le> length s then Full (take n s) (drop n s)
      else if s = [] then EOF else UnexpectedEOF)"

text \<open>Slicing \<open>b[i:j]\<close> panics out of range; \<open>make([]byte, n)\<close> panics on a negative or an
  unallocatable length (the runtime's address limit of \<open>2 ^ 48\<close> bytes on 64-bit platforms).\<close>

definition slice :: "bytes \<Rightarrow> nat \<Rightarrow> nat \<Rightarrow> bytes result" where
  "slice b i j = (if i \<le> j \<and> j \<le> length b then Inr (take (j - i) (drop i b)) else Inl Panic)"

definition maxAlloc :: int where
  "maxAlloc = 2 ^ 48"

definition makeBytes :: "int \<Rightarrow> nat result" where
  "makeBytes n = (if 0 \<le> n \<and> n \<le> maxAlloc then Inr (nat n) else Inl Panic)"

lemma readAt_append:
  "off = int (length a) \<Longrightarrow> n = length b \<Longrightarrow> readAt (a @ b @ c) off n = Some b"
  by (auto simp: readAt_def)

lemma readFull_append: "readFull (a @ b) (length a) = Full a b"
  by (simp add: readFull_def)

section \<open>Binary search\<close>

text \<open>\<open>sort.Search\<close>: the loop halves \<open>[i, j)\<close> and returns where \<open>f\<close> turns true.\<close>

function search_loop :: "(nat \<Rightarrow> bool) \<Rightarrow> nat \<Rightarrow> nat \<Rightarrow> nat" where
  "search_loop f i j =
     (if i < j
      then let h = (i + j) div 2 in
           if \<not> f h then search_loop f (h + 1) j else search_loop f i h
      else i)"
  by pat_completeness auto
termination
  by (relation "measure (\<lambda>(f, i, j). j - i)") auto

declare search_loop.simps [simp del]

definition sort_Search :: "nat \<Rightarrow> (nat \<Rightarrow> bool) \<Rightarrow> nat" where
  "sort_Search n f = search_loop f 0 n"

text \<open>What \<open>sort.Search\<close> asks of its predicate: once true, it stays true below \<open>n\<close>.\<close>

definition monotone_below :: "nat \<Rightarrow> (nat \<Rightarrow> bool) \<Rightarrow> bool" where
  "monotone_below n f \<longleftrightarrow> (\<forall>k l. k \<le> l \<longrightarrow> l < n \<longrightarrow> f k \<longrightarrow> f l)"

lemma monotone_belowD: "monotone_below n f \<Longrightarrow> k \<le> l \<Longrightarrow> l < n \<Longrightarrow> f k \<Longrightarrow> f l"
  unfolding monotone_below_def by blast

definition splits_at :: "nat \<Rightarrow> (nat \<Rightarrow> bool) \<Rightarrow> nat \<Rightarrow> nat \<Rightarrow> bool" where
  "splits_at n f i j \<longleftrightarrow> i \<le> j \<and> j \<le> n \<and> (\<forall>k < i. \<not> f k) \<and> (\<forall>k < n. j \<le> k \<longrightarrow> f k)"

lemma search_loop_spec:
  assumes "monotone_below n f" "splits_at n f i j"
  shows "splits_at n f (search_loop f i j) (search_loop f i j)"
  using assms
proof (induction f i j rule: search_loop.induct)
  case (1 f i j)
  define h where "h = (i + j) div 2"
  show ?case
  proof (cases "i < j")
    case False
    then have "search_loop f i j = i" by (simp add: search_loop.simps [of f i j])
    with False "1.prems" show ?thesis by (simp add: splits_at_def)
  next
    case True
    then have h: "i \<le> h" "h < j" by (auto simp: h_def)
    show ?thesis
    proof (cases "f h")
      case True
      then have "splits_at n f i h"
        using "1.prems" h by (auto simp: splits_at_def intro: monotone_belowD)
      with "1.IH"(2) [OF \<open>i < j\<close> h_def] True "1.prems"(1) show ?thesis
        using \<open>i < j\<close> by (simp add: search_loop.simps [of f i j] flip: h_def)
    next
      case False
      have "\<not> f k" if "k < h + 1" for k
        using that False "1.prems" h monotone_belowD [of n f k h] by (auto simp: splits_at_def)
      then have "splits_at n f (h + 1) j"
        using "1.prems" h by (auto simp: splits_at_def)
      with "1.IH"(1) [OF \<open>i < j\<close> h_def] False "1.prems"(1) show ?thesis
        using \<open>i < j\<close> by (simp add: search_loop.simps [of f i j] flip: h_def)
    qed
  qed
qed

lemma sort_Search_splits:
  assumes "monotone_below n f"
  shows "splits_at n f (sort_Search n f) (sort_Search n f)"
  unfolding sort_Search_def using assms by (rule search_loop_spec) (simp add: splits_at_def)

lemma sort_Search_spec:
  assumes "monotone_below n f"
  shows "sort_Search n f \<le> n"
    and "k < sort_Search n f \<Longrightarrow> \<not> f k"
    and "k < n \<Longrightarrow> sort_Search n f \<le> k \<Longrightarrow> f k"
  using sort_Search_splits [OF assms] by (auto simp: splits_at_def)

section \<open>Framed logs\<close>

text \<open>
  Several files of the system are a concatenation of self-delimiting frames that a loop reads back
  (the write-ahead log, the Raft log, the snapshot image, the sparse index). A reader \<open>scan\<close> with
  state \<open>'s\<close> promises one law: on a well-formed frame it moves on to the rest with the frame's
  record pushed on its state. Reading any number of frames follows once, here.
\<close>

locale framed_log =
  fixes enc :: "'r \<Rightarrow> bytes"
    and ok :: "'r \<Rightarrow> bool"
    and scan :: "bytes \<Rightarrow> 's \<Rightarrow> 'o"
    and push :: "'s \<Rightarrow> 'r \<Rightarrow> 's"
  assumes scan_frame: "ok r \<Longrightarrow> scan (enc r @ rest) s = scan rest (push s r)"
begin

lemma scan_frames:
  "\<forall>r \<in> set rs. ok r \<Longrightarrow> scan (concat (map enc rs) @ rest) s = scan rest (foldl push s rs)"
  by (induction rs arbitrary: s) (auto simp: scan_frame)

lemma scan_all: "\<forall>r \<in> set rs. ok r \<Longrightarrow> scan (concat (map enc rs)) s = scan [] (foldl push s rs)"
  using scan_frames [of rs "[]"] by simp

end

end
