(* ===== verification/Memtable.thy ===== *)
theory Memtable
  imports Prelude
begin

text \<open>
  Package \<open>internal/memtable\<close>: the in-memory table of the newest record per key. The Go map
  \<open>entries\<close> is a list of key-record pairs with distinct keys (a finite map; its iteration order
  is never observed, because \<open>SortedEntries\<close> sorts). Every method runs under the table's mutex, so
  each is one state-passing function. Sequence numbers are 64-bit and wrap.
\<close>

section \<open>Records and tables\<close>

type_synonym RecordType = byte

definition RecordTypePut :: RecordType where
  "RecordTypePut = 0"

definition RecordTypeDelete :: RecordType where
  "RecordTypeDelete = 1"

record Record =
  rKey :: bytes
  rValue :: bytes
  rSeqNum :: u64
  rType :: RecordType

record MemTable =
  entries :: "(bytes \<times> Record) list"
  nextSeq :: u64

definition memtable_New :: MemTable where
  "memtable_New = \<lparr>entries = [], nextSeq = 1\<rparr>"

definition NewWithSeq :: "u64 \<Rightarrow> MemTable" where
  "NewWithSeq startSeq = \<lparr>entries = [], nextSeq = startSeq\<rparr>"

section \<open>Operations\<close>

definition memtable_Set :: "MemTable \<Rightarrow> bytes \<Rightarrow> bytes \<Rightarrow> MemTable" where
  "memtable_Set m key value =
     m\<lparr>entries := AList.update key
         \<lparr>rKey = key, rValue = value, rSeqNum = nextSeq m, rType = RecordTypePut\<rparr> (entries m),
       nextSeq := nextSeq m + 1\<rparr>"

definition memtable_Get :: "MemTable \<Rightarrow> bytes \<Rightarrow> bytes option" where
  "memtable_Get m key =
     (case map_of (entries m) key of
        None \<Rightarrow> None
      | Some r \<Rightarrow> if rType r = RecordTypeDelete then None else Some (rValue r))"

definition memtable_Delete :: "MemTable \<Rightarrow> bytes \<Rightarrow> MemTable" where
  "memtable_Delete m key =
     m\<lparr>entries := AList.update key
         \<lparr>rKey = key, rValue = [], rSeqNum = nextSeq m, rType = RecordTypeDelete\<rparr> (entries m),
       nextSeq := nextSeq m + 1\<rparr>"

definition AllocSeq :: "MemTable \<Rightarrow> u64 \<times> MemTable" where
  "AllocSeq m = (nextSeq m, m\<lparr>nextSeq := nextSeq m + 1\<rparr>)"

definition SetRaw :: "MemTable \<Rightarrow> Record \<Rightarrow> MemTable" where
  "SetRaw m r =
     (let m1 = (if (case map_of (entries m) (rKey r) of
                      None \<Rightarrow> True
                    | Some existing \<Rightarrow> rSeqNum r > rSeqNum existing)
                then m\<lparr>entries := AList.update (rKey r) r (entries m)\<rparr> else m)
      in if rSeqNum r \<ge> nextSeq m1 then m1\<lparr>nextSeq := rSeqNum r + 1\<rparr> else m1)"

definition memtable_Size :: "MemTable \<Rightarrow> nat" where
  "memtable_Size m = length (entries m)"

definition NextSeq :: "MemTable \<Rightarrow> u64" where
  "NextSeq m = nextSeq m"

definition GetRecord :: "MemTable \<Rightarrow> bytes \<Rightarrow> Record option" where
  "GetRecord m key = map_of (entries m) key"

definition SortedEntries :: "MemTable \<Rightarrow> Record list" where
  "SortedEntries m = sort_key rKey (map snd (entries m))"

definition ScanRange :: "MemTable \<Rightarrow> bytes \<Rightarrow> bytes \<Rightarrow> Record list" where
  "ScanRange m from to =
     (let all = SortedEntries m;
          start = sort_Search (length all) (\<lambda>i. rKey (all ! i) \<ge> from)
      in takeWhile (\<lambda>r. \<not> rKey r > to) (drop start all))"

section \<open>Newest version of a key\<close>

text \<open>
  The rule every reader of the engine applies to several versions of a key: the highest sequence
  number wins, the earlier one on a tie. \<open>keep_newest\<close> is the loop body
  \<open>if !ok || rec.SeqNum > existing.SeqNum\<close> on a Go map, \<open>newest\<close> the version it selects.
\<close>

definition supersedes :: "Record option \<Rightarrow> Record \<Rightarrow> bool" where
  "supersedes e r = (case e of None \<Rightarrow> True | Some x \<Rightarrow> rSeqNum r > rSeqNum x)"

definition keep_newest :: "(bytes \<times> Record) list \<Rightarrow> Record \<Rightarrow> (bytes \<times> Record) list" where
  "keep_newest byKey r =
     (if supersedes (map_of byKey (rKey r)) r then AList.update (rKey r) r byKey else byKey)"

definition pick :: "Record option \<Rightarrow> Record \<Rightarrow> Record option" where
  "pick e r = (if supersedes e r then Some r else e)"

definition newest :: "Record list \<Rightarrow> bytes \<Rightarrow> Record option" where
  "newest rs k = foldl pick None (filter (\<lambda>r. rKey r = k) rs)"

lemma supersedes_simps [simp]:
  "supersedes None r" "supersedes (Some x) r \<longleftrightarrow> rSeqNum x < rSeqNum r"
  by (simp_all add: supersedes_def)

lemma keep_newest_lookup:
  "map_of (keep_newest bk r) k = (if k = rKey r then pick (map_of bk k) r else map_of bk k)"
  by (simp add: keep_newest_def pick_def update_conv')

lemma foldl_keep_newest_lookup:
  "map_of (foldl keep_newest bk rs) k = foldl pick (map_of bk k) (filter (\<lambda>r. rKey r = k) rs)"
  by (induction rs arbitrary: bk) (auto simp: keep_newest_lookup)

lemma byKey_newest: "map_of (foldl keep_newest [] rs) k = newest rs k"
  by (simp add: foldl_keep_newest_lookup newest_def)

lemma distinct_keep_newest:
  "distinct (map fst bk) \<Longrightarrow> distinct (map fst (keep_newest bk r))"
  by (simp add: keep_newest_def distinct_update)

lemma distinct_foldl_keep_newest:
  "distinct (map fst bk) \<Longrightarrow> distinct (map fst (foldl keep_newest bk rs))"
  by (induction rs arbitrary: bk) (auto simp: distinct_keep_newest)

lemma set_AList_update_subset: "set (AList.update k v xs) \<subseteq> insert (k, v) (set xs)"
  by (induction xs) auto

lemma set_keep_newest_subset: "set (keep_newest bk r) \<subseteq> insert (rKey r, r) (set bk)"
  using set_AList_update_subset [of "rKey r" r bk] by (auto simp: keep_newest_def)

lemma foldl_pick_Some:
  "foldl pick (Some e) rs = Some r \<Longrightarrow>
    r \<in> insert e (set rs) \<and> (\<forall>x \<in> insert e (set rs). rSeqNum x \<le> rSeqNum r)"
  by (induction rs arbitrary: e) (fastforce simp: pick_def split: if_splits)+

lemma foldl_pick_not_None: "foldl pick (Some e) rs \<noteq> None"
  by (induction rs arbitrary: e) (auto simp: pick_def)

lemma newest_SomeD:
  assumes "newest rs k = Some r"
  shows "r \<in> set rs" "rKey r = k" "\<And>x. x \<in> set rs \<Longrightarrow> rKey x = k \<Longrightarrow> rSeqNum x \<le> rSeqNum r"
proof -
  let ?fs = "filter (\<lambda>r. rKey r = k) rs"
  obtain e es where fs: "?fs = e # es"
    using assms by (cases ?fs) (auto simp: newest_def)
  then have "foldl pick (Some e) es = Some r"
    using assms by (simp add: newest_def pick_def)
  from foldl_pick_Some [OF this]
  have mem: "r \<in> set ?fs" and le: "\<forall>x \<in> set ?fs. rSeqNum x \<le> rSeqNum r"
    by (auto simp: fs)
  from mem show "r \<in> set rs" "rKey r = k" by auto
  show "rSeqNum x \<le> rSeqNum r" if "x \<in> set rs" "rKey x = k" for x
    using le that by auto
qed

lemma newest_None_iff: "newest rs k = None \<longleftrightarrow> (\<forall>r \<in> set rs. rKey r \<noteq> k)"
proof (cases "filter (\<lambda>r. rKey r = k) rs")
  case Nil
  then show ?thesis by (auto simp: newest_def filter_empty_conv)
next
  case (Cons e es)
  then have "e \<in> set rs \<and> rKey e = k" using filter_eq_ConsD by fastforce
  with Cons show ?thesis by (auto simp: newest_def pick_def foldl_pick_not_None)
qed

text \<open>Where the versions of a key have distinct sequence numbers, the newest is unique.\<close>

lemma newest_unique:
  assumes "r \<in> set rs" "rKey r = k"
    and "\<And>x. x \<in> set rs \<Longrightarrow> rKey x = k \<Longrightarrow> x = r \<or> rSeqNum x < rSeqNum r"
  shows "newest rs k = Some r"
proof (cases "newest rs k")
  case None
  with assms show ?thesis by (auto simp: newest_None_iff)
next
  case (Some x)
  from newest_SomeD [OF Some] assms show ?thesis
    using Some by (metis leD)
qed

text \<open>Layers: if everything in \<open>xs\<close> is newer than everything in \<open>ys\<close>, \<open>xs\<close> decides.\<close>

lemma foldl_pick_older:
  "\<forall>y \<in> set ys. rSeqNum y < rSeqNum e \<Longrightarrow> foldl pick (Some e) ys = Some e"
  by (induction ys) (auto simp: pick_def)

lemma newest_append:
  assumes "\<And>x y. x \<in> set xs \<Longrightarrow> y \<in> set ys \<Longrightarrow> rKey x = k \<Longrightarrow> rKey y = k \<Longrightarrow> rSeqNum y < rSeqNum x"
  shows "newest (xs @ ys) k = (case newest xs k of None \<Rightarrow> newest ys k | Some r \<Rightarrow> Some r)"
proof (cases "newest xs k")
  case None
  then have "filter (\<lambda>r. rKey r = k) xs = []" by (auto simp: newest_None_iff)
  with None show ?thesis by (simp add: newest_def)
next
  case (Some r)
  have "newest (xs @ ys) k = foldl pick (Some r) (filter (\<lambda>r. rKey r = k) ys)"
    using Some by (simp add: newest_def)
  also have "\<dots> = Some r"
    using newest_SomeD [OF Some] assms by (intro foldl_pick_older) auto
  finally show ?thesis using Some by simp
qed

section \<open>Invariant and behaviour\<close>

text \<open>Keys are distinct and every record is filed under its own key.\<close>

definition mt_wf :: "MemTable \<Rightarrow> bool" where
  "mt_wf m \<longleftrightarrow> distinct (map fst (entries m)) \<and> (\<forall>(k, r) \<in> set (entries m). rKey r = k)"

text \<open>Every stored sequence number is below the counter.\<close>

definition mt_seq :: "MemTable \<Rightarrow> bool" where
  "mt_seq m \<longleftrightarrow> (\<forall>(k, r) \<in> set (entries m). rSeqNum r < nextSeq m)"

lemma mt_wf_New [simp]: "mt_wf memtable_New" "mt_wf (NewWithSeq s)"
  by (simp_all add: mt_wf_def memtable_New_def NewWithSeq_def)

lemma mt_seq_New [simp]: "mt_seq memtable_New" "mt_seq (NewWithSeq s)"
  by (simp_all add: mt_seq_def memtable_New_def NewWithSeq_def)

lemma SetRaw_entries: "entries (SetRaw m r) = keep_newest (entries m) r"
  by (simp add: SetRaw_def keep_newest_def supersedes_def Let_def)

lemma SetRaw_nextSeq:
  "nextSeq (SetRaw m r) = (if nextSeq m \<le> rSeqNum r then rSeqNum r + 1 else nextSeq m)"
  by (simp add: SetRaw_def Let_def)

lemma mt_wf_SetRaw [intro]: "mt_wf m \<Longrightarrow> mt_wf (SetRaw m r)"
  using set_keep_newest_subset [of "entries m" r]
  by (auto simp: mt_wf_def SetRaw_entries distinct_keep_newest)

lemma GetRecord_SetRaw:
  "GetRecord (SetRaw m r) k = (if k = rKey r then pick (GetRecord m k) r else GetRecord m k)"
  by (simp add: GetRecord_def SetRaw_entries keep_newest_lookup)

text \<open>The counter stays above every record while it does not wrap.\<close>

lemma mt_seq_SetRaw:
  assumes "mt_seq m" "unat (rSeqNum r) < 2 ^ 64 - 1"
  shows "mt_seq (SetRaw m r)"
proof -
  have r: "rSeqNum r < rSeqNum r + 1" using assms(2) by (simp add: u64_less_inc)
  show ?thesis
    using assms(1) set_keep_newest_subset [of "entries m" r] r
    by (fastforce simp: mt_seq_def SetRaw_entries SetRaw_nextSeq)
qed

text \<open>A record with the counter's own number always wins: the write path of \<open>db.Set\<close>.\<close>

lemma supersedes_fresh:
  assumes "mt_seq m" "nextSeq m \<le> rSeqNum r"
  shows "supersedes (GetRecord m (rKey r)) r"
proof (cases "GetRecord m (rKey r)")
  case (Some e)
  then have "rSeqNum e < nextSeq m"
    using assms(1) by (auto simp: mt_seq_def GetRecord_def dest!: map_of_SomeD)
  with assms(2) Some show ?thesis by simp
qed simp

lemma GetRecord_in_entries:
  "mt_wf m \<Longrightarrow> GetRecord m k = Some r \<longleftrightarrow> (k, r) \<in> set (entries m)"
  by (simp add: GetRecord_def mt_wf_def map_of_eq_Some_iff)

lemma memtable_Get_GetRecord:
  "memtable_Get m k = (case GetRecord m k of None \<Rightarrow> None
     | Some r \<Rightarrow> if rType r = RecordTypeDelete then None else Some (rValue r))"
  by (simp add: memtable_Get_def GetRecord_def)

subsection \<open>Sorted runs\<close>

text \<open>A run is what a flush writes: records in strictly increasing key order.\<close>

definition sorted_run :: "Record list \<Rightarrow> bool" where
  "sorted_run rs \<longleftrightarrow> sorted_wrt (<) (map rKey rs)"

definition run_lookup :: "Record list \<Rightarrow> bytes \<Rightarrow> Record option" where
  "run_lookup rs k = find (\<lambda>r. rKey r = k) rs"

lemma sorted_run_distinct: "sorted_run rs \<Longrightarrow> distinct (map rKey rs)"
  by (simp add: sorted_run_def strict_sorted_iff)

lemma run_lookup_Some_iff:
  "sorted_run rs \<Longrightarrow> run_lookup rs k = Some r \<longleftrightarrow> r \<in> set rs \<and> rKey r = k"
  by (induction rs) (auto simp: sorted_run_def run_lookup_def)

lemma run_lookup_None_iff: "run_lookup rs k = None \<longleftrightarrow> (\<forall>r \<in> set rs. rKey r \<noteq> k)"
  by (auto simp: run_lookup_def find_None_iff)

lemma sorted_run_newest: "sorted_run rs \<Longrightarrow> newest rs k = run_lookup rs k"
proof (cases "run_lookup rs k")
  case None
  then show ?thesis using run_lookup_None_iff newest_None_iff by metis
next
  case (Some r)
  assume rs: "sorted_run rs"
  have "x = r" if "x \<in> set rs" "rKey x = k" for x
    using run_lookup_Some_iff [OF rs] Some that by (metis option.inject)
  then have "newest rs k = Some r"
    using Some run_lookup_Some_iff [OF rs] by (intro newest_unique) auto
  with Some show ?thesis by simp
qed

lemma entries_keys: "mt_wf m \<Longrightarrow> map rKey (map snd (entries m)) = map fst (entries m)"
  by (auto simp: mt_wf_def)

lemma sorted_run_SortedEntries: "mt_wf m \<Longrightarrow> sorted_run (SortedEntries m)"
proof -
  assume wf: "mt_wf m"
  then have "distinct (map rKey (map snd (entries m)))"
    by (simp only: entries_keys) (simp add: mt_wf_def)
  then have "distinct (map rKey (SortedEntries m))"
    unfolding SortedEntries_def distinct_map [of rKey] by (simp del: map_map)
  moreover have "sorted (map rKey (SortedEntries m))"
    by (simp only: SortedEntries_def sorted_sort_key)
  ultimately show ?thesis by (simp add: sorted_run_def strict_sorted_iff)
qed

lemma set_SortedEntries: "set (SortedEntries m) = snd ` set (entries m)"
  by (simp add: SortedEntries_def)

lemma run_lookup_SortedEntries: "mt_wf m \<Longrightarrow> run_lookup (SortedEntries m) k = GetRecord m k"
proof -
  assume wf: "mt_wf m"
  have "run_lookup (SortedEntries m) k = Some r \<longleftrightarrow> GetRecord m k = Some r" for r
    using wf sorted_run_SortedEntries [OF wf]
    by (force simp: run_lookup_Some_iff GetRecord_in_entries set_SortedEntries mt_wf_def)
  then show ?thesis by (metis not_None_eq)
qed

lemma monotone_run_ge:
  "sorted_run rs \<Longrightarrow> monotone_below (length rs) (\<lambda>i. rKey (rs ! i) \<ge> x)"
  by (auto simp: monotone_below_def sorted_run_def sorted_wrt_map sorted_wrt_iff_nth_less
      le_less intro: order.strict_trans)

lemma sorted_run_key_less:
  "sorted_run rs \<Longrightarrow> i < j \<Longrightarrow> j < length rs \<Longrightarrow> rKey (rs ! i) < rKey (rs ! j)"
  by (simp add: sorted_run_def sorted_wrt_map sorted_wrt_iff_nth_less)

lemma sorted_run_Cons:
  "sorted_run (r # rs) \<longleftrightarrow> sorted_run rs \<and> (\<forall>x \<in> set rs. rKey r < rKey x)"
  by (auto simp: sorted_run_def)

lemma sorted_run_append:
  "sorted_run (xs @ ys) \<longleftrightarrow>
     sorted_run xs \<and> sorted_run ys \<and> (\<forall>x \<in> set xs. \<forall>y \<in> set ys. rKey x < rKey y)"
  by (auto simp: sorted_run_def sorted_wrt_append)

lemma sorted_run_take [intro]: "sorted_run rs \<Longrightarrow> sorted_run (take n rs)"
  and sorted_run_drop [intro]: "sorted_run rs \<Longrightarrow> sorted_run (drop n rs)"
  using sorted_run_append [of "take n rs" "drop n rs"] by simp_all

lemma sorted_run_filter [intro]: "sorted_run rs \<Longrightarrow> sorted_run (filter P rs)"
  by (induction rs) (auto simp: sorted_run_Cons)

lemma run_lookup_filter:
  assumes "sorted_run rs"
  shows "run_lookup (filter P rs) k =
    (case run_lookup rs k of None \<Rightarrow> None | Some r \<Rightarrow> if P r then Some r else None)"
  using assms
proof (induction rs)
  case (Cons r rs)
  then have gt: "\<forall>x \<in> set rs. rKey r < rKey x" by (simp add: sorted_run_Cons)
  have "run_lookup (filter P rs) k = None" if "rKey r = k"
    using gt that by (auto simp: run_lookup_None_iff)
  with Cons show ?case by (auto simp: run_lookup_def sorted_run_Cons)
qed (simp add: run_lookup_def)

lemma takeWhile_sorted_run:
  "sorted_run rs \<Longrightarrow> takeWhile (\<lambda>r. \<not> to < rKey r) rs = filter (\<lambda>r. rKey r \<le> to) rs"
proof (induction rs)
  case (Cons r rs)
  show ?case
  proof (cases "to < rKey r")
    case True
    with Cons.prems have "filter (\<lambda>r. rKey r \<le> to) rs = []"
      by (auto simp: sorted_run_Cons filter_empty_conv not_le intro: order.strict_trans)
    with True show ?thesis by (simp add: not_le)
  next
    case False
    with Cons show ?thesis by (simp add: sorted_run_Cons not_less)
  qed
qed simp

lemma takeWhile_drop_range:
  assumes "sorted_run rs" "n \<le> length rs"
    and "\<And>k. k < n \<Longrightarrow> rKey (rs ! k) < from"
    and "\<And>k. k < length rs \<Longrightarrow> n \<le> k \<Longrightarrow> from \<le> rKey (rs ! k)"
  shows "takeWhile (\<lambda>r. \<not> to < rKey r) (drop n rs) = filter (\<lambda>r. from \<le> rKey r \<and> rKey r \<le> to) rs"
proof -
  have low: "filter (\<lambda>r. from \<le> rKey r \<and> rKey r \<le> to) (take n rs) = []"
    using assms(3) by (auto simp: filter_empty_conv in_set_conv_nth dest!: leD)
  have high: "filter (\<lambda>r. from \<le> rKey r \<and> rKey r \<le> to) (drop n rs) =
      filter (\<lambda>r. rKey r \<le> to) (drop n rs)"
    using assms(2,4) by (intro filter_cong) (auto simp: in_set_conv_nth)
  have "takeWhile (\<lambda>r. \<not> to < rKey r) (drop n rs) = filter (\<lambda>r. rKey r \<le> to) (drop n rs)"
    using assms(1) by (intro takeWhile_sorted_run) auto
  moreover have "filter P rs = filter P (take n rs) @ filter P (drop n rs)" for P
    by (simp flip: filter_append)
  ultimately show ?thesis using low high by simp
qed

lemma ScanRange_filter:
  assumes "mt_wf m"
  shows "ScanRange m from to = filter (\<lambda>r. from \<le> rKey r \<and> rKey r \<le> to) (SortedEntries m)"
proof -
  let ?rs = "SortedEntries m"
  let ?n = "sort_Search (length ?rs) (\<lambda>i. rKey (?rs ! i) \<ge> from)"
  note run = sorted_run_SortedEntries [OF assms]
  note spec = sort_Search_spec [OF monotone_run_ge [OF run, of "from"]]
  have "takeWhile (\<lambda>r. \<not> to < rKey r) (drop ?n ?rs) =
      filter (\<lambda>r. from \<le> rKey r \<and> rKey r \<le> to) ?rs"
    by (rule takeWhile_drop_range [OF run]) (use spec in \<open>auto simp: not_le\<close>)
  then show ?thesis by (simp add: ScanRange_def)
qed

section \<open>Interface\<close>

text \<open>
  What the engine relies on in a table of newest records: looking a key up after \<open>put\<close>, the
  sorted export, and the invariant. The client's lemma is replay: putting a list of records one
  after the other leaves, for every key, the newest of them and of what was there. Replaying a
  write-ahead log and applying a replicated batch are both such loops.
\<close>

locale record_table =
  fixes lookup :: "'m \<Rightarrow> bytes \<Rightarrow> Record option"
    and put :: "'m \<Rightarrow> Record \<Rightarrow> 'm"
    and export :: "'m \<Rightarrow> Record list"
    and inv :: "'m \<Rightarrow> bool"
  assumes lookup_put:
      "inv m \<Longrightarrow> lookup (put m r) k = (if k = rKey r then pick (lookup m k) r else lookup m k)"
    and inv_put: "inv m \<Longrightarrow> inv (put m r)"
    and export_sorted: "inv m \<Longrightarrow> sorted_run (export m)"
    and export_lookup: "inv m \<Longrightarrow> run_lookup (export m) k = lookup m k"
begin

lemma replay_inv: "inv m \<Longrightarrow> inv (foldl put m rs)"
  by (induction rs arbitrary: m) (auto simp: inv_put)

lemma replay_lookup:
  "inv m \<Longrightarrow> lookup (foldl put m rs) k = foldl pick (lookup m k) (filter (\<lambda>r. rKey r = k) rs)"
  by (induction rs arbitrary: m) (auto simp: inv_put lookup_put)

lemma replay_newest:
  "inv m \<Longrightarrow> lookup m k = None \<Longrightarrow> lookup (foldl put m rs) k = newest rs k"
  by (simp add: replay_lookup newest_def)

lemma export_put:
  "inv m \<Longrightarrow> run_lookup (export (put m r)) k =
     (if k = rKey r then pick (lookup m k) r else lookup m k)"
  by (simp add: export_lookup inv_put lookup_put)

end

interpretation mt: record_table GetRecord SetRaw SortedEntries mt_wf
  by unfold_locales
    (auto simp: GetRecord_SetRaw sorted_run_SortedEntries run_lookup_SortedEntries)

lemma GetRecord_New [simp]: "GetRecord (NewWithSeq s) k = None"
  by (simp add: GetRecord_def NewWithSeq_def)

section \<open>Correctness\<close>

text \<open>
  Replaying any records into a fresh table with \<open>SetRaw\<close>, in any order, makes \<open>GetRecord\<close> return for
  every key the version with the highest sequence number (the first of equal ones).
\<close>

lemma memtable_replay_newest: "GetRecord (foldl SetRaw (NewWithSeq s) rs) k = newest rs k"
  by (rule mt.replay_newest) simp_all

text \<open>
  C33: the binary search and cut of \<open>ScanRange\<close> return, in strictly ascending key order, exactly the
  newest versions of the keys between the two bounds.
\<close>

theorem memtable_ScanRange:
  "let out = ScanRange (foldl SetRaw (NewWithSeq s) rs) from to
   in sorted_run out \<and> run_lookup out k = (if from \<le> k \<and> k \<le> to then newest rs k else None)"
proof -
  let ?m = "foldl SetRaw (NewWithSeq s) rs"
  have wf: "mt_wf ?m" by (rule mt.replay_inv) simp
  have "run_lookup (SortedEntries ?m) k = newest rs k"
    unfolding run_lookup_SortedEntries [OF wf]
    by (rule mt.replay_newest) simp_all
  then show ?thesis
    using sorted_run_SortedEntries [OF wf] newest_SomeD(2) [of rs k]
    by (auto simp: Let_def ScanRange_filter [OF wf] run_lookup_filter split: option.split)
qed

end
