(* ===== verification/Bloom.thy ===== *)
theory Bloom
  imports Prelude
begin

text \<open>
  Package \<open>internal/bloom\<close>: the Bloom filter each SSTable carries. Words, hashes and bit positions
  are 64-bit and wrap as in Go. Indexing out of range and a zero modulus are panics. The sizes that
  \<open>New\<close> computes in floating point (\<open>math.Log\<close>, \<open>math.Round\<close>, \<open>math.Ceil\<close> on \<open>float64\<close>) are the
  parameter \<open>sizing\<close>: it maps a key count to the converted values of \<open>math.Ceil(mTheory)\<close> and of
  \<open>math.Round((mTheory / n) * math.Ln2)\<close>.
\<close>

record BloomFilter =
  bfBits :: "u64 list"
  numBits :: u64
  numHash :: u64

type_synonym sizing = "int \<Rightarrow> u64 \<times> int"

definition bloom_New :: "sizing \<Rightarrow> int \<Rightarrow> BloomFilter" where
  "bloom_New sizing expectedKeys =
     (let n = (if expectedKeys \<le> 0 then 1 else expectedKeys);
          mCeil = fst (sizing n);
          k = snd (sizing n);
          k = (if k < 1 then 1 else k);
          k = (if k > 30 then 30 else k);
          m = ((mCeil + 63) div 64) * 64
      in \<lparr>bfBits = replicate (unat (m div 64)) 0, numBits = m, numHash = word_of_int k\<rparr>)"

definition fnv64a :: "bytes \<Rightarrow> u64" where
  "fnv64a key = foldl (\<lambda>h b. (h XOR ucast b) * 1099511628211) 14695981039346656037 key"

definition bloomHashes :: "bytes \<Rightarrow> u64 \<times> u64" where
  "bloomHashes key =
     (let h1 = fnv64a key in (h1, (push_bit 17 h1 OR drop_bit 47 h1) OR 1))"

text \<open>One round of the loops of \<open>Add\<close> and \<open>MayContain\<close>: the word index and the bit of round \<open>i\<close>.\<close>

definition bloom_pos :: "BloomFilter \<Rightarrow> u64 \<times> u64 \<Rightarrow> u64 \<Rightarrow> (nat \<times> nat) result" where
  "bloom_pos bf h i =
     (if numBits bf = 0 then Inl Panic
      else let pos = (fst h + i * snd h) mod numBits bf;
               w = unat (pos div 64)
           in if w < length (bfBits bf) then Inr (w, unat (pos mod 64)) else Inl Panic)"

fun add_loop :: "BloomFilter \<Rightarrow> u64 \<times> u64 \<Rightarrow> u64 list \<Rightarrow> BloomFilter result" where
  "add_loop bf h [] = Inr bf"
| "add_loop bf h (i # is) =
     rbind (bloom_pos bf h i) (\<lambda>(w, b).
       add_loop (bf\<lparr>bfBits := (bfBits bf)[w := bfBits bf ! w OR push_bit b 1]\<rparr>) h is)"

fun may_loop :: "BloomFilter \<Rightarrow> u64 \<times> u64 \<Rightarrow> u64 list \<Rightarrow> bool result" where
  "may_loop bf h [] = Inr True"
| "may_loop bf h (i # is) =
     rbind (bloom_pos bf h i) (\<lambda>(w, b).
       if bfBits bf ! w AND push_bit b 1 = 0 then Inr False else may_loop bf h is)"

definition rounds :: "BloomFilter \<Rightarrow> u64 list" where
  "rounds bf = map word_of_nat [0..<unat (numHash bf)]"

definition bloom_Add :: "BloomFilter \<Rightarrow> bytes \<Rightarrow> BloomFilter result" where
  "bloom_Add bf key = add_loop bf (bloomHashes key) (rounds bf)"

definition MayContain :: "BloomFilter \<Rightarrow> bytes \<Rightarrow> bool result" where
  "MayContain bf key = may_loop bf (bloomHashes key) (rounds bf)"

definition bloom_Encode :: "BloomFilter \<Rightarrow> bytes" where
  "bloom_Encode bf = putUint64 (numBits bf) @ putUint64 (numHash bf) @ concat (map putUint64 (bfBits bf))"

definition bloom_Decode :: "bytes \<Rightarrow> BloomFilter result" where
  "bloom_Decode data =
     (if length data < 16 then Inl (Err ''bloom: too short to decode'')
      else
        let nb = getUint64 data;
            nh = getUint64 (drop 8 data)
        in if nb = 0 \<or> nb mod 64 \<noteq> 0 then Inl (Err ''bloom: invalid numBits'')
           else let numWords = nb div 64
                in if word_of_nat (length data - 16) < numWords * 8
                   then Inl (Err ''bloom: data too short'')
                   else Inr \<lparr>bfBits = map (\<lambda>i. getUint64 (drop (16 + i * 8) data)) [0..<unat numWords],
                             numBits = nb, numHash = nh\<rparr>)"

text \<open>The loop of the SSTable writers: add the key of every record.\<close>

fun add_all :: "BloomFilter \<Rightarrow> bytes list \<Rightarrow> BloomFilter result" where
  "add_all bf [] = Inr bf"
| "add_all bf (k # ks) = rbind (bloom_Add bf k) (\<lambda>bf. add_all bf ks)"

section \<open>Invariant\<close>

definition bf_wf :: "BloomFilter \<Rightarrow> bool" where
  "bf_wf bf \<longleftrightarrow> numBits bf \<noteq> 0 \<and> numBits bf mod 64 = 0 \<and>
     length (bfBits bf) = unat (numBits bf div 64)"

definition bf_has :: "BloomFilter \<Rightarrow> nat \<times> nat \<Rightarrow> bool" where
  "bf_has bf p \<longleftrightarrow> bit (bfBits bf ! fst p) (snd p)"

text \<open>\<open>bf_le\<close>: same shape, and every bit of the first is set in the second.\<close>

definition bf_le :: "BloomFilter \<Rightarrow> BloomFilter \<Rightarrow> bool" where
  "bf_le a b \<longleftrightarrow> numBits a = numBits b \<and> numHash a = numHash b \<and>
     length (bfBits a) = length (bfBits b) \<and>
     (\<forall>w n. w < length (bfBits a) \<longrightarrow> bf_has a (w, n) \<longrightarrow> bf_has b (w, n))"

lemma bf_le_refl [simp]: "bf_le a a"
  by (simp add: bf_le_def)

lemma bf_le_trans: "bf_le a b \<Longrightarrow> bf_le b c \<Longrightarrow> bf_le a c"
  by (auto simp: bf_le_def)

lemma bf_le_wf: "bf_le a b \<Longrightarrow> bf_wf a \<Longrightarrow> bf_wf b"
  by (auto simp: bf_le_def bf_wf_def)

lemma bf_le_pos: "bf_le a b \<Longrightarrow> bloom_pos b h i = bloom_pos a h i"
  by (auto simp: bf_le_def bloom_pos_def)

lemma bf_le_rounds: "bf_le a b \<Longrightarrow> rounds b = rounds a"
  by (simp add: bf_le_def rounds_def)

lemma div_64_mono: "(a :: nat) < b \<Longrightarrow> b mod 64 = 0 \<Longrightarrow> a div 64 < b div 64"
  by (simp add: div_less_iff_less_mult mod_0_imp_dvd)

lemma bloom_pos_total:
  assumes "bf_wf bf"
  shows "\<exists>w b. bloom_pos bf h i = Inr (w, b) \<and> w < length (bfBits bf) \<and> b < 64"
proof -
  let ?p = "(fst h + i * snd h) mod numBits bf"
  have nz: "numBits bf \<noteq> 0" using assms by (simp add: bf_wf_def)
  have "unat ?p < unat (numBits bf)"
    using nz by (simp add: unat_mod word_less_nat_alt [symmetric] unat_gt_0)
  moreover have "unat (numBits bf) mod 64 = 0"
    using assms by (simp add: bf_wf_def unat_eq_0 [symmetric] unat_mod del: unat_eq_0)
  ultimately have "unat ?p div 64 < unat (numBits bf) div 64" by (rule div_64_mono)
  then have "unat (?p div 64) < length (bfBits bf)"
    using assms by (simp add: bf_wf_def unat_div)
  moreover have "unat (?p mod 64) < 64" by (simp add: unat_mod)
  ultimately show ?thesis using nz by (auto simp: bloom_pos_def Let_def)
qed

section \<open>Adding and asking\<close>

definition set_bit_at :: "BloomFilter \<Rightarrow> nat \<times> nat \<Rightarrow> BloomFilter" where
  "set_bit_at bf p =
     bf\<lparr>bfBits := (bfBits bf)[fst p := bfBits bf ! fst p OR push_bit (snd p) 1]\<rparr>"

lemma bf_le_set_bit_at: "bf_le bf (set_bit_at bf p)"
proof -
  have "bit ((bfBits bf)[fst p := bfBits bf ! fst p OR push_bit (snd p) 1] ! w) n"
    if "w < length (bfBits bf)" "bit (bfBits bf ! w) n" for w n
    using that by (cases "fst p = w") (auto simp: bit_or_iff)
  then show ?thesis by (simp add: bf_le_def set_bit_at_def bf_has_def del: push_bit_of_1)
qed

lemma bf_has_set_bit_at:
  "fst p < length (bfBits bf) \<Longrightarrow> snd p < 64 \<Longrightarrow> bf_has (set_bit_at bf p) p"
  by (simp add: bf_has_def set_bit_at_def bit_or_iff bit_push_bit_iff del: push_bit_of_1)

text \<open>The positions of a key are set: what \<open>MayContain\<close> tests.\<close>

definition covered :: "BloomFilter \<Rightarrow> u64 \<times> u64 \<Rightarrow> u64 list \<Rightarrow> bool" where
  "covered bf h is \<longleftrightarrow> (\<forall>i \<in> set is. \<exists>p. bloom_pos bf h i = Inr p \<and> bf_has bf p)"

lemma may_loop_covered: "covered bf h is \<Longrightarrow> may_loop bf h is = Inr True"
proof (induction "is")
  case (Cons i "is")
  then obtain w b where "bloom_pos bf h i = Inr (w, b)" "bf_has bf (w, b)" and "covered bf h is"
    by (auto simp: covered_def)
  with Cons.IH show ?case
    by (simp add: bf_has_def bit_iff_and_push_bit_not_eq_0)
qed simp

lemma may_loop_total: "bf_wf bf \<Longrightarrow> \<exists>b. may_loop bf h is = Inr b"
proof (induction "is")
  case (Cons i "is")
  then obtain w b where "bloom_pos bf h i = Inr (w, b)" using bloom_pos_total by blast
  with Cons show ?case by (cases "bfBits bf ! w AND push_bit b 1 = 0") auto
qed auto

lemma covered_le: "bf_le a b \<Longrightarrow> covered a h is \<Longrightarrow> covered b h is"
proof -
  assume le: "bf_le a b" and c: "covered a h is"
  have "bf_has b p" if "bloom_pos a h i = Inr p" "bf_has a p" for i p
  proof -
    have "fst p < length (bfBits a)"
      using that(1) by (auto simp: bloom_pos_def Let_def split: if_splits)
    then show ?thesis using le that(2) by (cases p) (auto simp: bf_le_def)
  qed
  with c show ?thesis unfolding covered_def bf_le_pos [OF le] by blast
qed

lemma add_loop_spec:
  assumes "bf_wf bf"
  shows "\<exists>bf'. add_loop bf h is = Inr bf' \<and> bf_le bf bf' \<and> covered bf' h is"
  using assms
proof (induction "is" arbitrary: bf)
  case Nil
  then show ?case by (simp add: covered_def)
next
  case (Cons i "is")
  obtain w b where p: "bloom_pos bf h i = Inr (w, b)" "w < length (bfBits bf)" "b < 64"
    using bloom_pos_total [OF Cons.prems] by blast
  let ?bf1 = "set_bit_at bf (w, b)"
  have le1: "bf_le bf ?bf1" by (rule bf_le_set_bit_at)
  have "bf_wf ?bf1" by (rule bf_le_wf [OF le1 Cons.prems])
  then obtain bf' where ih: "add_loop ?bf1 h is = Inr bf'" "bf_le ?bf1 bf'" "covered bf' h is"
    using Cons.IH by blast
  have "bf_has ?bf1 (w, b)" using p by (intro bf_has_set_bit_at) simp_all
  moreover have "w < length (bfBits ?bf1)" using le1 p by (simp add: bf_le_def)
  ultimately have "bf_has bf' (w, b)" using ih(2) unfolding bf_le_def by blast
  moreover have le: "bf_le bf bf'" using le1 ih(2) by (rule bf_le_trans)
  ultimately have "covered bf' h (i # is)"
    using ih(3) p(1) bf_le_pos [OF le] by (auto simp: covered_def)
  moreover have "add_loop bf h (i # is) = Inr bf'"
    using p(1) ih(1) by (simp add: set_bit_at_def)
  ultimately show ?case using le by blast
qed

lemma bloom_Add_spec:
  assumes "bf_wf bf"
  obtains bf' where "bloom_Add bf k = Inr bf'" "bf_le bf bf'" "bf_wf bf'"
    "covered bf' (bloomHashes k) (rounds bf')"
  using add_loop_spec [OF assms, of "bloomHashes k" "rounds bf"] bf_le_wf [OF _ assms]
  by (metis bf_le_rounds bloom_Add_def)

lemma add_all_spec:
  assumes "bf_wf bf"
  shows "\<exists>bf'. add_all bf ks = Inr bf' \<and> bf_le bf bf' \<and> bf_wf bf' \<and>
    (\<forall>k \<in> set ks. covered bf' (bloomHashes k) (rounds bf'))"
  using assms
proof (induction ks arbitrary: bf)
  case (Cons k ks)
  obtain bf1 where 1: "bloom_Add bf k = Inr bf1" "bf_le bf bf1" "bf_wf bf1"
    "covered bf1 (bloomHashes k) (rounds bf1)"
    using bloom_Add_spec [OF Cons.prems] by blast
  obtain bf' where 2: "add_all bf1 ks = Inr bf'" "bf_le bf1 bf'" "bf_wf bf'"
    "\<forall>k \<in> set ks. covered bf' (bloomHashes k) (rounds bf')"
    using Cons.IH [OF 1(3)] by blast
  have "covered bf' (bloomHashes k) (rounds bf')"
    using covered_le [OF 2(2) 1(4)] bf_le_rounds [OF 2(2)] by simp
  with 1 2 show ?case by (auto intro: bf_le_trans)
qed simp

lemma bloom_no_false_negative:
  assumes "bf_wf bf" "add_all bf ks = Inr bf'" "k \<in> set ks"
  shows "MayContain bf' k = Inr True"
  using add_all_spec [OF assms(1), of ks] assms(2,3) by (auto simp: MayContain_def may_loop_covered)

lemma MayContain_total: "bf_wf bf \<Longrightarrow> \<exists>b. MayContain bf k = Inr b"
  unfolding MayContain_def by (rule may_loop_total)

section \<open>Construction and encoding\<close>

text \<open>The sizes the formula gives are usable: at least one bit, and no 64-bit overflow in the
  rounding up.\<close>

definition sized :: "sizing \<Rightarrow> int \<Rightarrow> bool" where
  "sized sizing n \<longleftrightarrow> 0 < unat (fst (sizing n)) \<and> unat (fst (sizing n)) \<le> 2 ^ 63"

lemma round_up_64:
  assumes "0 < (c :: nat)" "c \<le> 2 ^ 63"
  shows "1 \<le> (c + 63) div 64" "(c + 63) div 64 * 64 < 2 ^ 64"
proof -
  show "1 \<le> (c + 63) div 64" using assms(1) by (simp add: div_greater_zero_iff Suc_le_eq)
  have "(c + 63) div 64 * 64 \<le> c + 63" by simp
  also have "c + 63 < 2 ^ 64" using assms(2) by simp
  finally show "(c + 63) div 64 * 64 < 2 ^ 64" .
qed

lemma bf_wf_New:
  assumes "sized sizing n" "0 < n"
  shows "bf_wf (bloom_New sizing n)"
proof -
  let ?c = "unat (fst (sizing n))"
  let ?q = "(fst (sizing n) + 63) div 64"
  have c: "0 < ?c" "?c \<le> 2 ^ 63" using assms(1) by (simp_all add: sized_def)
  have q: "unat ?q = (?c + 63) div 64" using c by (simp add: unat_div unat_add_u64)
  note r = round_up_64 [OF c, folded q]
  have m: "unat (?q * 64) = unat ?q * 64" using r(2) by (simp add: unat_word_ariths)
  have "?q * 64 \<noteq> 0"
  proof
    assume "?q * 64 = 0"
    then have "unat ?q * 64 = 0" using m by (metis unat_0)
    with r(1) show False by simp
  qed
  moreover have "unat (?q * 64 mod 64) = 0" by (simp add: unat_mod m)
  then have "?q * 64 mod 64 = 0" by (simp only: unat_eq_0)
  moreover have "numBits (bloom_New sizing n) = ?q * 64"
    "bfBits (bloom_New sizing n) = replicate (unat (?q * 64 div 64)) 0"
    using assms(2) by (simp_all add: bloom_New_def Let_def)
  ultimately show ?thesis unfolding bf_wf_def by simp
qed

lemma length_concat_put64 [simp]: "length (concat (map putUint64 ws)) = 8 * length ws"
  by (induction ws) auto

lemma bloom_Encode_length [simp]: "length (bloom_Encode bf) = 16 + 8 * length (bfBits bf)"
  by (simp add: bloom_Encode_def)

lemma concat_put64_nth:
  "i < length ws \<Longrightarrow> getUint64 (drop (i * 8) (concat (map putUint64 ws))) = ws ! i"
proof (induction ws arbitrary: i)
  case (Cons w ws)
  then show ?case by (cases i) (simp_all add: drop_append)
qed simp

lemma bloom_Decode_Encode:
  assumes "bf_wf bf"
  shows "bloom_Decode (bloom_Encode bf) = Inr bf"
proof -
  let ?d = "bloom_Encode bf"
  have nb: "numBits bf \<noteq> 0" "numBits bf mod 64 = 0" and
    len: "length (bfBits bf) = unat (numBits bf div 64)" using assms by (simp_all add: bf_wf_def)
  have h: "getUint64 ?d = numBits bf" "getUint64 (drop 8 ?d) = numHash bf"
    by (simp_all add: bloom_Encode_def)
  have small: "unat (numBits bf div 64) * 8 < 2 ^ 64"
    using unat_u64_less [of "numBits bf"] by (simp add: unat_div)
  have eq: "word_of_nat (length ?d - 16) = numBits bf div 64 * 8"
    by (simp add: len mult.commute)
  have "getUint64 (drop (16 + i * 8) ?d) = bfBits bf ! i" if "i < length (bfBits bf)" for i
    using concat_put64_nth [OF that] by (simp add: bloom_Encode_def)
  then have "map (\<lambda>i. getUint64 (drop (16 + i * 8) ?d)) [0..<unat (numBits bf div 64)] = bfBits bf"
    by (intro nth_equalityI) (simp_all add: len)
  then show ?thesis using h nb eq by (simp add: bloom_Decode_def Let_def)
qed

text \<open>A decoded filter is always usable: \<open>MayContain\<close> on it cannot panic.\<close>

lemma bloom_Decode_wf: "bloom_Decode d = Inr bf \<Longrightarrow> bf_wf bf"
  by (simp add: bloom_Decode_def bf_wf_def Let_def split: if_split_asm) (hypsubst, simp)

section \<open>Correctness\<close>

text \<open>
  C23: building a filter of a positive size and adding keys never panics; the filter then reports every
  added key, and it survives encoding and decoding unchanged.
\<close>

theorem bloom_filter_correct:
  assumes "sized sizing n" "0 < n"
  shows "\<exists>bf. add_all (bloom_New sizing n) ks = Inr bf \<and> bloom_Decode (bloom_Encode bf) = Inr bf \<and>
    (\<forall>k \<in> set ks. MayContain bf k = Inr True)"
proof -
  note wf = bf_wf_New [OF assms]
  obtain bf where "add_all (bloom_New sizing n) ks = Inr bf" "bf_wf bf" using add_all_spec [OF wf] by blast
  with bloom_Decode_Encode bloom_no_false_negative [OF wf] show ?thesis by blast
qed

theorem bloom_filter_correct_witness:
  "\<exists>bf. add_all (bloom_New (\<lambda>_. (20, 7)) 2) [[1], [2, 3]] = Inr bf \<and>
     bloom_Decode (bloom_Encode bf) = Inr bf \<and> MayContain bf [2, 3] = Inr True"
proof -
  have "sized (\<lambda>_. (20, 7)) 2" "0 < (2 :: int)" by (simp_all add: sized_def)
  from bloom_filter_correct [OF this, of "[[1], [2, 3]]"] show ?thesis by auto
qed

text \<open>
  C38: whatever bytes \<open>Decode\<close> accepts, the filter it returns is well formed: no later \<open>Add\<close> or
  \<open>MayContain\<close> on it divides by zero or indexes out of range.
\<close>

theorem bloom_Decode_safe:
  assumes "bloom_Decode data = Inr bf"
  shows "(\<exists>b. MayContain bf k = Inr b) \<and> (\<exists>bf'. bloom_Add bf k = Inr bf')"
proof -
  from assms have wf: "bf_wf bf" by (rule bloom_Decode_wf)
  with MayContain_total [OF wf, of k] bloom_Add_spec [OF wf, of k] show ?thesis by blast
qed

theorem bloom_Decode_safe_witness:
  "(\<exists>b. MayContain \<lparr>bfBits = [5], numBits = 64, numHash = 1\<rparr> [7] = Inr b) \<and>
   (\<exists>bf. bloom_Add \<lparr>bfBits = [5], numBits = 64, numHash = 1\<rparr> [7] = Inr bf)"
proof -
  have "bf_wf \<lparr>bfBits = [5], numBits = 64, numHash = 1\<rparr>" by (simp add: bf_wf_def)
  from bloom_Decode_safe [OF bloom_Decode_Encode [OF this]] show ?thesis .
qed

end
