(* ===== verification/Disk.thy ===== *)
theory Disk
  imports Prelude
begin

text \<open>
  The files of one database directory. \<open>dFiles\<close> maps a name inside the directory to its content;
  \<open>dFaults\<close> is the list of outcomes of the next system calls that change files or sync them: an
  empty list means that every call succeeds, \<open>Fail n\<close> that the call returns an error after \<open>n\<close> bytes
  of a write reached the file, \<open>Crash n\<close> that the process dies there, so that no later call has any
  effect (\<open>dDead\<close>). A crash keeps \<open>dFiles\<close>; loss of unsynced data in a power failure is not modelled,
  so a sync has no effect but its error. Reads fail only on missing files and short content, closing
  a file never fails.
\<close>

datatype fault = Fine | Fail nat | Crash nat

record disk =
  dFiles :: "string \<rightharpoonup> bytes"
  dFaults :: "fault list"
  dDead :: bool

definition syscall :: "disk \<Rightarrow> (disk \<Rightarrow> disk) \<Rightarrow> (nat \<Rightarrow> disk \<Rightarrow> disk) \<Rightarrow> string \<Rightarrow> disk \<times> unit result" where
  "syscall d ok part msg =
     (if dDead d then (d, Inl (Err msg))
      else case dFaults d of
        [] \<Rightarrow> (ok d, Inr ())
      | Fine # fs \<Rightarrow> (ok (d\<lparr>dFaults := fs\<rparr>), Inr ())
      | Fail n # fs \<Rightarrow> (part n (d\<lparr>dFaults := fs\<rparr>), Inl (Err msg))
      | Crash n # fs \<Rightarrow> (part n (d\<lparr>dFaults := fs, dDead := True\<rparr>), Inl (Err msg)))"

definition healthy :: "disk \<Rightarrow> bool" where
  "healthy d \<longleftrightarrow> dFaults d = [] \<and> \<not> dDead d"

definition empty_disk :: disk where
  "empty_disk = \<lparr>dFiles = Map.empty, dFaults = [], dDead = False\<rparr>"

text \<open>The directory as the next process finds it.\<close>

definition reboot :: "disk \<Rightarrow> disk" where
  "reboot d = d\<lparr>dFaults := [], dDead := False\<rparr>"

definition content :: "disk \<Rightarrow> string \<Rightarrow> bytes" where
  "content d f = (case dFiles d f of None \<Rightarrow> [] | Some bs \<Rightarrow> bs)"

definition put_file :: "string \<Rightarrow> bytes \<Rightarrow> disk \<Rightarrow> disk" where
  "put_file f bs d = d\<lparr>dFiles := (dFiles d)(f \<mapsto> bs)\<rparr>"

text \<open>Writing \<open>buf\<close> at offset \<open>pos\<close> of a file, over what is there.\<close>

definition write_at :: "bytes \<Rightarrow> nat \<Rightarrow> bytes \<Rightarrow> bytes" where
  "write_at file pos buf =
     take pos (file @ replicate (pos - length file) 0) @ buf @ drop (pos + length buf) file"

definition os_write :: "disk \<Rightarrow> string \<Rightarrow> nat \<Rightarrow> bytes \<Rightarrow> disk \<times> unit result" where
  "os_write d f pos buf =
     syscall d (\<lambda>d. put_file f (write_at (content d f) pos buf) d)
       (\<lambda>n d. put_file f (write_at (content d f) pos (take n buf)) d) ''write''"

text \<open>\<open>f.Write\<close> through a file's cursor, which moves past the bytes that reached the file.\<close>

definition file_write :: "disk \<Rightarrow> string \<Rightarrow> nat \<Rightarrow> bytes \<Rightarrow> disk \<times> nat \<times> unit result" where
  "file_write d f pos buf =
     (let wrote = (if dDead d then 0
                   else case dFaults d of
                          Fail n # _ \<Rightarrow> min n (length buf)
                        | Crash n # _ \<Rightarrow> min n (length buf)
                        | _ \<Rightarrow> length buf)
      in case os_write d f pos buf of (d, res) \<Rightarrow> (d, pos + wrote, res))"

definition os_create :: "disk \<Rightarrow> string \<Rightarrow> disk \<times> unit result" where
  "os_create d f = syscall d (put_file f []) (\<lambda>_ d. d) ''create''"

text \<open>\<open>O_CREATE\<close> without \<open>O_TRUNC\<close>: an existing file keeps its content.\<close>

definition os_openFile :: "disk \<Rightarrow> string \<Rightarrow> disk \<times> unit result" where
  "os_openFile d f =
     syscall d (\<lambda>d. if dFiles d f = None then put_file f [] d else d) (\<lambda>_ d. d) ''open''"

definition os_truncate :: "disk \<Rightarrow> string \<Rightarrow> nat \<Rightarrow> disk \<times> unit result" where
  "os_truncate d f n =
     syscall d (\<lambda>d. put_file f (take n (content d f) @ replicate (n - length (content d f)) 0) d)
       (\<lambda>_ d. d) ''truncate''"

definition os_sync :: "disk \<Rightarrow> string \<Rightarrow> disk \<times> unit result" where
  "os_sync d f = syscall d (\<lambda>d. d) (\<lambda>_ d. d) ''sync''"

definition os_rename :: "disk \<Rightarrow> string \<Rightarrow> string \<Rightarrow> disk \<times> unit result" where
  "os_rename d a b =
     syscall d (\<lambda>d. d\<lparr>dFiles := ((dFiles d)(b := dFiles d a))(a := None)\<rparr>) (\<lambda>_ d. d) ''rename''"

definition os_remove :: "disk \<Rightarrow> string \<Rightarrow> disk \<times> unit result" where
  "os_remove d f = syscall d (\<lambda>d. d\<lparr>dFiles := (dFiles d)(f := None)\<rparr>) (\<lambda>_ d. d) ''remove''"

text \<open>Opening the directory, to sync it.\<close>

definition os_open_dir :: "disk \<Rightarrow> disk \<times> unit result" where
  "os_open_dir d = syscall d (\<lambda>d. d) (\<lambda>_ d. d) ''open dir''"

lemma syscall_fine [simp]: "healthy d \<Longrightarrow> syscall d ok part msg = (ok d, Inr ())"
  by (simp add: syscall_def healthy_def)

lemma reboot_simps [simp]: "dFiles (reboot d) = dFiles d" "healthy (reboot d)"
  by (simp_all add: reboot_def healthy_def)

lemma put_file_simps [simp]:
  "dFiles (put_file f bs d) = (dFiles d)(f \<mapsto> bs)" "dFaults (put_file f bs d) = dFaults d"
  "dDead (put_file f bs d) = dDead d" "healthy (put_file f bs d) = healthy d"
  by (simp_all add: put_file_def healthy_def)

lemma put_file_twice [simp]: "put_file f b (put_file f a d) = put_file f b d"
  by (simp add: put_file_def)

lemma write_at_end [simp]: "write_at file (length file) buf = file @ buf"
  by (simp add: write_at_def)

lemma write_at_nil [simp]: "write_at [] 0 buf = buf"
  by (simp add: write_at_def)

text \<open>What a call that returned without an error did, and what every call leaves alone.\<close>

lemma syscall_Inr:
  assumes "syscall d ok part msg = (d', Inr u)"
  shows "\<exists>fs. d' = ok (d\<lparr>dFaults := fs\<rparr>)"
proof (cases "dFaults d")
  case Nil
  then have eq: "d\<lparr>dFaults := []\<rparr> = d" by simp
  show ?thesis using Nil assms by (intro exI [of _ "[]"]) (simp add: syscall_def eq split: if_splits)
next
  case (Cons a fs)
  with assms show ?thesis by (intro exI [of _ fs]) (auto simp: syscall_def split: fault.splits if_splits)
qed

lemma syscall_cases:
  assumes "syscall d ok part msg = (d', r)"
  obtains fs where "d' = ok (d\<lparr>dFaults := fs\<rparr>)" "r = Inr ()"
  | n fs b where "d' = part n (d\<lparr>dFaults := fs, dDead := b\<rparr>)" "r = Inl (Err msg)"
  | "d' = d" "r = Inl (Err msg)"
proof (cases r)
  case (Inr u)
  with syscall_Inr assms that(1) show ?thesis by fastforce
next
  case (Inl e)
  have alive: "d\<lparr>dFaults := fs\<rparr> = d\<lparr>dFaults := fs, dDead := False\<rparr>" if "\<not> dDead d" for fs
    using that by simp
  show ?thesis
  proof (cases "dDead d")
    case True
    with assms that(3) show ?thesis by (simp add: syscall_def)
  next
    case False
    from assms Inl False obtain n fs where "e = Err msg"
      "d' = part n (d\<lparr>dFaults := fs\<rparr>) \<or> d' = part n (d\<lparr>dFaults := fs, dDead := True\<rparr>)"
      by (auto simp: syscall_def split: list.splits fault.splits)
    with alive [OF False] Inl that(2) show ?thesis by metis
  qed
qed

lemma content_faults [simp]:
  "content (d\<lparr>dFaults := fs\<rparr>) f = content d f" "content (d\<lparr>dFaults := fs, dDead := b\<rparr>) f = content d f"
  by (simp_all add: content_def)

lemma content_put_file [simp]: "content (put_file f bs d) g = (if g = f then bs else content d g)"
  by (simp add: content_def)

lemma os_Inr:
  "os_write d f pos buf = (d', Inr u) \<Longrightarrow> dFiles d' = (dFiles d)(f \<mapsto> write_at (content d f) pos buf)"
  "os_create d f = (d', Inr u) \<Longrightarrow> dFiles d' = (dFiles d)(f \<mapsto> [])"
  "os_openFile d f = (d', Inr u) \<Longrightarrow> dFiles d' = (dFiles d)(f \<mapsto> content d f)"
  "os_truncate d f n = (d', Inr u) \<Longrightarrow>
     dFiles d' = (dFiles d)(f \<mapsto> take n (content d f) @ replicate (n - length (content d f)) 0)"
  "os_sync d f = (d', Inr u) \<Longrightarrow> dFiles d' = dFiles d"
  "os_rename d a b = (d', Inr u) \<Longrightarrow> dFiles d' = ((dFiles d)(b := dFiles d a))(a := None)"
  "os_remove d f = (d', Inr u) \<Longrightarrow> dFiles d' = (dFiles d)(f := None)"
  unfolding os_write_def os_create_def os_openFile_def os_truncate_def os_sync_def os_rename_def
    os_remove_def
  by (auto dest!: syscall_Inr simp: fun_eq_iff content_def)

lemma os_frame:
  "os_write d f pos buf = (d', r) \<Longrightarrow> g \<noteq> f \<Longrightarrow> dFiles d' g = dFiles d g"
  "os_create d f = (d', r) \<Longrightarrow> g \<noteq> f \<Longrightarrow> dFiles d' g = dFiles d g"
  "os_openFile d f = (d', r) \<Longrightarrow> g \<noteq> f \<Longrightarrow> dFiles d' g = dFiles d g"
  "os_truncate d f n = (d', r) \<Longrightarrow> g \<noteq> f \<Longrightarrow> dFiles d' g = dFiles d g"
  "os_sync d f = (d', r) \<Longrightarrow> dFiles d' g = dFiles d g"
  "os_rename d a b = (d', r) \<Longrightarrow> g \<noteq> a \<Longrightarrow> g \<noteq> b \<Longrightarrow> dFiles d' g = dFiles d g"
  "os_remove d f = (d', r) \<Longrightarrow> g \<noteq> f \<Longrightarrow> dFiles d' g = dFiles d g"
  unfolding os_write_def os_create_def os_openFile_def os_truncate_def os_sync_def os_rename_def
    os_remove_def
  by (erule syscall_cases; auto)+

lemma os_fine:
  assumes "healthy d"
  shows "os_write d f pos buf = (put_file f (write_at (content d f) pos buf) d, Inr ())"
    "os_create d f = (put_file f [] d, Inr ())"
    "os_sync d f = (d, Inr ())"
    "os_truncate d f n = (put_file f (take n (content d f) @ replicate (n - length (content d f)) 0) d, Inr ())"
    "os_rename d a b = (d\<lparr>dFiles := ((dFiles d)(b := dFiles d a))(a := None)\<rparr>, Inr ())"
    "os_remove d f = (d\<lparr>dFiles := (dFiles d)(f := None)\<rparr>, Inr ())"
    "file_write d f pos buf = (put_file f (write_at (content d f) pos buf) d, pos + length buf, Inr ())"
    "os_open_dir d = (d, Inr ())"
    "os_openFile d f = (if dFiles d f = None then put_file f [] d else d, Inr ())"
  using assms
  by (simp_all add: os_write_def os_create_def os_sync_def os_truncate_def os_rename_def os_remove_def
      file_write_def os_open_dir_def os_openFile_def healthy_def [of d])

lemma file_write_Inr:
  assumes "file_write d f pos buf = (d', pos', Inr u)"
  shows "dFiles d' = (dFiles d)(f \<mapsto> write_at (content d f) pos buf)" "pos' = pos + length buf"
proof -
  from assms obtain w where w: "os_write d f pos buf = (d', Inr u)" "pos' = pos + w"
    and weq: "w = (if dDead d then 0 else case dFaults d of Fail n # _ \<Rightarrow> min n (length buf)
      | Crash n # _ \<Rightarrow> min n (length buf) | _ \<Rightarrow> length buf)"
    by (auto simp: file_write_def Let_def split: prod.splits)
  from w(1) show "dFiles d' = (dFiles d)(f \<mapsto> write_at (content d f) pos buf)" by (rule os_Inr)
  from w(1) have "w = length buf"
    unfolding weq by (auto simp: os_write_def syscall_def split: list.splits fault.splits if_splits)
  with w(2) show "pos' = pos + length buf" by simp
qed

lemma file_write_frame:
  "file_write d f pos buf = (d', pos', r) \<Longrightarrow> g \<noteq> f \<Longrightarrow> dFiles d' g = dFiles d g"
  by (auto simp: file_write_def Let_def split: prod.splits dest: os_frame(1))

section \<open>File names\<close>

text \<open>Decimal printing, and \<open>fmt.Sprintf("%06d.sst", n)\<close>.\<close>

fun show_nat :: "nat \<Rightarrow> string" where
  "show_nat n = (if n < 10 then [char_of (48 + n)] else show_nat (n div 10) @ [char_of (48 + n mod 10)])"

declare show_nat.simps [simp del]

definition sst_name :: "u64 \<Rightarrow> string" where
  "sst_name n = (let s = show_nat (unat n) in replicate (6 - length s) (CHR ''0'') @ s @ ''.sst'')"

definition hasSuffix :: "string \<Rightarrow> string \<Rightarrow> bool" where
  "hasSuffix s suf = (length suf \<le> length s \<and> drop (length s - length suf) s = suf)"

text \<open>\<open>filepath.Base\<close> on a slash-separated path.\<close>

definition filepath_Base :: "string \<Rightarrow> string" where
  "filepath_Base p =
     (if p = '''' then ''.''
      else let q = rev (dropWhile (\<lambda>c. c = CHR ''/'') (rev p));
               b = rev (takeWhile (\<lambda>c. c \<noteq> CHR ''/'') (rev q))
           in if b = '''' then ''/'' else b)"

end
