(* ===== verification/Wal.thy ===== *)
theory Wal
  imports Disk
begin

text \<open>
  Package \<open>internal/wal\<close>: the write-ahead log. A record on disk is
  \<open>type(1) seq(8) keyLen(4) valLen(4) key value crc32(4)\<close>, integers big-endian. \<open>Append\<close> writes one
  record at the cursor in a single write; \<open>ReadAll\<close> replays the file from its start, truncates it
  after the last valid record and leaves the cursor there.
\<close>

definition TypePut :: byte where
  "TypePut = 1"

definition TypeDelete :: byte where
  "TypeDelete = 2"

definition maxKeyLen :: nat where
  "maxKeyLen = 16 * 2 ^ 10"

definition maxValLen :: nat where
  "maxValLen = 64 * 2 ^ 20"

record WalRecord =
  wType :: byte
  wSeqNum :: u64
  wKey :: bytes
  wValue :: bytes

text \<open>The open log: the name of its file and the write cursor.\<close>

record WAL =
  wName :: string
  wPos :: nat

definition wal_Open :: "disk \<Rightarrow> string \<Rightarrow> disk \<times> WAL result" where
  "wal_Open d path =
     (case os_openFile d path of
        (d, Inl e) \<Rightarrow> (d, Inl e)
      | (d, Inr _) \<Rightarrow> (d, Inr \<lparr>wName = path, wPos = 0\<rparr>))"

definition wal_encode :: "WalRecord \<Rightarrow> bytes" where
  "wal_encode r =
     (let body = [wType r] @ putUint64 (wSeqNum r) @ putUint32 (word_of_nat (length (wKey r))) @
            putUint32 (word_of_nat (length (wValue r))) @ wKey r @ wValue r
      in body @ putUint32 (crc32 body))"

text \<open>A failed write may have put a prefix of the record into the file; the cursor is behind it.\<close>

definition wal_Append :: "disk \<Rightarrow> WAL \<Rightarrow> WalRecord \<Rightarrow> disk \<times> WAL \<times> unit result" where
  "wal_Append d w r =
     (case file_write d (wName w) (wPos w) (wal_encode r) of
        (d, pos, res) \<Rightarrow> (d, w\<lparr>wPos := pos\<rparr>, res))"

function readAll_loop ::
  "bytes \<Rightarrow> nat \<Rightarrow> nat \<Rightarrow> WalRecord list \<Rightarrow> (WalRecord list \<times> nat) result" where
  "readAll_loop rest pos validEnd records =
     (case readFull rest 17 of
        EOF \<Rightarrow> Inr (records, validEnd)
      | UnexpectedEOF \<Rightarrow> Inr (records, validEnd)
      | Full hdr rest1 \<Rightarrow>
          let typ = hdr ! 0;
              seq = getUint64 (drop 1 hdr);
              keyLen = unat (getUint32 (drop 9 hdr));
              valLen = unat (getUint32 (drop 13 hdr))
          in if keyLen > maxKeyLen \<or> valLen > maxValLen then Inr (records, validEnd)
             else (case readFull rest1 (keyLen + valLen + 4) of
                 UnexpectedEOF \<Rightarrow> Inr (records, validEnd)
               | EOF \<Rightarrow> Inl (Err ''wal read body'')
               | Full body rest2 \<Rightarrow>
                   let pos = pos + 17 + (keyLen + valLen + 4);
                       storedCRC = getUint32 (drop (keyLen + valLen) body)
                   in if crc32 (hdr @ take (keyLen + valLen) body) \<noteq> storedCRC
                      then readAll_loop rest2 pos validEnd records
                      else if typ \<noteq> TypePut \<and> typ \<noteq> TypeDelete
                      then readAll_loop rest2 pos validEnd records
                      else readAll_loop rest2 pos pos
                        (records @ [\<lparr>wType = typ, wSeqNum = seq, wKey = take keyLen body,
                                     wValue = take valLen (drop keyLen body)\<rparr>])))"
  by pat_completeness auto
termination
  by (relation "measure (\<lambda>(rest, _). length rest)") (auto simp: readFull_def split: if_splits)

declare readAll_loop.simps [simp del]

definition wal_ReadAll :: "disk \<Rightarrow> WAL \<Rightarrow> disk \<times> (WAL \<times> WalRecord list) result" where
  "wal_ReadAll d w =
     (case readAll_loop (content d (wName w)) 0 0 [] of
        Inl e \<Rightarrow> (d, Inl e)
      | Inr (records, validEnd) \<Rightarrow>
          (case os_truncate d (wName w) validEnd of
             (d, Inl e) \<Rightarrow> (d, Inl e)
           | (d, Inr _) \<Rightarrow> (d, Inr (w\<lparr>wPos := length (content d (wName w))\<rparr>, records))))"

definition wal_Reset :: "disk \<Rightarrow> WAL \<Rightarrow> disk \<times> WAL \<times> unit result" where
  "wal_Reset d w =
     (case os_truncate d (wName w) 0 of
        (d, Inl e) \<Rightarrow> (d, w, Inl e)
      | (d, Inr _) \<Rightarrow> (d, w\<lparr>wPos := 0\<rparr>, Inr ()))"

definition wal_Close :: "disk \<Rightarrow> WAL \<Rightarrow> disk \<times> unit result" where
  "wal_Close d w = os_sync d (wName w)"

section \<open>Replay\<close>

text \<open>Records that \<open>ReadAll\<close> accepts back. \<open>Append\<close> itself checks none of this.\<close>

definition wal_ok :: "WalRecord \<Rightarrow> bool" where
  "wal_ok r \<longleftrightarrow> (wType r = TypePut \<or> wType r = TypeDelete) \<and>
     length (wKey r) \<le> maxKeyLen \<and> length (wValue r) \<le> maxValLen"

definition wal_header :: "WalRecord \<Rightarrow> bytes" where
  "wal_header r = [wType r] @ putUint64 (wSeqNum r) @ putUint32 (word_of_nat (length (wKey r))) @
     putUint32 (word_of_nat (length (wValue r)))"

definition wal_body :: "WalRecord \<Rightarrow> bytes" where
  "wal_body r = wKey r @ wValue r @ putUint32 (crc32 (wal_header r @ wKey r @ wValue r))"

lemma wal_encode_split: "wal_encode r = wal_header r @ wal_body r"
  by (simp add: wal_encode_def wal_header_def wal_body_def Let_def)

lemma length_wal_header [simp]: "length (wal_header r) = 17"
  by (simp add: wal_header_def)

lemma length_wal_body [simp]: "length (wal_body r) = length (wKey r) + length (wValue r) + 4"
  by (simp add: wal_body_def)

lemma wal_body_not_Nil [simp]: "wal_body r \<noteq> []"
  using length_wal_body [of r] by (metis add_eq_0_iff_both_eq_0 list.size(3) zero_neq_numeral)

lemma wal_encode_length: "length (wal_encode r) = 17 + (length (wKey r) + length (wValue r) + 4)"
  by (simp add: wal_encode_split)

lemma wal_len_bounds: "maxKeyLen < 2 ^ 32" "maxValLen < 2 ^ 32"
  by (simp_all add: maxKeyLen_def maxValLen_def)

lemma wal_header_fields:
  "wal_header r ! 0 = wType r"
  "getUint64 (drop (Suc 0) (wal_header r)) = wSeqNum r"
  "getUint32 (drop 9 (wal_header r)) = word_of_nat (length (wKey r))"
  "getUint32 (drop 13 (wal_header r)) = word_of_nat (length (wValue r))"
  by (simp_all add: wal_header_def)

lemma wal_header_lengths:
  assumes "length (wKey r) < 2 ^ 32" "length (wValue r) < 2 ^ 32"
  shows "unat (getUint32 (drop 9 (wal_header r))) = length (wKey r)"
    "unat (getUint32 (drop 13 (wal_header r))) = length (wValue r)"
  using assms by (simp_all add: wal_header_fields unat_of_nat_u32)

lemma wal_ok_lengths:
  "wal_ok r \<Longrightarrow> length (wKey r) < 2 ^ 32" "wal_ok r \<Longrightarrow> length (wValue r) < 2 ^ 32"
  using wal_len_bounds by (auto simp: wal_ok_def)

text \<open>The loop state of \<open>ReadAll\<close> and the effect of one valid record on it.\<close>

type_synonym wal_state = "nat \<times> nat \<times> WalRecord list"

definition wal_scan :: "bytes \<Rightarrow> wal_state \<Rightarrow> (WalRecord list \<times> nat) result" where
  "wal_scan rest s = (case s of (pos, validEnd, records) \<Rightarrow> readAll_loop rest pos validEnd records)"

definition wal_push :: "wal_state \<Rightarrow> WalRecord \<Rightarrow> wal_state" where
  "wal_push s r = (case s of (pos, validEnd, records) \<Rightarrow>
     (pos + length (wal_encode r), pos + length (wal_encode r), records @ [r]))"

lemma readAll_loop_header:
  "readFull (wal_header r @ rest) 17 = Full (wal_header r) rest"
  using readFull_append [of "wal_header r" rest] by simp

lemma readAll_loop_record:
  assumes "wal_ok r"
  shows "readAll_loop (wal_encode r @ rest) pos ve recs =
    readAll_loop rest (pos + length (wal_encode r)) (pos + length (wal_encode r)) (recs @ [r])"
proof -
  note lens = wal_header_lengths [OF wal_ok_lengths [OF assms]]
  have body: "readFull (wal_body r @ rest) (length (wKey r) + length (wValue r) + 4) =
      Full (wal_body r) rest"
    using readFull_append [of "wal_body r" rest] by simp
  have crc: "getUint32 (drop (length (wKey r) + length (wValue r)) (wal_body r)) =
      crc32 (wal_header r @ take (length (wKey r) + length (wValue r)) (wal_body r))"
    by (simp add: wal_body_def)
  have fields: "take (length (wKey r)) (wal_body r) = wKey r"
    "take (length (wValue r)) (drop (length (wKey r)) (wal_body r)) = wValue r"
    by (simp_all add: wal_body_def)
  have rr: "\<lparr>wType = wType r, wSeqNum = wSeqNum r, wKey = wKey r, wValue = wValue r\<rparr> = r" by simp
  have "wType r = TypePut \<or> wType r = TypeDelete"
    "\<not> (maxKeyLen < length (wKey r) \<or> maxValLen < length (wValue r))"
    using assms by (auto simp: wal_ok_def)
  then show ?thesis
    by (subst readAll_loop.simps)
      (simp add: wal_encode_split readAll_loop_header lens body crc [symmetric] fields
        wal_header_fields(1,2) Let_def, auto simp: add_ac rr)
qed

interpretation wal: framed_log wal_encode wal_ok wal_scan wal_push
  by unfold_locales (auto simp: wal_scan_def wal_push_def readAll_loop_record)

lemma foldl_wal_push:
  "foldl wal_push (pos, pos, recs) rs =
     (pos + length (concat (map wal_encode rs)), pos + length (concat (map wal_encode rs)), recs @ rs)"
  by (induction rs arbitrary: pos recs) (simp_all add: wal_push_def)

lemma readAll_loop_Nil: "readAll_loop [] pos ve recs = Inr (recs, ve)"
  by (simp add: readAll_loop.simps readFull_def)

text \<open>Replay of a clean log followed by anything: the records, then whatever the tail gives.\<close>

lemma readAll_loop_records:
  assumes "\<forall>r \<in> set rs. wal_ok r"
  shows "readAll_loop (concat (map wal_encode rs) @ tail) 0 0 [] =
    readAll_loop tail (length (concat (map wal_encode rs))) (length (concat (map wal_encode rs))) rs"
  using wal.scan_frames [OF assms, of tail "(0, 0, [])"] foldl_wal_push [of 0 "[]" rs]
  by (simp add: wal_scan_def)

text \<open>A torn record, cut anywhere but right behind its header, is dropped.\<close>

lemma readAll_loop_torn:
  assumes "length (wKey r) < 2 ^ 32" "length (wValue r) < 2 ^ 32"
    and "n < length (wal_encode r)" "n \<noteq> 17"
  shows "readAll_loop (take n (wal_encode r)) pos ve recs = Inr (recs, ve)"
proof (cases "n < 17")
  case True
  then have "readFull (take n (wal_encode r)) 17 \<in> {EOF, UnexpectedEOF}"
    using assms(3) by (auto simp: readFull_def)
  then show ?thesis by (subst readAll_loop.simps) auto
next
  case False
  then have t: "take n (wal_encode r) = wal_header r @ take (n - 17) (wal_body r)"
    by (simp add: wal_encode_split)
  have "readFull (take (n - 17) (wal_body r)) (length (wKey r) + length (wValue r) + 4) = UnexpectedEOF"
    using assms(3,4) False by (auto simp: readFull_def wal_encode_length)
  then show ?thesis
    by (subst readAll_loop.simps)
      (simp add: t readAll_loop_header wal_header_lengths [OF assms(1,2)] Let_def)
qed

text \<open>Cut right behind its header, it makes the replay fail: \<open>io.ReadFull\<close> of the body then returns
  \<open>io.EOF\<close>, and only \<open>io.ErrUnexpectedEOF\<close> is taken for a torn record.\<close>

lemma readAll_loop_header_only:
  assumes "length (wKey r) \<le> maxKeyLen" "length (wValue r) \<le> maxValLen"
  shows "readAll_loop (take 17 (wal_encode r)) pos ve recs = Inl (Err ''wal read body'')"
proof -
  have l: "length (wKey r) < 2 ^ 32" "length (wValue r) < 2 ^ 32"
    using assms wal_len_bounds by simp_all
  have "take 17 (wal_encode r) = wal_header r @ []" by (simp add: wal_encode_split)
  moreover have "readFull [] (length (wKey r) + length (wValue r) + 4) = EOF"
    by (simp add: readFull_def)
  ultimately show ?thesis using assms
    by (subst readAll_loop.simps)
      (simp only: readAll_loop_header wal_header_lengths [OF l] Let_def read_outcome.case, simp)
qed

text \<open>A record over the replay limits hides itself and everything behind it.\<close>

lemma readAll_loop_oversized:
  assumes "length (wKey r) < 2 ^ 32" "length (wValue r) < 2 ^ 32"
    and "maxKeyLen < length (wKey r) \<or> maxValLen < length (wValue r)"
  shows "readAll_loop (wal_encode r @ rest) pos ve recs = Inr (recs, ve)"
  using assms(3)
  by (subst readAll_loop.simps)
    (simp add: wal_encode_split readAll_loop_header wal_header_lengths [OF assms(1,2)] Let_def)

section \<open>Correctness\<close>

lemma wal_ReadAll_healthy:
  assumes "healthy d" "dFiles d (wName w) = Some f" "readAll_loop f 0 0 [] = Inr (records, n)" "n \<le> length f"
  shows "wal_ReadAll d w = (put_file (wName w) (take n f) d, Inr (w\<lparr>wPos := n\<rparr>, records))"
  using assms by (simp add: wal_ReadAll_def content_def os_fine)

lemma wal_Append_healthy:
  assumes "healthy d" "dFiles d (wName w) = Some pre" "wPos w = length pre"
  shows "wal_Append d w r =
    (put_file (wName w) (pre @ wal_encode r) d, w\<lparr>wPos := length (pre @ wal_encode r)\<rparr>, Inr ())"
  using assms by (simp add: wal_Append_def os_fine content_def)

text \<open>
  C18: replay after a crash. When the log holds complete records followed by a prefix of one more, cut
  anywhere but right after its 17-byte header, \<open>ReadAll\<close> returns the complete records, truncates the
  torn tail and leaves the cursor at the end, where the next \<open>Append\<close> goes.
\<close>

theorem wal_replay_torn_tail:
  assumes "healthy d" "dFiles d (wName w) = Some (concat (map wal_encode rs) @ take n (wal_encode r))"
    and "\<forall>x \<in> set rs. wal_ok x" "wal_ok r" "n < length (wal_encode r)" "n \<noteq> 17"
  shows "wal_ReadAll d w =
    (put_file (wName w) (concat (map wal_encode rs)) d,
     Inr (w\<lparr>wPos := length (concat (map wal_encode rs))\<rparr>, rs))"
proof -
  have "readAll_loop (concat (map wal_encode rs) @ take n (wal_encode r)) 0 0 [] =
      Inr (rs, length (concat (map wal_encode rs)))"
    using readAll_loop_records [OF assms(3)] readAll_loop_torn [OF wal_ok_lengths [OF assms(4)] assms(5,6)]
    by simp
  from wal_ReadAll_healthy [OF assms(1,2) this] show ?thesis by simp
qed

definition wal_example :: WalRecord where
  "wal_example = \<lparr>wType = TypePut, wSeqNum = 9, wKey = [107], wValue = [118, 118]\<rparr>"

theorem wal_replay_torn_tail_witness:
  "wal_ReadAll (put_file ''wal'' (wal_encode wal_example @ take 20 (wal_encode wal_example)) empty_disk)
     \<lparr>wName = ''wal'', wPos = 0\<rparr> =
   (put_file ''wal'' (wal_encode wal_example) empty_disk,
    Inr (\<lparr>wName = ''wal'', wPos = 24\<rparr>, [wal_example]))"
proof -
  let ?d = "put_file ''wal'' (wal_encode wal_example @ take 20 (wal_encode wal_example)) empty_disk"
  let ?w = "\<lparr>wName = ''wal'', wPos = 0\<rparr>"
  have len: "length (wal_encode wal_example) = 24" by (simp add: wal_encode_length wal_example_def)
  have ok: "wal_ok wal_example" by (simp add: wal_ok_def wal_example_def maxKeyLen_def maxValLen_def)
  have "healthy ?d" by (simp add: healthy_def empty_disk_def)
  from wal_replay_torn_tail [OF this, of ?w "[wal_example]" 20 wal_example] show ?thesis
    using len ok by simp
qed

text \<open>
  C31: a log cut exactly after the 17-byte header of its last record is not replayed at all: reading the
  body meets end-of-file with nothing read, which \<open>ReadAll\<close> reports as an error although truncated
  trailing records are documented to be dropped.
\<close>

theorem wal_replay_header_only:
  assumes "dFiles d (wName w) = Some (concat (map wal_encode rs) @ take 17 (wal_encode r))"
    and "\<forall>x \<in> set rs. wal_ok x" "wal_ok r"
  shows "wal_ReadAll d w = (d, Inl (Err ''wal read body''))"
proof -
  have "length (wKey r) \<le> maxKeyLen" "length (wValue r) \<le> maxValLen" using assms(3) by (simp_all add: wal_ok_def)
  from readAll_loop_header_only [OF this] readAll_loop_records [OF assms(2)] assms(1)
  show ?thesis by (simp add: wal_ReadAll_def content_def)
qed

theorem wal_replay_header_only_witness:
  "wal_ReadAll (put_file ''wal'' (wal_encode wal_example @ take 17 (wal_encode wal_example)) empty_disk)
     \<lparr>wName = ''wal'', wPos = 0\<rparr> =
   (put_file ''wal'' (wal_encode wal_example @ take 17 (wal_encode wal_example)) empty_disk,
    Inl (Err ''wal read body''))"
proof -
  have ok: "wal_ok wal_example" by (simp add: wal_ok_def wal_example_def maxKeyLen_def maxValLen_def)
  from wal_replay_header_only [of _ "\<lparr>wName = ''wal'', wPos = 0\<rparr>" "[wal_example]" wal_example] ok
  show ?thesis by simp
qed

text \<open>
  C32: \<open>Append\<close> accepts any record, but replay stops at one whose key exceeds 16 KiB or whose value
  exceeds 64 MiB, and truncates it and every acknowledged record behind it.
\<close>

theorem wal_replay_oversized_lost:
  assumes "healthy d" "dFiles d (wName w) = Some (concat (map wal_encode rs) @ wal_encode r @ later)"
    and "\<forall>x \<in> set rs. wal_ok x" "length (wKey r) < 2 ^ 32" "length (wValue r) < 2 ^ 32"
    and "maxKeyLen < length (wKey r) \<or> maxValLen < length (wValue r)"
  shows "wal_ReadAll d w =
    (put_file (wName w) (concat (map wal_encode rs)) d,
     Inr (w\<lparr>wPos := length (concat (map wal_encode rs))\<rparr>, rs))"
proof -
  have "readAll_loop (concat (map wal_encode rs) @ wal_encode r @ later) 0 0 [] =
      Inr (rs, length (concat (map wal_encode rs)))"
    using readAll_loop_records [OF assms(3)] readAll_loop_oversized [OF assms(4-6)] by simp
  from wal_ReadAll_healthy [OF assms(1,2) this] show ?thesis by simp
qed

theorem wal_replay_oversized_lost_witness:
  "wal_ReadAll
     (put_file ''wal'' (wal_encode \<lparr>wType = TypePut, wSeqNum = 1, wKey = replicate 16385 0, wValue = []\<rparr> @
        wal_encode wal_example) empty_disk) \<lparr>wName = ''wal'', wPos = 0\<rparr> =
   (put_file ''wal'' [] empty_disk, Inr (\<lparr>wName = ''wal'', wPos = 0\<rparr>, []))"
proof -
  let ?r = "\<lparr>wType = TypePut, wSeqNum = 1, wKey = replicate 16385 0, wValue = []\<rparr>"
  let ?d = "put_file ''wal'' (wal_encode ?r @ wal_encode wal_example) empty_disk"
  have "healthy ?d" by (simp add: healthy_def empty_disk_def)
  from wal_replay_oversized_lost [OF this, of "\<lparr>wName = ''wal'', wPos = 0\<rparr>" "[]" ?r "wal_encode wal_example"]
  show ?thesis by (simp add: maxKeyLen_def)
qed

end
