(* ===== verification/Sstable.thy ===== *)
theory Sstable
  imports Memtable Bloom Disk
begin

text \<open>
  Package \<open>internal/sstable\<close>, the batch writer (\<open>writer.go\<close>) and the reader (\<open>reader.go\<close>). A table
  is one file: data records in key order, the smallest and largest key, the Bloom filter, the
  sparse index (every 16th record with its offset) and a 48-byte footer. File offsets are \<open>int64\<close>
  values: the reader converts the footer's 64-bit fields to signed ones, and subtracts them with
  wrap-around, as the Go conversions do. An open reader holds the content of its file, which is
  never modified once published.
\<close>

section \<open>Format\<close>

definition indexStep :: nat where
  "indexStep = 16"

definition footerSize :: nat where
  "footerSize = 48"

definition recordHeaderSize :: nat where
  "recordHeaderSize = 17"

text \<open>The decoded footer; the fields are the raw 64-bit values.\<close>

record sstFooter =
  ftMetaOffset :: u64
  ftBloomOffset :: u64
  ftBloomLen :: u64
  ftIndexOffset :: u64
  ftIndexLen :: u64
  ftRecordCount :: u64

record indexEntry =
  ieKey :: bytes
  ieOffset :: int

section \<open>Writer\<close>

definition record_bytes :: "Record \<Rightarrow> bytes" where
  "record_bytes r =
     putUint32 (word_of_nat (length (rKey r))) @ putUint32 (word_of_nat (length (rValue r))) @
     putUint64 (rSeqNum r) @ [rType r] @ rKey r @ rValue r"

definition record_size :: "Record \<Rightarrow> nat" where
  "record_size r = recordHeaderSize + length (rKey r) + length (rValue r)"

text \<open>The data loop's sparse index: record \<open>i\<close> at \<open>dataOffset\<close> is sampled when \<open>i % indexStep = 0\<close>.\<close>

fun sparse_index :: "nat \<Rightarrow> nat \<Rightarrow> Record list \<Rightarrow> indexEntry list" where
  "sparse_index i dataOffset [] = []"
| "sparse_index i dataOffset (r # rs) =
     (if i mod indexStep = 0 then [\<lparr>ieKey = rKey r, ieOffset = int dataOffset\<rparr>] else []) @
     sparse_index (i + 1) (dataOffset + record_size r) rs"

definition meta_bytes :: "bytes \<Rightarrow> bytes \<Rightarrow> bytes" where
  "meta_bytes mk mx =
     putUint32 (word_of_nat (length mk)) @ mk @ putUint32 (word_of_nat (length mx)) @ mx"

definition index_bytes :: "indexEntry \<Rightarrow> bytes" where
  "index_bytes e =
     putUint32 (word_of_nat (length (ieKey e))) @ ieKey e @ putUint64 (word_of_int (ieOffset e))"

definition footer_bytes :: "sstFooter \<Rightarrow> bytes" where
  "footer_bytes ft =
     putUint64 (ftMetaOffset ft) @ putUint64 (ftBloomOffset ft) @ putUint64 (ftBloomLen ft) @
     putUint64 (ftIndexOffset ft) @ putUint64 (ftIndexLen ft) @ putUint64 (ftRecordCount ft)"

definition layout_footer :: "nat \<Rightarrow> nat \<Rightarrow> nat \<Rightarrow> nat \<Rightarrow> nat \<Rightarrow> sstFooter" where
  "layout_footer dataLen metaLen bloomLen indexLen n =
     \<lparr>ftMetaOffset = word_of_nat dataLen,
      ftBloomOffset = word_of_nat (dataLen + metaLen),
      ftBloomLen = word_of_nat bloomLen,
      ftIndexOffset = word_of_nat (dataLen + metaLen + bloomLen),
      ftIndexLen = word_of_nat indexLen,
      ftRecordCount = word_of_nat n\<rparr>"

text \<open>The buffers of the successive \<open>f.Write\<close> calls of \<open>Write\<close>, in order.\<close>

definition table_chunks :: "BloomFilter \<Rightarrow> Record list \<Rightarrow> bytes list" where
  "table_chunks bf records =
     (let data = map record_bytes records;
          meta = meta_bytes (rKey (hd records)) (rKey (last records));
          bloomData = bloom_Encode bf;
          index = map index_bytes (sparse_index 0 0 records)
      in data @ [meta, bloomData] @ index @
         [footer_bytes (layout_footer (length (concat data)) (length meta) (length bloomData)
            (length (concat index)) (length records))])"

fun write_chunks :: "disk \<Rightarrow> string \<Rightarrow> nat \<Rightarrow> bytes list \<Rightarrow> disk \<times> nat \<times> unit result" where
  "write_chunks d f pos [] = (d, pos, Inr ())"
| "write_chunks d f pos (b # bs) =
     (case file_write d f pos b of
        (d, pos, Inl e) \<Rightarrow> (d, pos, Inl e)
      | (d, pos, Inr _) \<Rightarrow> write_chunks d f pos bs)"

definition sstable_Write :: "sizing \<Rightarrow> disk \<Rightarrow> string \<Rightarrow> Record list \<Rightarrow> disk \<times> unit result" where
  "sstable_Write sizing d path records =
     (if records = [] then (d, Inr ())
      else case os_create d path of
             (d, Inl e) \<Rightarrow> (d, Inl e)
           | (d, Inr _) \<Rightarrow>
               (case add_all (bloom_New sizing (int (length records))) (map rKey records) of
                  Inl e \<Rightarrow> (d, Inl e)
                | Inr bf \<Rightarrow>
                    (case write_chunks d path 0 (table_chunks bf records) of
                       (d, _, Inl e) \<Rightarrow> (d, Inl e)
                     | (d, _, Inr _) \<Rightarrow> os_sync d path)))"

section \<open>Reader\<close>

record Reader =
  rdPath :: string
  rdFile :: bytes
  rdBloom :: BloomFilter
  rdIndex :: "indexEntry list"
  minKey :: bytes
  maxKey :: bytes
  recordCount :: int
  metaOffset :: int
  bloomSkips :: nat

function decodeIndex_loop :: "bytes \<Rightarrow> indexEntry list \<Rightarrow> indexEntry list result" where
  "decodeIndex_loop rest es =
     (if rest = [] then Inr es
      else if length rest < 4 then Inl (Err ''truncated index entry'')
      else let keyLen = unat (getUint32 rest); rest = drop 4 rest
           in if length rest < keyLen + 8 then Inl (Err ''truncated index key'')
              else decodeIndex_loop (drop 8 (drop keyLen rest))
                (es @ [\<lparr>ieKey = take keyLen rest,
                             ieOffset = sint (getUint64 (drop keyLen rest))\<rparr>]))"
  by pat_completeness auto
termination
  by (relation "measure (\<lambda>(rest, _). length rest)") auto

declare decodeIndex_loop.simps [simp del]

definition decodeIndex :: "bytes \<Rightarrow> indexEntry list result" where
  "decodeIndex buf = decodeIndex_loop buf []"

definition decode_footer :: "bytes \<Rightarrow> sstFooter" where
  "decode_footer b =
     \<lparr>ftMetaOffset = getUint64 b, ftBloomOffset = getUint64 (drop 8 b),
      ftBloomLen = getUint64 (drop 16 b), ftIndexOffset = getUint64 (drop 24 b),
      ftIndexLen = getUint64 (drop 32 b), ftRecordCount = getUint64 (drop 40 b)\<rparr>"

text \<open>The metadata block. \<open>binary.BigEndian.Uint32\<close> panics on fewer than four bytes.\<close>

definition uint32_at :: "bytes \<Rightarrow> nat \<Rightarrow> nat result" where
  "uint32_at b i = rbind (slice b i (i + 4)) (\<lambda>w. Inr (unat (getUint32 w)))"

definition decode_meta :: "bytes \<Rightarrow> (bytes \<times> bytes) result" where
  "decode_meta metaBuf =
     rbind (uint32_at metaBuf 0) (\<lambda>minKeyLen.
     rbind (slice metaBuf 4 (4 + minKeyLen)) (\<lambda>mk.
     rbind (uint32_at metaBuf (4 + minKeyLen)) (\<lambda>maxKeyLen.
     rbind (slice metaBuf (4 + minKeyLen + 4) (4 + minKeyLen + 4 + maxKeyLen)) (\<lambda>mx.
     Inr (mk, mx)))))"

text \<open>\<open>make\<close> a buffer of \<open>n\<close> bytes and fill it from the file at \<open>off\<close>.\<close>

definition read_section :: "bytes \<Rightarrow> int \<Rightarrow> int \<Rightarrow> string \<Rightarrow> bytes result" where
  "read_section f off n msg =
     rbind (makeBytes n) (\<lambda>len. case readAt f off len of None \<Rightarrow> Inl (Err msg) | Some b \<Rightarrow> Inr b)"

definition open_content :: "string \<Rightarrow> bytes \<Rightarrow> Reader result" where
  "open_content path f =
     (if length f < footerSize then Inl (Err ''sstable is too small to be valid'')
      else
        let ft = decode_footer (drop (length f - footerSize) f) in
        rbind (read_section f (sint (ftMetaOffset ft)) (sint (ftBloomOffset ft - ftMetaOffset ft))
                 ''read metadata'') (\<lambda>metaBuf.
        rbind (decode_meta metaBuf) (\<lambda>(mk, mx).
        rbind (read_section f (sint (ftBloomOffset ft)) (sint (ftBloomLen ft)) ''read bloom'') (\<lambda>bloomBuf.
        rbind (bloom_Decode bloomBuf) (\<lambda>bf.
        rbind (if sint (ftIndexLen ft) > 0
               then rbind (read_section f (sint (ftIndexOffset ft)) (sint (ftIndexLen ft)) ''read index'')
                      decodeIndex
               else Inr []) (\<lambda>index.
        Inr \<lparr>rdPath = path, rdFile = f, rdBloom = bf, rdIndex = index, minKey = mk, maxKey = mx,
             recordCount = sint (ftRecordCount ft), metaOffset = sint (ftMetaOffset ft),
             bloomSkips = 0\<rparr>))))))"

definition sstable_Open :: "disk \<Rightarrow> string \<Rightarrow> Reader result" where
  "sstable_Open d path =
     (case dFiles d path of None \<Rightarrow> Inl (Err ''open sstable'') | Some f \<Rightarrow> open_content path f)"

definition readRecordAt :: "bytes \<Rightarrow> int \<Rightarrow> (Record \<times> int) result" where
  "readRecordAt f offset =
     (case readAt f offset recordHeaderSize of
        None \<Rightarrow> Inl (Err ''read record header'')
      | Some hdr \<Rightarrow>
          let keyLen = unat (getUint32 hdr);
              valLen = unat (getUint32 (drop 4 hdr));
              seqNum = getUint64 (drop 8 hdr);
              recType = hdr ! 16
          in case readAt f (offset + int recordHeaderSize) (keyLen + valLen) of
               None \<Rightarrow> Inl (Err ''read record body'')
             | Some body \<Rightarrow>
                 Inr (\<lparr>rKey = take keyLen body, rValue = take valLen (drop keyLen body),
                       rSeqNum = seqNum, rType = recType\<rparr>,
                      int (recordHeaderSize + keyLen + valLen)))"

lemma readRecordAt_size: "readRecordAt f off = Inr (r, n) \<Longrightarrow> 0 < n"
  by (auto simp: readRecordAt_def recordHeaderSize_def Let_def simp del: of_nat_unat
      split: option.splits)

text \<open>Where a lookup starts: the offset of the last index entry with a key not above \<open>key\<close>.\<close>

definition start_offset :: "indexEntry list \<Rightarrow> bytes \<Rightarrow> int" where
  "start_offset index key =
     (if index = [] then 0
      else let i = int (sort_Search (length index) (\<lambda>i. ieKey (index ! i) > key)) - 1
           in if i \<ge> 0 then ieOffset (index ! nat i) else 0)"

function get_loop :: "bytes \<Rightarrow> int \<Rightarrow> bytes \<Rightarrow> int \<Rightarrow> Record option \<Rightarrow> Record option result" where
  "get_loop f metaOff key pos best =
     (if pos < metaOff
      then case readRecordAt f pos of
             Inl e \<Rightarrow> Inl e
           | Inr (rec, n) \<Rightarrow>
               if rKey rec = key
               then get_loop f metaOff key (pos + n)
                      (case best of None \<Rightarrow> Some rec
                       | Some b \<Rightarrow> if rSeqNum rec > rSeqNum b then Some rec else best)
               else if rKey rec > key then Inr best
               else get_loop f metaOff key (pos + n) best
      else Inr best)"
  by pat_completeness auto
termination
  by (relation "measure (\<lambda>(f, metaOff, key, pos, best). nat (metaOff - pos))")
    (auto dest: readRecordAt_size)

declare get_loop.simps [simp del]

definition reader_Get :: "Reader \<Rightarrow> bytes \<Rightarrow> Reader \<times> Record option result" where
  "reader_Get r key =
     (case MayContain (rdBloom r) key of
        Inl e \<Rightarrow> (r, Inl e)
      | Inr may \<Rightarrow>
          if \<not> may then (r\<lparr>bloomSkips := bloomSkips r + 1\<rparr>, Inr None)
          else if key < minKey r \<or> key > maxKey r then (r, Inr None)
          else (r, get_loop (rdFile r) (metaOffset r) key (start_offset (rdIndex r) key) None))"

function scan_loop ::
  "bytes \<Rightarrow> int \<Rightarrow> bytes \<Rightarrow> bytes \<Rightarrow> int \<Rightarrow> (bytes \<times> Record) list \<Rightarrow> (bytes \<times> Record) list result" where
  "scan_loop f metaOff from to pos byKey =
     (if pos < metaOff
      then case readRecordAt f pos of
             Inl e \<Rightarrow> Inl e
           | Inr (rec, n) \<Rightarrow>
               if rKey rec > to then Inr byKey
               else if rKey rec < from then scan_loop f metaOff from to (pos + n) byKey
               else scan_loop f metaOff from to (pos + n) (keep_newest byKey rec)
      else Inr byKey)"
  by pat_completeness auto
termination
  by (relation "measure (\<lambda>(f, metaOff, from, to, pos, byKey). nat (metaOff - pos))")
    (auto dest: readRecordAt_size)

declare scan_loop.simps [simp del]

definition reader_Scan :: "Reader \<Rightarrow> bytes \<Rightarrow> bytes \<Rightarrow> Record list result" where
  "reader_Scan r from to =
     (if to < minKey r \<or> from > maxKey r then Inr []
      else rbind (scan_loop (rdFile r) (metaOffset r) from to (start_offset (rdIndex r) from) [])
             (\<lambda>byKey. Inr (sort_key rKey (map snd byKey))))"

function load_loop :: "bytes \<Rightarrow> int \<Rightarrow> int \<Rightarrow> Record list \<Rightarrow> Record list result" where
  "load_loop f metaOff pos records =
     (if pos < metaOff
      then case readRecordAt f pos of
             Inl e \<Rightarrow> Inl e
           | Inr (rec, n) \<Rightarrow> load_loop f metaOff (pos + n) (records @ [rec])
      else Inr records)"
  by pat_completeness auto
termination
  by (relation "measure (\<lambda>(f, metaOff, pos, records). nat (metaOff - pos))")
    (auto dest: readRecordAt_size)

declare load_loop.simps [simp del]

text \<open>\<open>make([]memtable.Record, 0, r.recordCount)\<close> panics on a negative capacity and on one whose
  records (56 bytes each: two headers of 16 and 24 bytes, two words) exceed the address limit.\<close>

definition reader_LoadAll :: "Reader \<Rightarrow> Record list result" where
  "reader_LoadAll r =
     (if recordCount r < 0 \<or> recordCount r * 56 > maxAlloc then Inl Panic
      else load_loop (rdFile r) (metaOffset r) 0 [])"

text \<open>The iterator is a reader and a position.\<close>

type_synonym Iterator = "Reader \<times> int"

definition reader_Iterator :: "Reader \<Rightarrow> Iterator" where
  "reader_Iterator r = (r, 0)"

definition iterator_Next :: "Iterator \<Rightarrow> Iterator \<times> Record option result" where
  "iterator_Next it =
     (case it of (r, pos) \<Rightarrow>
        if pos \<ge> metaOffset r then (it, Inr None)
        else case readRecordAt (rdFile r) pos of
               Inl e \<Rightarrow> (it, Inl e)
             | Inr (rec, n) \<Rightarrow> ((r, pos + n), Inr (Some rec)))"

section \<open>Reading the data section\<close>

definition fits :: "Record \<Rightarrow> bool" where
  "fits r \<longleftrightarrow> length (rKey r) < 2 ^ 32 \<and> length (rValue r) < 2 ^ 32"

definition data_bytes :: "Record list \<Rightarrow> bytes" where
  "data_bytes rs = concat (map record_bytes rs)"

definition off_of :: "Record list \<Rightarrow> nat \<Rightarrow> nat" where
  "off_of rs i = length (data_bytes (take i rs))"

lemma length_record_bytes [simp]: "length (record_bytes r) = record_size r"
  by (simp add: record_bytes_def record_size_def recordHeaderSize_def)

lemma record_size_pos [simp]: "0 < record_size r"
  by (simp add: record_size_def recordHeaderSize_def)

lemma data_bytes_simps [simp]:
  "data_bytes [] = []" "data_bytes (r # rs) = record_bytes r @ data_bytes rs"
  "data_bytes (xs @ ys) = data_bytes xs @ data_bytes ys"
  by (simp_all add: data_bytes_def)

lemma off_of_simps [simp]:
  "off_of rs 0 = 0" "off_of (r # rs) (Suc i) = record_size r + off_of rs i"
  by (simp_all add: off_of_def)

lemma off_of_length: "length rs \<le> i \<Longrightarrow> off_of rs i = length (data_bytes rs)"
  by (simp add: off_of_def)

lemma off_of_Suc: "i < length rs \<Longrightarrow> off_of rs (Suc i) = off_of rs i + record_size (rs ! i)"
  by (simp add: off_of_def take_Suc_conv_app_nth)

lemma off_of_less: "i < length rs \<Longrightarrow> off_of rs i < length (data_bytes rs)"
proof -
  assume i: "i < length rs"
  have "data_bytes rs = data_bytes (take i rs @ rs ! i # drop (Suc i) rs)"
    using i by (simp add: id_take_nth_drop [symmetric])
  then show ?thesis by (simp add: off_of_def)
qed

lemma readRecordAt_record:
  assumes "fits r"
  shows "readRecordAt (a @ record_bytes r @ b) (int (length a)) = Inr (r, int (record_size r))"
proof -
  define hdr where "hdr = putUint32 (word_of_nat (length (rKey r))) @
    putUint32 (word_of_nat (length (rValue r))) @ putUint64 (rSeqNum r) @ [rType r]"
  have rb: "record_bytes r = hdr @ (rKey r @ rValue r)" by (simp add: hdr_def record_bytes_def)
  have len: "length hdr = 17" by (simp add: hdr_def)
  have flds: "unat (getUint32 hdr) = length (rKey r)"
    "unat (getUint32 (drop 4 hdr)) = length (rValue r)"
    "getUint64 (drop 8 hdr) = rSeqNum r" "hdr ! 16 = rType r"
    using assms by (simp_all add: hdr_def fits_def unat_of_nat_u32 nth_append)
  have h: "readAt (a @ record_bytes r @ b) (int (length a)) 17 = Some hdr"
    using readAt_append [of "int (length a)" a 17 hdr "rKey r @ rValue r @ b"] len
    by (simp add: rb)
  have b: "readAt (a @ record_bytes r @ b) (int (length a) + 17) (length (rKey r) + length (rValue r))
      = Some (rKey r @ rValue r)"
    using readAt_append [of "int (length (a @ hdr))" "a @ hdr" _ "rKey r @ rValue r" b] len
    by (simp add: rb)
  have eta: "\<lparr>rKey = rKey r, rValue = rValue r, rSeqNum = rSeqNum r, rType = rType r\<rparr> = r" by simp
  show ?thesis
    by (simp add: readRecordAt_def recordHeaderSize_def h flds b record_size_def eta Let_def
        del: of_nat_unat)
qed

text \<open>Record \<open>i\<close> of a data section is read at its offset, whatever follows the section.\<close>

lemma readRecordAt_nth:
  assumes "\<forall>r \<in> set rs. fits r" "i < length rs"
  shows "readRecordAt (data_bytes rs @ tail) (int (off_of rs i)) = Inr (rs ! i, int (record_size (rs ! i)))"
proof -
  have "data_bytes rs = data_bytes (take i rs @ rs ! i # drop (Suc i) rs)"
    using assms(2) by (simp add: id_take_nth_drop [symmetric])
  then have "data_bytes rs @ tail =
      data_bytes (take i rs) @ record_bytes (rs ! i) @ (data_bytes (drop (Suc i) rs) @ tail)"
    by simp
  with readRecordAt_record [of "rs ! i" "data_bytes (take i rs)" "data_bytes (drop (Suc i) rs) @ tail"] assms
  show ?thesis by (simp add: off_of_def)
qed

text \<open>The loops over the data section, one record at a time.\<close>

lemma section_step:
  assumes "\<forall>r \<in> set rs. fits r" "i < length rs" "f = data_bytes rs @ tail"
  shows "off_of rs i < length (data_bytes rs)"
    "readRecordAt f (int (off_of rs i)) = Inr (rs ! i, int (record_size (rs ! i)))"
    "int (off_of rs i) + int (record_size (rs ! i)) = int (off_of rs (Suc i))"
  using assms by (simp_all add: off_of_less off_of_Suc readRecordAt_nth)

lemma loop_steps:
  assumes "\<forall>r \<in> set rs. fits r" "i < length rs" "f = data_bytes rs @ tail"
  shows "get_loop f (int (length (data_bytes rs))) key (int (off_of rs i)) best =
      (if rKey (rs ! i) = key
       then get_loop f (int (length (data_bytes rs))) key (int (off_of rs (Suc i)))
              (case best of None \<Rightarrow> Some (rs ! i)
               | Some b \<Rightarrow> if rSeqNum (rs ! i) > rSeqNum b then Some (rs ! i) else best)
       else if rKey (rs ! i) > key then Inr best
       else get_loop f (int (length (data_bytes rs))) key (int (off_of rs (Suc i))) best)"
    and "scan_loop f (int (length (data_bytes rs))) from to (int (off_of rs i)) byKey =
      (if rKey (rs ! i) > to then Inr byKey
       else if rKey (rs ! i) < from
       then scan_loop f (int (length (data_bytes rs))) from to (int (off_of rs (Suc i))) byKey
       else scan_loop f (int (length (data_bytes rs))) from to (int (off_of rs (Suc i)))
              (keep_newest byKey (rs ! i)))"
    and "load_loop f (int (length (data_bytes rs))) (int (off_of rs i)) acc =
      load_loop f (int (length (data_bytes rs))) (int (off_of rs (Suc i))) (acc @ [rs ! i])"
  by (subst get_loop.simps scan_loop.simps load_loop.simps, simp add: section_step [OF assms])+

lemma get_loop_run:
  assumes "\<forall>r \<in> set rs. fits r" "sorted_run rs" "i \<le> length rs" "f = data_bytes rs @ tail"
    and "best \<noteq> None \<Longrightarrow> \<forall>r \<in> set (drop i rs). key < rKey r"
  shows "get_loop f (int (length (data_bytes rs))) key (int (off_of rs i)) best =
    Inr (case run_lookup (drop i rs) key of None \<Rightarrow> best | Some r \<Rightarrow> Some r)"
  using assms(3,5)
proof (induction "length rs - i" arbitrary: i best)
  case 0
  then show ?case by (simp add: get_loop.simps off_of_length run_lookup_def)
next
  case (Suc n)
  then have i: "i < length rs" by simp
  then have d: "drop i rs = rs ! i # drop (Suc i) rs" by (simp add: Cons_nth_drop_Suc)
  have gt: "\<forall>r \<in> set (drop (Suc i) rs). rKey (rs ! i) < rKey r"
    using sorted_run_drop [OF assms(2), of i] d by (simp add: sorted_run_Cons)
  note st = loop_steps [OF assms(1) i assms(4)]
  note IH = Suc.hyps(1) [of "Suc i"]
  consider "rKey (rs ! i) = key" | "rKey (rs ! i) > key" | "rKey (rs ! i) < key" by fastforce
  then show ?case
  proof cases
    case 1
    then have none: "best = None" using Suc.prems(2) d by fastforce
    have "run_lookup (drop (Suc i) rs) key = None" using gt 1 by (auto simp: run_lookup_None_iff)
    then show ?thesis using IH [of "Some (rs ! i)"] Suc.hyps(2) i gt 1 none
      by (simp add: st d run_lookup_def)
  next
    case 2
    then have "run_lookup (drop i rs) key = None" using gt d by (auto simp: run_lookup_None_iff)
    with 2 show ?thesis by (auto simp: st)
  next
    case 3
    have "best \<noteq> None \<Longrightarrow> False" using Suc.prems(2) d 3 by fastforce
    then have "best = None" by blast
    with IH [of None] Suc.hyps(2) i 3 less_not_sym [OF 3] less_imp_neq [OF 3] show ?thesis
      by (simp add: st d run_lookup_def split: option.split)
  qed
qed

lemma scan_loop_run:
  assumes "\<forall>r \<in> set rs. fits r" "sorted_run rs" "i \<le> length rs" "f = data_bytes rs @ tail"
  shows "scan_loop f (int (length (data_bytes rs))) from to (int (off_of rs i)) byKey =
    Inr (foldl keep_newest byKey (filter (\<lambda>r. from \<le> rKey r \<and> rKey r \<le> to) (drop i rs)))"
  using assms(3)
proof (induction "length rs - i" arbitrary: i byKey)
  case 0
  then show ?case by (simp add: scan_loop.simps off_of_length)
next
  case (Suc n)
  then have i: "i < length rs" by simp
  then have d: "drop i rs = rs ! i # drop (Suc i) rs" by (simp add: Cons_nth_drop_Suc)
  have gt: "\<forall>r \<in> set (drop (Suc i) rs). rKey (rs ! i) < rKey r"
    using sorted_run_drop [OF assms(2), of i] d by (simp add: sorted_run_Cons)
  note st = loop_steps [OF assms(1) i assms(4)]
  show ?case
  proof (cases "rKey (rs ! i) > to")
    case True
    then have "filter (\<lambda>r. from \<le> rKey r \<and> rKey r \<le> to) (drop i rs) = []"
      using gt d by (auto simp: filter_empty_conv)
    with True show ?thesis by (simp add: st)
  next
    case False
    then show ?thesis using Suc.hyps(1) [of "Suc i"] Suc.hyps(2) i
      by (auto simp: st d)
  qed
qed

lemma load_loop_run:
  assumes "\<forall>r \<in> set rs. fits r" "i \<le> length rs" "f = data_bytes rs @ tail"
  shows "load_loop f (int (length (data_bytes rs))) (int (off_of rs i)) acc = Inr (acc @ drop i rs)"
  using assms(2)
proof (induction "length rs - i" arbitrary: i acc)
  case 0
  then show ?case by (simp add: load_loop.simps off_of_length)
next
  case (Suc n)
  then have i: "i < length rs" by simp
  then have d: "drop i rs = rs ! i # drop (Suc i) rs" by (simp add: Cons_nth_drop_Suc)
  show ?case using Suc.hyps(1) [of "Suc i"] Suc.hyps(2) i
    by (simp add: loop_steps(3) [OF assms(1) i assms(3)] d)
qed

section \<open>The sparse index\<close>

definition index_ok :: "indexEntry \<Rightarrow> bool" where
  "index_ok e \<longleftrightarrow> length (ieKey e) < 2 ^ 32 \<and> 0 \<le> ieOffset e \<and> ieOffset e < 2 ^ 63"

lemma decodeIndex_entry:
  assumes "index_ok e"
  shows "decodeIndex_loop (index_bytes e @ rest) es = decodeIndex_loop rest (es @ [e])"
proof -
  have "unat (word_of_nat (length (ieKey e)) :: u32) = length (ieKey e)"
    using assms by (simp add: index_ok_def unat_of_nat_u32)
  moreover have "sint (word_of_int (ieOffset e) :: u64) = ieOffset e"
    using assms by (intro sint_of_int_u64) (simp_all add: index_ok_def)
  moreover have eta: "\<lparr>ieKey = ieKey e, ieOffset = ieOffset e\<rparr> = e" by simp
  ultimately show ?thesis
    by (subst decodeIndex_loop.simps) (simp add: index_bytes_def Let_def eta)
qed

interpretation idx: framed_log index_bytes index_ok decodeIndex_loop "\<lambda>es e. es @ [e]"
  by unfold_locales (rule decodeIndex_entry)

lemma foldl_snoc [simp]: "foldl (\<lambda>xs x. xs @ [x]) xs ys = xs @ ys"
  by (induction ys arbitrary: xs) auto

lemma decodeIndex_entries: "\<forall>e \<in> set es. index_ok e \<Longrightarrow> decodeIndex (concat (map index_bytes es)) = Inr es"
  using idx.scan_all [of es "[]"] by (simp add: decodeIndex_def decodeIndex_loop.simps [of "[]"])

lemma sparse_index_sound:
  "e \<in> set (sparse_index i d rs) \<Longrightarrow>
    \<exists>m < length rs. ieKey e = rKey (rs ! m) \<and> ieOffset e = int (d + off_of rs m)"
proof (induction i d rs rule: sparse_index.induct)
  case (1 i d)
  then show ?case by simp
next
  case (2 i d r rs)
  show ?case
  proof (cases "e \<in> set (sparse_index (i + 1) (d + record_size r) rs)")
    case True
    with "2.IH" obtain m where "m < length rs" "ieKey e = rKey (rs ! m)"
      "ieOffset e = int (d + record_size r + off_of rs m)" by blast
    then show ?thesis by (intro exI [of _ "Suc m"]) simp
  next
    case False
    with "2.prems" have "e = \<lparr>ieKey = rKey r, ieOffset = int d\<rparr>" by (simp split: if_splits)
    then show ?thesis by (intro exI [of _ 0]) simp
  qed
qed

lemma sparse_index_keys: "e \<in> set (sparse_index i d rs) \<Longrightarrow> ieKey e \<in> rKey ` set rs"
  using sparse_index_sound by fastforce

lemma sparse_index_sorted: "sorted_run rs \<Longrightarrow> sorted_wrt (<) (map ieKey (sparse_index i d rs))"
  by (induction i d rs rule: sparse_index.induct)
    (auto simp: sorted_run_Cons dest!: sparse_index_keys)

lemma monotone_index_gt:
  assumes "sorted_wrt (<) (map ieKey es)"
  shows "monotone_below (length es) (\<lambda>i. ieKey (es ! i) > key)"
  unfolding monotone_below_def
proof (intro allI impI)
  fix k l assume "k \<le> l" "l < length es" "key < ieKey (es ! k)"
  then show "key < ieKey (es ! l)"
    using sorted_wrt_nth_less [OF assms, of k l] by (cases "k = l") auto
qed

text \<open>A lookup starts at a record boundary, with only smaller keys before it.\<close>

lemma start_offset_run:
  assumes "sorted_run rs"
  shows "\<exists>m \<le> length rs. start_offset (sparse_index 0 0 rs) key = int (off_of rs m) \<and>
    (\<forall>r \<in> set (take m rs). rKey r < key)"
proof -
  define es where "es = sparse_index 0 0 rs"
  define i where "i = sort_Search (length es) (\<lambda>i. ieKey (es ! i) > key)"
  note mono = monotone_index_gt [OF sparse_index_sorted [OF assms, of 0 0], of key]
  note spec = sort_Search_spec [OF mono, folded es_def, folded i_def]
  show ?thesis
  proof (cases "i = 0 \<or> es = []")
    case True
    then have "start_offset es key = 0" by (auto simp: start_offset_def Let_def simp flip: i_def)
    then show ?thesis by (intro exI [of _ 0]) (simp add: es_def)
  next
    case False
    then have le: "\<not> key < ieKey (es ! (i - 1))" "i - 1 < length es" using spec(1) spec(2) [of "i - 1"] by auto
    have "start_offset es key = ieOffset (es ! (i - 1))"
      using False by (auto simp: start_offset_def Let_def nat_diff_distrib simp flip: i_def)
    moreover obtain m where m: "m < length rs" "ieKey (es ! (i - 1)) = rKey (rs ! m)"
      "ieOffset (es ! (i - 1)) = int (off_of rs m)"
      using sparse_index_sound [of "es ! (i - 1)" 0 0 rs] le(2) by (auto simp: es_def)
    moreover have "rKey r < key" if "r \<in> set (take m rs)" for r
    proof -
      from that obtain j where "j < m" "r = rs ! j" by (auto simp: in_set_conv_nth)
      with sorted_run_key_less [OF assms, of j m] m le show ?thesis by auto
    qed
    ultimately show ?thesis by (intro exI [of _ m]) (auto simp: es_def)
  qed
qed

section \<open>Written tables\<close>

text \<open>
  \<open>table_ok bf rs\<close>: what a caller of \<open>Write\<close> provides (sorted records whose lengths fit their
  32-bit fields) and a file of at most \<open>2 ^ 46\<close> bytes, so that no offset overflows and neither a section
  nor the slice of all records passes the allocation limit.
\<close>

definition table_ok :: "BloomFilter \<Rightarrow> Record list \<Rightarrow> bool" where
  "table_ok bf rs \<longleftrightarrow> rs \<noteq> [] \<and> sorted_run rs \<and> (\<forall>r \<in> set rs. fits r) \<and> bf_wf bf \<and>
     length (concat (table_chunks bf rs)) \<le> 2 ^ 46"

definition table_reader :: "string \<Rightarrow> BloomFilter \<Rightarrow> Record list \<Rightarrow> Reader" where
  "table_reader path bf rs =
     \<lparr>rdPath = path, rdFile = concat (table_chunks bf rs), rdBloom = bf,
      rdIndex = sparse_index 0 0 rs, minKey = rKey (hd rs), maxKey = rKey (last rs),
      recordCount = int (length rs), metaOffset = int (length (data_bytes rs)), bloomSkips = 0\<rparr>"

definition index_section :: "Record list \<Rightarrow> bytes" where
  "index_section rs = concat (map index_bytes (sparse_index 0 0 rs))"

definition table_meta :: "Record list \<Rightarrow> bytes" where
  "table_meta rs = meta_bytes (rKey (hd rs)) (rKey (last rs))"

definition table_footer :: "BloomFilter \<Rightarrow> Record list \<Rightarrow> sstFooter" where
  "table_footer bf rs = layout_footer (length (data_bytes rs)) (length (table_meta rs))
     (length (bloom_Encode bf)) (length (index_section rs)) (length rs)"

lemma table_sections:
  "concat (table_chunks bf rs) =
     data_bytes rs @ table_meta rs @ bloom_Encode bf @ index_section rs @ footer_bytes (table_footer bf rs)"
  by (simp add: table_chunks_def Let_def data_bytes_def table_meta_def index_section_def table_footer_def)

lemma length_footer_bytes [simp]: "length (footer_bytes ft) = 48"
  by (simp add: footer_bytes_def)

lemma decode_footer_bytes [simp]: "decode_footer (footer_bytes ft) = ft"
  by (simp add: decode_footer_def footer_bytes_def)

lemma decode_meta_bytes:
  assumes "length mk < 2 ^ 32" "length mx < 2 ^ 32"
  shows "decode_meta (meta_bytes mk mx) = Inr (mk, mx)"
proof -
  have "unat (word_of_nat (length mk) :: u32) = length mk" "unat (word_of_nat (length mx) :: u32) = length mx"
    using assms by (simp_all add: unat_of_nat_u32)
  then show ?thesis
    by (simp add: decode_meta_def meta_bytes_def uint32_at_def slice_def)
qed

lemma read_section_append:
  assumes "off = int (length a)" "n = int (length b)" "length b \<le> 2 ^ 48"
  shows "read_section (a @ b @ c) off n msg = Inr b"
  using assms readAt_append [of off a "length b" b c]
  by (simp add: read_section_def makeBytes_def maxAlloc_def)

lemma record_count_bound: "17 * length rs \<le> length (data_bytes rs)"
  by (induction rs) (auto simp: record_size_def recordHeaderSize_def)

lemma index_entries_ok:
  assumes "\<forall>r \<in> set rs. fits r" "length (data_bytes rs) < 2 ^ 63" "e \<in> set (sparse_index 0 0 rs)"
  shows "index_ok e"
proof -
  from sparse_index_sound [OF assms(3)] obtain m where
    m: "m < length rs" "ieKey e = rKey (rs ! m)" "ieOffset e = int (off_of rs m)" by auto
  with off_of_less [OF m(1)] assms(1,2) show ?thesis by (auto simp: index_ok_def fits_def)
qed

lemma index_section_not_Nil: "rs \<noteq> [] \<Longrightarrow> index_section rs \<noteq> []"
  by (cases rs) (simp_all add: index_section_def index_bytes_def)

lemma open_written:
  assumes "table_ok bf rs"
  shows "open_content path (concat (table_chunks bf rs)) = Inr (table_reader path bf rs)"
proof -
  define ft where "ft = table_footer bf rs"
  define f where "f = concat (table_chunks bf rs)"
  let ?d = "data_bytes rs" and ?m = "table_meta rs" and ?b = "bloom_Encode bf" and ?i = "index_section rs"
  have f: "f = ?d @ ?m @ ?b @ ?i @ footer_bytes ft" by (simp add: f_def ft_def table_sections)
  have ok: "rs \<noteq> []" "\<forall>r \<in> set rs. fits r" "bf_wf bf" "length f \<le> 2 ^ 46"
    using assms by (simp_all add: table_ok_def f_def)
  have bound: "length ?d + length ?m + length ?b + length ?i + 48 \<le> 2 ^ 48"
    using ok(4) by (simp add: f del: bloom_Encode_length)
  have ft': "ft = layout_footer (length ?d) (length ?m) (length ?b) (length ?i) (length rs)"
    by (simp add: ft_def table_footer_def)
  have diff: "ftBloomOffset ft - ftMetaOffset ft = word_of_nat (length ?m)"
    by (simp add: ft' layout_footer_def)
  have offs: "sint (ftMetaOffset ft) = int (length ?d)"
    "sint (ftBloomOffset ft) = int (length (?d @ ?m))" "sint (ftBloomLen ft) = int (length ?b)"
    "sint (ftIndexOffset ft) = int (length (?d @ ?m @ ?b))" "sint (ftIndexLen ft) = int (length ?i)"
    "sint (ftRecordCount ft) = int (length rs)"
    using bound record_count_bound [of rs]
    by (simp_all add: ft' layout_footer_def sint_of_nat_u64 del: bloom_Encode_length of_nat_add
        flip: of_nat_add)
  have metaLen: "sint (ftBloomOffset ft - ftMetaOffset ft) = int (length ?m)"
    unfolding diff using bound by (intro sint_of_nat_u64) simp
  have "fits (hd rs)" "fits (last rs)" using ok(1,2) by simp_all
  then have meta: "decode_meta ?m = Inr (rKey (hd rs), rKey (last rs))"
    by (simp add: table_meta_def decode_meta_bytes fits_def)
  have index: "decodeIndex ?i = Inr (sparse_index 0 0 rs)"
    unfolding index_section_def
    by (rule decodeIndex_entries) (use index_entries_ok [OF ok(2)] bound in auto)
  have secs: "read_section f (int (length ?d)) (int (length ?m)) msg = Inr ?m"
    "read_section f (int (length (?d @ ?m))) (int (length ?b)) msg = Inr ?b"
    "read_section f (int (length (?d @ ?m @ ?b))) (int (length ?i)) msg = Inr ?i" for msg
    using bound read_section_append [of _ "?d" _ "?m" "?b @ ?i @ footer_bytes ft"]
      read_section_append [of _ "?d @ ?m" _ "?b" "?i @ footer_bytes ft"]
      read_section_append [of _ "?d @ ?m @ ?b" _ "?i" "footer_bytes ft"]
    by (simp_all add: f del: bloom_Encode_length)
  have foot: "drop (length f - footerSize) f = footer_bytes ft" "footerSize \<le> length f"
    by (simp_all add: f footerSize_def)
  show ?thesis
    using foot(2) index_section_not_Nil [OF ok(1)]
    by (simp add: open_content_def foot(1) offs metaLen secs meta bloom_Decode_Encode [OF ok(3)] index Let_def
        table_reader_def f_def [symmetric] del: length_append bloom_Encode_length)
qed

text \<open>What a reader of a written table answers, and that counters are all it changes.\<close>

definition reads_table :: "Reader \<Rightarrow> Record list \<Rightarrow> bool" where
  "reads_table r rs \<longleftrightarrow>
     (\<exists>path bf skips. r = table_reader path bf rs\<lparr>bloomSkips := skips\<rparr> \<and> table_ok bf rs \<and>
        (\<forall>x \<in> set rs. MayContain bf (rKey x) = Inr True))"

lemma run_lookup_drop:
  "\<forall>r \<in> set (take m rs). rKey r < key \<Longrightarrow> run_lookup (drop m rs) key = run_lookup rs key"
proof (induction rs arbitrary: m)
  case (Cons r rs)
  then show ?case by (cases m) (auto simp: run_lookup_def)
qed simp

lemma filter_range_drop:
  "\<forall>r \<in> set (take m rs). rKey r < from \<Longrightarrow>
    filter (\<lambda>r. from \<le> rKey r \<and> rKey r \<le> to) (drop m rs) = filter (\<lambda>r. from \<le> rKey r \<and> rKey r \<le> to) rs"
proof (induction rs arbitrary: m)
  case (Cons r rs)
  then show ?case by (cases m) auto
qed simp

lemma sorted_run_bounds:
  assumes "sorted_run rs" "x \<in> set rs"
  shows "rKey (hd rs) \<le> rKey x" "rKey x \<le> rKey (last rs)"
proof -
  show "rKey (hd rs) \<le> rKey x" using assms by (cases rs) (auto simp: sorted_run_Cons less_imp_le)
  show "rKey x \<le> rKey (last rs)"
    using assms by (cases rs rule: rev_cases) (auto simp: sorted_run_append less_imp_le)
qed

lemma run_lookup_outside:
  assumes "sorted_run rs" "key < rKey (hd rs) \<or> key > rKey (last rs)"
  shows "run_lookup rs key = None"
  using assms sorted_run_bounds by (fastforce simp: run_lookup_None_iff)

lemma foldl_keep_newest_run:
  assumes "sorted_run rs" "\<forall>x \<in> set (map fst bk). \<forall>r \<in> set rs. x \<noteq> rKey r"
  shows "foldl keep_newest bk rs = bk @ map (\<lambda>r. (rKey r, r)) rs"
  using assms
proof (induction rs arbitrary: bk)
  case (Cons r rs)
  then have "map_of bk (rKey r) = None" by (auto simp: map_of_eq_None_iff)
  moreover from this have "AList.update (rKey r) r bk = bk @ [(rKey r, r)]"
    by (induction bk) (auto split: if_splits)
  ultimately have "keep_newest bk r = bk @ [(rKey r, r)]" by (simp add: keep_newest_def)
  moreover have "foldl keep_newest (bk @ [(rKey r, r)]) rs = (bk @ [(rKey r, r)]) @ map (\<lambda>r. (rKey r, r)) rs"
    by (rule Cons.IH) (use Cons.prems in \<open>auto simp: sorted_run_Cons\<close>)
  ultimately show ?case by simp
qed simp

lemma sort_key_sorted_run: "sorted_run rs \<Longrightarrow> sort_key rKey rs = rs"
  by (induction rs) (auto simp: sorted_run_Cons insort_is_Cons less_imp_le)

lemma reads_table_Get:
  assumes "reads_table r rs"
  shows "snd (reader_Get r key) = Inr (run_lookup rs key)"
    and "reads_table (fst (reader_Get r key)) rs"
proof -
  from assms obtain path bf skips where
    r: "r = table_reader path bf rs\<lparr>bloomSkips := skips\<rparr>" and ok: "table_ok bf rs"
    and may: "\<forall>x \<in> set rs. MayContain bf (rKey x) = Inr True" by (auto simp: reads_table_def)
  have fields: "rdBloom r = bf" "minKey r = rKey (hd rs)" "maxKey r = rKey (last rs)"
    "rdIndex r = sparse_index 0 0 rs" "metaOffset r = int (length (data_bytes rs))"
    "rdFile r = data_bytes rs @ table_meta rs @ bloom_Encode bf @ index_section rs @
       footer_bytes (table_footer bf rs)"
    by (simp_all add: r table_reader_def table_sections)
  have run: "sorted_run rs" "\<forall>x \<in> set rs. fits x" "bf_wf bf" using ok by (simp_all add: table_ok_def)
  from start_offset_run [OF run(1)] obtain m where
    m: "m \<le> length rs" "start_offset (sparse_index 0 0 rs) key = int (off_of rs m)"
    "\<forall>x \<in> set (take m rs). rKey x < key" by blast
  have loop: "get_loop (rdFile r) (metaOffset r) key (start_offset (rdIndex r) key) None =
      Inr (run_lookup rs key)"
    unfolding fields m(2)
    by (subst get_loop_run [OF run(2,1) m(1) refl])
      (simp_all add: run_lookup_drop [OF m(3)] split: option.split)
  obtain b where b: "MayContain bf key = Inr b" using MayContain_total [OF run(3)] by blast
  have "\<not> b \<Longrightarrow> run_lookup rs key = None" using may b by (auto simp: run_lookup_None_iff)
  then show "snd (reader_Get r key) = Inr (run_lookup rs key)"
    using run_lookup_outside [OF run(1)] by (auto simp: reader_Get_def fields(1-3) b loop)
  have "fst (reader_Get r key) = r \<or> fst (reader_Get r key) = r\<lparr>bloomSkips := bloomSkips r + 1\<rparr>"
    by (simp add: reader_Get_def split: sum.split)
  then show "reads_table (fst (reader_Get r key)) rs"
    using ok may unfolding reads_table_def r by fastforce
qed

lemma reads_table_Scan:
  assumes "reads_table r rs"
  shows "reader_Scan r from to = Inr (filter (\<lambda>x. from \<le> rKey x \<and> rKey x \<le> to) rs)"
proof -
  let ?in = "filter (\<lambda>x. from \<le> rKey x \<and> rKey x \<le> to)"
  from assms obtain path bf skips where
    r: "r = table_reader path bf rs\<lparr>bloomSkips := skips\<rparr>" and ok: "table_ok bf rs"
    by (auto simp: reads_table_def)
  have fields: "minKey r = rKey (hd rs)" "maxKey r = rKey (last rs)"
    "rdIndex r = sparse_index 0 0 rs" "metaOffset r = int (length (data_bytes rs))"
    "rdFile r = data_bytes rs @ table_meta rs @ bloom_Encode bf @ index_section rs @
       footer_bytes (table_footer bf rs)"
    by (simp_all add: r table_reader_def table_sections)
  have run: "sorted_run rs" "\<forall>x \<in> set rs. fits x" using ok by (simp_all add: table_ok_def)
  from start_offset_run [OF run(1)] obtain m where
    m: "m \<le> length rs" "start_offset (sparse_index 0 0 rs) from = int (off_of rs m)"
    "\<forall>x \<in> set (take m rs). rKey x < from" by blast
  have loop: "scan_loop (rdFile r) (metaOffset r) from to (start_offset (rdIndex r) from) [] =
      Inr (map (\<lambda>r. (rKey r, r)) (?in rs))"
    unfolding fields m(2)
    by (subst scan_loop_run [OF run(2,1) m(1) refl])
      (simp add: filter_range_drop [OF m(3)] foldl_keep_newest_run sorted_run_filter run(1))
  have "?in rs = []" if "to < rKey (hd rs) \<or> from > rKey (last rs)"
    using that sorted_run_bounds [OF run(1)] by (fastforce simp: filter_empty_conv)
  then show ?thesis
    by (auto simp: reader_Scan_def fields(1,2) loop comp_def sort_key_sorted_run run(1) sorted_run_filter)
qed

lemma reads_table_LoadAll:
  assumes "reads_table r rs"
  shows "reader_LoadAll r = Inr rs"
proof -
  from assms obtain path bf skips where
    r: "r = table_reader path bf rs\<lparr>bloomSkips := skips\<rparr>" and ok: "table_ok bf rs"
    by (auto simp: reads_table_def)
  have fields: "recordCount r = int (length rs)" "metaOffset r = int (length (data_bytes rs))"
    "rdFile r = data_bytes rs @ table_meta rs @ bloom_Encode bf @ index_section rs @
       footer_bytes (table_footer bf rs)"
    by (simp_all add: r table_reader_def table_sections)
  have "load_loop (rdFile r) (metaOffset r) (int (off_of rs 0)) [] = Inr ([] @ drop 0 rs)"
    unfolding fields using ok by (intro load_loop_run) (simp_all add: table_ok_def)
  moreover have "17 * length rs \<le> 2 ^ 46"
    using record_count_bound [of rs] ok by (simp add: table_ok_def table_sections)
  ultimately show ?thesis by (simp add: reader_LoadAll_def fields(1) maxAlloc_def)
qed

section \<open>Write, then Open\<close>

lemma write_chunks_Inr:
  assumes "write_chunks d f pos bs = (d', pos', Inr u)" "dFiles d f = Some pre" "length pre = pos"
  shows "dFiles d' = (dFiles d)(f \<mapsto> pre @ concat bs) \<and> pos' = pos + length (concat bs)"
  using assms
proof (induction bs arbitrary: d pos pre)
  case Nil
  then show ?case by (simp add: fun_upd_idem)
next
  case (Cons b bs)
  obtain d1 pos1 where w: "file_write d f pos b = (d1, pos1, Inr ())"
    and rest: "write_chunks d1 f pos1 bs = (d', pos', Inr u)"
    using Cons.prems(1) by (auto split: prod.splits sum.splits)
  have "content d f = pre" using Cons.prems(2) by (simp add: content_def)
  then have d1: "dFiles d1 = (dFiles d)(f \<mapsto> pre @ b)" "pos1 = pos + length b"
    using file_write_Inr [OF w] Cons.prems(3) by auto
  show ?case using Cons.IH [OF rest, of "pre @ b"] Cons.prems(3) by (simp add: d1 fun_eq_iff)
qed

lemma write_chunks_fine:
  assumes "healthy d" "dFiles d f = Some pre" "length pre = pos"
  shows "write_chunks d f pos bs = (put_file f (pre @ concat bs) d, pos + length (concat bs), Inr ())"
  using assms
proof (induction bs arbitrary: d pos pre)
  case Nil
  then have "put_file f pre d = d" by (simp add: put_file_def fun_upd_idem)
  then show ?case by simp
next
  case (Cons b bs)
  then have "content d f = pre" by (simp add: content_def)
  with Cons.prems have "file_write d f pos b = (put_file f (pre @ b) d, pos + length b, Inr ())"
    by (auto simp: os_fine)
  with Cons.IH [of "put_file f (pre @ b) d" "pre @ b"] Cons.prems show ?case by simp
qed

lemma write_chunks_frame:
  "write_chunks d f pos bs = (d', pos', r) \<Longrightarrow> g \<noteq> f \<Longrightarrow> dFiles d' g = dFiles d g"
proof (induction bs arbitrary: d pos)
  case (Cons b bs)
  then show ?case
    by (auto split: prod.splits sum.splits dest!: file_write_frame [where g = g])
qed simp

text \<open>Whatever faults the disk has: a \<open>Write\<close> that returns nil has written the whole table.\<close>

lemma sstable_Write_Inr:
  assumes "sstable_Write sizing d path rs = (d', Inr ())" "rs \<noteq> []"
  obtains bf where "add_all (bloom_New sizing (int (length rs))) (map rKey rs) = Inr bf"
    "dFiles d' = (dFiles d)(path \<mapsto> concat (table_chunks bf rs))"
proof -
  obtain d1 where c: "os_create d path = (d1, Inr ())"
    using assms by (auto simp: sstable_Write_def split: prod.splits sum.splits)
  with assms obtain bf where bf: "add_all (bloom_New sizing (int (length rs))) (map rKey rs) = Inr bf"
    by (auto simp: sstable_Write_def split: prod.splits sum.splits)
  with assms c obtain d2 p where w: "write_chunks d1 path 0 (table_chunks bf rs) = (d2, p, Inr ())"
    by (auto simp: sstable_Write_def split: prod.splits sum.splits)
  with assms c bf have s: "os_sync d2 path = (d', Inr ())" by (simp add: sstable_Write_def)
  have "dFiles d1 = (dFiles d)(path \<mapsto> [])" using c by (rule os_Inr)
  with write_chunks_Inr [OF w, of "[]"] os_Inr(5) [OF s] bf that show ?thesis by simp
qed

lemma sstable_Write_frame:
  assumes "sstable_Write sizing d path rs = (d', r)" "g \<noteq> path"
  shows "dFiles d' g = dFiles d g"
  using assms
  by (auto simp: sstable_Write_def split: if_splits prod.splits sum.splits
      dest!: os_frame(2) [where g = g] os_frame(5) [where g = g] write_chunks_frame [where g = g])

lemma add_all_New:
  assumes "sized sizing (int (length rs))" "rs \<noteq> []"
  obtains bf where "add_all (bloom_New sizing (int (length rs))) (map rKey rs) = Inr bf" "bf_wf bf"
    "\<forall>x \<in> set rs. MayContain bf (rKey x) = Inr True"
proof -
  have wf: "bf_wf (bloom_New sizing (int (length rs)))" using assms by (intro bf_wf_New) auto
  with add_all_spec obtain bf where bf: "add_all (bloom_New sizing (int (length rs))) (map rKey rs) = Inr bf" "bf_wf bf"
    by blast
  with bloom_no_false_negative [OF wf bf(1)] that show ?thesis by simp
qed

lemma sstable_Write_total:
  assumes "healthy d" "sized sizing (int (length rs))" "rs \<noteq> []"
  shows "\<exists>bf. sstable_Write sizing d path rs = (put_file path (concat (table_chunks bf rs)) d, Inr ())"
proof -
  obtain bf where bf: "add_all (bloom_New sizing (int (length rs))) (map rKey rs) = Inr bf"
    using add_all_New [OF assms(2,3)] by blast
  have "write_chunks (put_file path [] d) path 0 (table_chunks bf rs) =
      (put_file path (concat (table_chunks bf rs)) d, length (concat (table_chunks bf rs)), Inr ())"
    using write_chunks_fine [of "put_file path [] d" path "[]" 0 "table_chunks bf rs"] assms(1)
    by simp
  then show ?thesis
    using assms bf by (intro exI [of _ bf]) (simp add: sstable_Write_def os_fine)
qed

section \<open>Table sizes\<close>

text \<open>
  The size of a filter is a floating-point computation of the caller's parameter \<open>sizing\<close>: about 9.59
  bits per key at a false-positive rate of one percent, so at least one and at most ten.
\<close>

definition good_sizing :: "sizing \<Rightarrow> bool" where
  "good_sizing sizing \<longleftrightarrow>
     (\<forall>n. 0 < n \<longrightarrow> n \<le> 2 ^ 43 \<longrightarrow> 0 < unat (fst (sizing n)) \<and> int (unat (fst (sizing n))) \<le> 10 * n)"

definition weight :: "Record list \<Rightarrow> nat" where
  "weight rs = sum_list (map record_size rs)"

lemma weight_simps [simp]:
  "weight [] = 0" "weight (r # rs) = record_size r + weight rs" "weight (xs @ ys) = weight xs + weight ys"
  by (simp_all add: weight_def)

lemma length_data_bytes: "length (data_bytes rs) = weight rs"
  by (induction rs) simp_all

lemma count_weight: "17 * length rs \<le> weight rs"
  using record_count_bound [of rs] by (simp add: length_data_bytes)

lemma good_sizing_sized:
  assumes "good_sizing sizing" "rs \<noteq> []" "weight rs \<le> 2 ^ 43"
  shows "sized sizing (int (length rs))" "unat (fst (sizing (int (length rs)))) \<le> 10 * length rs"
proof -
  have n: "0 < int (length rs)" "int (length rs) \<le> 2 ^ 43" using assms count_weight [of rs] by auto
  with assms(1) have m: "0 < unat (fst (sizing (int (length rs))))"
    "int (unat (fst (sizing (int (length rs))))) \<le> 10 * int (length rs)"
    unfolding good_sizing_def by blast+
  then show "unat (fst (sizing (int (length rs)))) \<le> 10 * length rs" by linarith
  with m(1) n show "sized sizing (int (length rs))" by (simp add: sized_def)
qed

lemma length_bits_New:
  assumes "unat (fst (sizing n)) \<le> 10 * m" "m \<le> 2 ^ 43" "0 < n"
  shows "8 * length (bfBits (bloom_New sizing n)) \<le> 10 * m + 63"
proof -
  define c where "c = fst (sizing n)"
  have c: "unat c \<le> 10 * m" "unat c + 63 < 2 ^ 64" using assms by (simp_all add: c_def)
  have "unat (c + 63) = unat c + 63" using unat_add_u64 [of c 63] c(2) by simp
  moreover have "unat ((c + 63) div 64 * 64 div 64) \<le> unat ((c + 63) div 64)"
  proof -
    have "unat ((c + 63) div 64 * 64) \<le> unat ((c + 63) div 64) * 64"
      by (simp add: unat_word_ariths)
    then have "unat ((c + 63) div 64 * 64) div 64 \<le> unat ((c + 63) div 64)" by simp
    then show ?thesis by (simp add: unat_div)
  qed
  moreover have "unat ((c + 63) div 64) = unat (c + 63) div 64" by (simp add: unat_div)
  ultimately have "8 * unat ((c + 63) div 64 * 64 div 64) \<le> 10 * m + 63" using c(1) by simp
  then show ?thesis using assms(3) by (simp add: bloom_New_def Let_def flip: c_def)
qed

lemma length_sparse_index_bytes: "length (concat (map index_bytes (sparse_index i d rs))) \<le> weight rs"
  by (induction i d rs rule: sparse_index.induct)
    (auto simp: index_bytes_def record_size_def recordHeaderSize_def)

lemma record_size_weight: "r \<in> set rs \<Longrightarrow> record_size r \<le> weight rs"
  unfolding weight_def by (rule member_le_sum_list) auto

lemma table_length:
  assumes "add_all (bloom_New sizing (int (length rs))) (map rKey rs) = Inr bf"
    and "good_sizing sizing" "rs \<noteq> []" "weight rs \<le> 2 ^ 43"
  shows "length (concat (table_chunks bf rs)) \<le> 2 ^ 46"
proof -
  note sz = good_sizing_sized [OF assms(2,3,4)]
  have wf: "bf_wf (bloom_New sizing (int (length rs)))" using sz(1) assms(3) by (intro bf_wf_New) auto
  have "bf_le (bloom_New sizing (int (length rs))) bf" using add_all_spec [OF wf, of "map rKey rs"] assms(1) by auto
  then have bits: "length (bfBits bf) = length (bfBits (bloom_New sizing (int (length rs))))"
    by (simp add: bf_le_def)
  have "8 * length (bfBits bf) \<le> 10 * length rs + 63"
    unfolding bits using sz(2) assms(3,4) count_weight [of rs] by (intro length_bits_New) auto
  moreover have "length (table_meta rs) \<le> 8 + 2 * weight rs"
  proof -
    have "length (rKey x) \<le> weight rs" if "x \<in> set rs" for x
      using record_size_weight [OF that] by (simp add: record_size_def)
    from this [of "hd rs"] this [of "last rs"] show ?thesis
      using assms(3) by (simp add: table_meta_def meta_bytes_def)
  qed
  moreover have "length (index_section rs) \<le> weight rs"
    unfolding index_section_def by (rule length_sparse_index_bytes)
  ultimately show ?thesis
    using assms(4) count_weight [of rs] by (simp add: table_sections length_data_bytes)
qed

text \<open>The batch writer, then the reader: the theorem the other packages rely on.\<close>

lemma Write_reads_table:
  assumes "sstable_Write sizing d path rs = (d', Inr ())" "rs \<noteq> []" "good_sizing sizing"
    and "sorted_run rs" "\<forall>r \<in> set rs. fits r" "weight rs \<le> 2 ^ 43"
  shows "\<exists>r. sstable_Open d' path = Inr r \<and> reads_table r rs \<and> rdPath r = path"
proof -
  obtain bf where bf: "add_all (bloom_New sizing (int (length rs))) (map rKey rs) = Inr bf"
    "dFiles d' = (dFiles d)(path \<mapsto> concat (table_chunks bf rs))"
    using sstable_Write_Inr assms(1,2) by blast
  note sz = good_sizing_sized [OF assms(3,2,6)]
  have may: "bf_wf bf" "\<forall>x \<in> set rs. MayContain bf (rKey x) = Inr True"
    using add_all_New [OF sz(1) assms(2)] bf(1) by auto
  have ok: "table_ok bf rs"
    using assms may(1) table_length [OF bf(1) assms(3,2,6)] by (simp add: table_ok_def)
  have "table_reader path bf rs = table_reader path bf rs\<lparr>bloomSkips := 0\<rparr>"
    by (simp add: table_reader_def)
  with ok may have "reads_table (table_reader path bf rs) rs" unfolding reads_table_def by blast
  with open_written [OF ok] bf(2) show ?thesis
    by (intro exI [of _ "table_reader path bf rs"]) (simp add: sstable_Open_def table_reader_def)
qed

section \<open>Correctness\<close>

definition sizing10 :: sizing where
  "sizing10 n = (word_of_nat (10 * nat n), 7)"

lemma good_sizing10: "good_sizing sizing10"
proof -
  have u: "unat (word_of_nat (10 * nat n) :: u64) = 10 * nat n" if "n \<le> 2 ^ 43" for n
    using that by (intro unat_of_nat_u64) simp
  show ?thesis unfolding good_sizing_def
  proof (intro allI impI)
    fix n :: int assume "0 < n" "n \<le> 2 ^ 43"
    then show "0 < unat (fst (sizing10 n)) \<and> int (unat (fst (sizing10 n))) \<le> 10 * n"
      unfolding sizing10_def fst_conv u [OF \<open>n \<le> 2 ^ 43\<close>] by simp
  qed
qed

text \<open>
  C11: a table that \<open>Write\<close> reports as written is opened again, and the reader answers as the records do:
  \<open>Get\<close> finds exactly the stored version of each key (through Bloom filter, key range, sparse index and
  forward scan), \<open>Scan\<close> the records in range, \<open>LoadAll\<close> all of them. The disk may fail anywhere.
\<close>

theorem sstable_roundtrip:
  assumes "sstable_Write sizing d path rs = (d', Inr ())" "rs \<noteq> []" "good_sizing sizing"
    and "sorted_run rs" "\<forall>r \<in> set rs. fits r" "weight rs \<le> 2 ^ 43"
  shows "\<exists>r. sstable_Open d' path = Inr r \<and> snd (reader_Get r key) = Inr (run_lookup rs key) \<and>
    reader_Scan r lo hi = Inr (filter (\<lambda>x. lo \<le> rKey x \<and> rKey x \<le> hi) rs) \<and>
    reader_LoadAll r = Inr rs"
  using Write_reads_table [OF assms] reads_table_Get(1) reads_table_Scan reads_table_LoadAll by blast

definition example_run :: "Record list" where
  "example_run = [\<lparr>rKey = [97], rValue = [1, 2], rSeqNum = 3, rType = RecordTypePut\<rparr>,
     \<lparr>rKey = [98], rValue = [], rSeqNum = 4, rType = RecordTypeDelete\<rparr>]"

lemma example_run_ok:
  "example_run \<noteq> []" "sorted_run example_run" "\<forall>r \<in> set example_run. fits r \<and> rKey r \<noteq> []"
  "weight example_run = 38" "length example_run = 2"
  by (simp_all add: example_run_def sorted_run_def fits_def record_size_def recordHeaderSize_def)

theorem sstable_roundtrip_witness:
  "\<exists>d r. sstable_Write sizing10 empty_disk ''000001.sst'' example_run = (d, Inr ()) \<and>
     sstable_Open d ''000001.sst'' = Inr r \<and> snd (reader_Get r [97]) = Inr (Some (example_run ! 0)) \<and>
     reader_Scan r [98] [99] = Inr [example_run ! 1] \<and> reader_LoadAll r = Inr example_run"
proof -
  note ok = example_run_ok
  have w: "weight example_run \<le> 2 ^ 43" by (simp add: ok)
  have "healthy empty_disk" by (simp add: healthy_def empty_disk_def)
  from sstable_Write_total [OF this good_sizing_sized(1) [OF good_sizing10 ok(1) w] ok(1)]
  obtain d where d: "sstable_Write sizing10 empty_disk ''000001.sst'' example_run = (d, Inr ())" by blast
  from sstable_roundtrip [OF d ok(1) good_sizing10 ok(2) _ w, of "[97]" "[98]" "[99]"] ok(3)
  have "\<exists>r. sstable_Open d ''000001.sst'' = Inr r \<and> snd (reader_Get r [97]) = Inr (run_lookup example_run [97]) \<and>
     reader_Scan r [98] [99] = Inr (filter (\<lambda>x. [98] \<le> rKey x \<and> rKey x \<le> [99]) example_run) \<and>
     reader_LoadAll r = Inr example_run" by blast
  with d show ?thesis by (auto simp: example_run_def run_lookup_def)
qed

text \<open>
  A lookup that the Bloom filter rejects is counted and touches nothing else; every other lookup
  leaves the reader as it is.
\<close>

lemma reader_Get_counts_skips:
  "fst (reader_Get r key) =
     (if MayContain (rdBloom r) key = Inr False then r\<lparr>bloomSkips := bloomSkips r + 1\<rparr> else r)"
  by (auto simp: reader_Get_def split: sum.split)

end
