(* ===== verification/Stream_Writer.thy ===== *)
theory Stream_Writer
  imports Sstable
begin

text \<open>
  Package \<open>internal/sstable\<close>, \<open>stream_writer.go\<close>: a writer that receives its records one by one. The
  cursor \<open>swPos\<close> of the underlying file is part of the state, because a failed write leaves it behind
  the bytes that reached the disk while \<open>swDataOffset\<close> does not move. The main lemma is that on a
  strictly sorted stream it performs exactly the calls of \<open>Write\<close>, whichever of them fails.
\<close>

section \<open>State and operations\<close>

record StreamWriter =
  swPath :: string
  swPos :: nat
  swExpected :: int
  swWritten :: nat
  swDataOffset :: nat
  swIndex :: "indexEntry list"
  swBloom :: BloomFilter
  swMinKey :: bytes
  swMaxKey :: bytes
  swLastKey :: bytes
  swClosed :: bool

definition NewStreamWriter :: "sizing \<Rightarrow> disk \<Rightarrow> string \<Rightarrow> int \<Rightarrow> disk \<times> StreamWriter result" where
  "NewStreamWriter sizing d path expected =
     (if expected \<le> 0 then (d, Inl (Err ''streaming sstable requires a positive record count''))
      else if expected > 2 ^ 63 - 1 then (d, Inl (Err ''streaming sstable record count exceeds platform limit''))
      else case os_create d path of
             (d, Inl e) \<Rightarrow> (d, Inl e)
           | (d, Inr _) \<Rightarrow>
               (d, Inr \<lparr>swPath = path, swPos = 0, swExpected = expected, swWritten = 0,
                        swDataOffset = 0, swIndex = [], swBloom = bloom_New sizing expected,
                        swMinKey = [], swMaxKey = [], swLastKey = [], swClosed = False\<rparr>))"

definition stream_Add :: "disk \<Rightarrow> StreamWriter \<Rightarrow> Record \<Rightarrow> disk \<times> StreamWriter \<times> unit result" where
  "stream_Add d w r =
     (if swClosed w then (d, w, Inl (Err ''streaming sstable writer is closed''))
      else if rKey r = [] \<or> swWritten w > 0 \<and> rKey r \<le> swLastKey w
      then (d, w, Inl (Err ''streaming sstable keys must be non-empty and strictly sorted''))
      else if int (swWritten w) \<ge> swExpected w
      then (d, w, Inl (Err ''streaming sstable received more records''))
      else if length (rKey r) > 2 ^ 32 - 1 \<or> length (rValue r) > 2 ^ 32 - 1
      then (d, w, Inl (Err ''sstable record field exceeds uint32 length''))
      else
        let w = (if swWritten w mod indexStep = 0
                 then w\<lparr>swIndex := swIndex w @ [\<lparr>ieKey = rKey r, ieOffset = int (swDataOffset w)\<rparr>]\<rparr>
                 else w);
            buf = record_bytes r
        in case file_write d (swPath w) (swPos w) buf of
             (d, pos, Inl e) \<Rightarrow> (d, w\<lparr>swPos := pos\<rparr>, Inl e)
           | (d, pos, Inr _) \<Rightarrow>
               let w = w\<lparr>swPos := pos\<rparr>;
                   w = (if swWritten w = 0 then w\<lparr>swMinKey := rKey r\<rparr> else w);
                   w = w\<lparr>swMaxKey := rKey r, swLastKey := rKey r\<rparr>
               in case bloom_Add (swBloom w) (rKey r) of
                    Inl e \<Rightarrow> (d, w, Inl e)
                  | Inr bf \<Rightarrow>
                      (d, w\<lparr>swBloom := bf, swDataOffset := swDataOffset w + length buf,
                            swWritten := swWritten w + 1\<rparr>, Inr ()))"

definition stream_tail :: "StreamWriter \<Rightarrow> bytes list" where
  "stream_tail w =
     (let meta = meta_bytes (swMinKey w) (swMaxKey w);
          bloomData = bloom_Encode (swBloom w);
          index = map index_bytes (swIndex w)
      in [meta, bloomData] @ index @
         [footer_bytes (layout_footer (swDataOffset w) (length meta) (length bloomData)
            (length (concat index)) (swWritten w))])"

definition stream_Finish :: "disk \<Rightarrow> StreamWriter \<Rightarrow> disk \<times> StreamWriter \<times> unit result" where
  "stream_Finish d w =
     (if swClosed w then (d, w, Inl (Err ''streaming sstable writer is closed''))
      else if int (swWritten w) \<noteq> swExpected w
      then (d, w, Inl (Err ''streaming sstable received a wrong number of records''))
      else case write_chunks d (swPath w) (swPos w) (stream_tail w) of
             (d, pos, Inl e) \<Rightarrow> (d, w\<lparr>swPos := pos\<rparr>, Inl e)
           | (d, pos, Inr _) \<Rightarrow>
               (case os_sync d (swPath w) of
                  (d, Inl e) \<Rightarrow> (d, w\<lparr>swPos := pos\<rparr>, Inl e)
                | (d, Inr _) \<Rightarrow> (d, w\<lparr>swPos := pos, swClosed := True\<rparr>, Inr ())))"

definition stream_Abort :: "disk \<Rightarrow> StreamWriter \<Rightarrow> disk \<times> StreamWriter" where
  "stream_Abort d w = (fst (os_remove d (swPath w)), w\<lparr>swClosed := True\<rparr>)"

text \<open>The use of the writer: create it, add every record, finish; the first error ends it.\<close>

fun stream_adds :: "disk \<Rightarrow> StreamWriter \<Rightarrow> Record list \<Rightarrow> disk \<times> StreamWriter \<times> unit result" where
  "stream_adds d w [] = (d, w, Inr ())"
| "stream_adds d w (r # rs) =
     (case stream_Add d w r of
        (d, w, Inl e) \<Rightarrow> (d, w, Inl e)
      | (d, w, Inr _) \<Rightarrow> stream_adds d w rs)"

definition stream_run :: "sizing \<Rightarrow> disk \<Rightarrow> string \<Rightarrow> Record list \<Rightarrow> disk \<times> unit result" where
  "stream_run sizing d path rs =
     (case NewStreamWriter sizing d path (int (length rs)) of
        (d, Inl e) \<Rightarrow> (d, Inl e)
      | (d, Inr w) \<Rightarrow>
          (case stream_adds d w rs of
             (d, w, Inl e) \<Rightarrow> (d, Inl e)
           | (d, w, Inr _) \<Rightarrow> (case stream_Finish d w of (d, w, res) \<Rightarrow> (d, res))))"

section \<open>Equivalence with the batch writer\<close>

text \<open>The writer's state after the records \<open>ys\<close> of a stream of \<open>n\<close>.\<close>

definition after :: "sizing \<Rightarrow> string \<Rightarrow> nat \<Rightarrow> Record list \<Rightarrow> StreamWriter \<Rightarrow> bool" where
  "after sizing path n ys w \<longleftrightarrow>
     swPath w = path \<and> swPos w = length (data_bytes ys) \<and> swExpected w = int n \<and>
     swWritten w = length ys \<and> swDataOffset w = length (data_bytes ys) \<and>
     swIndex w = sparse_index 0 0 ys \<and>
     add_all (bloom_New sizing (int n)) (map rKey ys) = Inr (swBloom w) \<and> bf_wf (swBloom w) \<and>
     (ys \<noteq> [] \<longrightarrow> swMinKey w = rKey (hd ys) \<and> swMaxKey w = rKey (last ys) \<and> swLastKey w = rKey (last ys)) \<and>
     \<not> swClosed w"

lemma write_chunks_append:
  "write_chunks d f pos (xs @ ys) =
     (case write_chunks d f pos xs of
        (d, pos, Inl e) \<Rightarrow> (d, pos, Inl e)
      | (d, pos, Inr _) \<Rightarrow> write_chunks d f pos ys)"
  by (induction xs arbitrary: d pos) (auto split: prod.splits sum.splits)

lemma sparse_index_snoc:
  "sparse_index i d (ys @ [r]) = sparse_index i d ys @
     (if (i + length ys) mod indexStep = 0
      then [\<lparr>ieKey = rKey r, ieOffset = int (d + length (data_bytes ys))\<rparr>] else [])"
  by (induction i d ys rule: sparse_index.induct) (simp_all add: add.assoc)

lemma add_all_append: "add_all bf (ks @ ls) = rbind (add_all bf ks) (\<lambda>bf. add_all bf ls)"
  by (induction ks arbitrary: bf) (simp_all add: rbind_def split: sum.split)

lemma stream_Add_after:
  assumes "after sizing path n ys w" "rKey r \<noteq> []" "fits r" "length ys < n"
    and "\<forall>y \<in> set ys. rKey y < rKey r"
  shows "\<exists>w'. stream_Add d w r =
      (case file_write d path (length (data_bytes ys)) (record_bytes r) of
         (d', pos, res) \<Rightarrow> (d', w', res)) \<and>
    (\<forall>d' pos. file_write d path (length (data_bytes ys)) (record_bytes r) = (d', pos, Inr ()) \<longrightarrow>
       after sizing path n (ys @ [r]) w')"
proof -
  note a = assms(1) [unfolded after_def]
  obtain bf where bf: "bloom_Add (swBloom w) (rKey r) = Inr bf" "bf_wf bf"
    using bloom_Add_spec a by metis
  have sorted: "swWritten w > 0 \<Longrightarrow> \<not> rKey r \<le> swLastKey w"
    using a assms(5) by (cases ys rule: rev_cases) auto
  have lens: "\<not> length (rKey r) > 2 ^ 32 - 1" "\<not> length (rValue r) > 2 ^ 32 - 1"
    using assms(3) by (auto simp: fits_def)
  obtain d' pos res where fw: "file_write d path (length (data_bytes ys)) (record_bytes r) = (d', pos, res)"
    by (metis prod_cases3)
  show ?thesis
  proof (cases res)
    case (Inl e)
    then show ?thesis using a fw assms(2,4) sorted lens by (auto simp: stream_Add_def Let_def)
  next
    case (Inr u)
    then have pos: "pos = length (data_bytes ys) + record_size r" using file_write_Inr(2) fw by fastforce
    have app: "add_all (bloom_New sizing (int n)) (map rKey (ys @ [r])) = Inr bf"
      using a bf(1) by (simp add: add_all_append)
    show ?thesis
      using a fw assms(2,4) sorted lens Inr bf app
      by (auto simp: stream_Add_def Let_def after_def pos sparse_index_snoc)
  qed
qed

lemma stream_adds_after:
  assumes "after sizing path n ys w" "length ys + length zs \<le> n" "sorted_run (ys @ zs)"
    and "\<forall>r \<in> set zs. rKey r \<noteq> [] \<and> fits r"
  shows "\<exists>w'. stream_adds d w zs =
      (case write_chunks d path (length (data_bytes ys)) (map record_bytes zs) of
         (d', pos, res) \<Rightarrow> (d', w', res)) \<and>
    (\<forall>d' pos. write_chunks d path (length (data_bytes ys)) (map record_bytes zs) = (d', pos, Inr ()) \<longrightarrow>
       after sizing path n (ys @ zs) w' \<and> pos = length (data_bytes (ys @ zs)))"
  using assms
proof (induction zs arbitrary: d w ys)
  case Nil
  then show ?case by simp
next
  case (Cons r zs)
  have "\<forall>y \<in> set ys. rKey y < rKey r" using Cons.prems(3) by (auto simp: sorted_run_append)
  then obtain w1 where w1: "stream_Add d w r =
      (case file_write d path (length (data_bytes ys)) (record_bytes r) of (d', pos, res) \<Rightarrow> (d', w1, res))"
    "\<And>d' pos. file_write d path (length (data_bytes ys)) (record_bytes r) = (d', pos, Inr ()) \<Longrightarrow>
       after sizing path n (ys @ [r]) w1"
    using stream_Add_after [OF Cons.prems(1), of r d] Cons.prems(2,4) by auto
  obtain d1 pos1 res where fw: "file_write d path (length (data_bytes ys)) (record_bytes r) = (d1, pos1, res)"
    by (metis prod_cases3)
  show ?case
  proof (cases res)
    case (Inl e)
    then show ?thesis using fw w1(1) by simp
  next
    case (Inr u)
    then have fw': "file_write d path (length (data_bytes ys)) (record_bytes r) = (d1, pos1, Inr ())"
      using fw by simp
    have pos1: "pos1 = length (data_bytes (ys @ [r]))" using file_write_Inr(2) [OF fw'] by simp
    have "\<exists>w'. stream_adds d1 w1 zs =
        (case write_chunks d1 path (length (data_bytes (ys @ [r]))) (map record_bytes zs) of
           (d', pos, res) \<Rightarrow> (d', w', res)) \<and>
      (\<forall>d' pos. write_chunks d1 path (length (data_bytes (ys @ [r]))) (map record_bytes zs) = (d', pos, Inr ()) \<longrightarrow>
         after sizing path n ((ys @ [r]) @ zs) w' \<and> pos = length (data_bytes ((ys @ [r]) @ zs)))"
      using Cons.prems by (intro Cons.IH w1(2) [OF fw']) simp_all
    then show ?thesis using w1(1) fw' pos1 by simp
  qed
qed

lemma stream_tail_chunks:
  assumes "after sizing path n rs w" "rs \<noteq> []"
  shows "map record_bytes rs @ stream_tail w = table_chunks (swBloom w) rs"
  using assms by (simp add: after_def stream_tail_def table_chunks_def Let_def data_bytes_def)

lemma stream_run_Write:
  assumes "rs \<noteq> []" "sorted_run rs" "\<forall>r \<in> set rs. rKey r \<noteq> [] \<and> fits r"
    and "length rs < 2 ^ 63" "sized sizing (int (length rs))"
  shows "stream_run sizing d path rs = sstable_Write sizing d path rs"
proof -
  define n where "n = length rs"
  have n: "0 < int n" "\<not> int n > 2 ^ 63 - 1" using assms(1,4) by (auto simp: n_def)
  obtain bf where bf: "add_all (bloom_New sizing (int n)) (map rKey rs) = Inr bf"
    using add_all_New [OF assms(5,1)] by (auto simp: n_def)
  obtain d1 r1 where c: "os_create d path = (d1, r1)" by fastforce
  show ?thesis
  proof (cases r1)
    case (Inl e)
    then show ?thesis using c n assms(1)
      by (simp add: stream_run_def NewStreamWriter_def sstable_Write_def flip: n_def)
  next
    case (Inr u)
    define w where "w = \<lparr>swPath = path, swPos = 0, swExpected = int n, swWritten = 0,
      swDataOffset = 0, swIndex = [], swBloom = bloom_New sizing (int n),
      swMinKey = [], swMaxKey = [], swLastKey = [], swClosed = False\<rparr>"
    have new: "NewStreamWriter sizing d path (int (length rs)) = (d1, Inr w)"
      using n c Inr by (simp add: NewStreamWriter_def w_def flip: n_def)
    have "after sizing path n [] w"
      using bf_wf_New [OF assms(5)] assms(1) by (simp add: after_def w_def n_def)
    then have "\<exists>w'. stream_adds d1 w rs =
        (case write_chunks d1 path (length (data_bytes [])) (map record_bytes rs) of
           (d', pos, res) \<Rightarrow> (d', w', res)) \<and>
      (\<forall>d' pos. write_chunks d1 path (length (data_bytes [])) (map record_bytes rs) = (d', pos, Inr ()) \<longrightarrow>
         after sizing path n ([] @ rs) w' \<and> pos = length (data_bytes ([] @ rs)))"
      using assms by (intro stream_adds_after) (simp_all add: n_def)
    then obtain w' where w': "stream_adds d1 w rs =
        (case write_chunks d1 path 0 (map record_bytes rs) of (d', pos, res) \<Rightarrow> (d', w', res))"
      "\<And>d' pos. write_chunks d1 path 0 (map record_bytes rs) = (d', pos, Inr ()) \<Longrightarrow>
         after sizing path n rs w' \<and> pos = length (data_bytes rs)" by auto
    obtain d2 pos2 res where wc: "write_chunks d1 path 0 (map record_bytes rs) = (d2, pos2, res)"
      by (metis prod_cases3)
    have split: "table_chunks bf rs = map record_bytes rs @ drop (length rs) (table_chunks bf rs)"
      by (simp add: table_chunks_def Let_def)
    show ?thesis
    proof (cases res)
      case (Inl e)
      have "write_chunks d1 path 0 (table_chunks bf rs) = (d2, pos2, Inl e)"
        by (subst split) (simp add: write_chunks_append wc Inl)
      with Inl \<open>r1 = Inr u\<close> show ?thesis
        using new w'(1) wc c assms(1) bf by (simp add: stream_run_def sstable_Write_def n_def)
    next
      case (Inr v)
      then have a: "after sizing path n rs w'" "pos2 = length (data_bytes rs)" using w'(2) wc by auto
      then have b: "swBloom w' = bf" using bf by (simp add: after_def)
      have chunks: "table_chunks bf rs = map record_bytes rs @ stream_tail w'"
        using stream_tail_chunks [OF a(1) assms(1)] unfolding b by (rule sym)
      have "write_chunks d1 path 0 (table_chunks bf rs) = write_chunks d2 path pos2 (stream_tail w')"
        unfolding chunks by (simp add: write_chunks_append wc Inr)
      moreover have "swClosed w' = False" "int (swWritten w') = swExpected w'" "swPath w' = path"
        "swPos w' = pos2" using a by (simp_all add: after_def n_def)
      ultimately show ?thesis
        using new w'(1) wc c assms(1) bf Inr \<open>r1 = Inr u\<close>
        by (simp add: stream_run_def sstable_Write_def n_def stream_Finish_def split: prod.split sum.split)
    qed
  qed
qed

section \<open>Correctness\<close>

text \<open>
  C19: on a strictly sorted stream of non-empty keys the streaming writer is the batch writer: the same
  calls in the same order, so the same file, the same error and the same leftovers on disk for every
  pattern of failing or crashing system calls.
\<close>

theorem stream_writer_equals_Write:
  assumes "rs \<noteq> []" "sorted_run rs" "\<forall>r \<in> set rs. rKey r \<noteq> [] \<and> fits r"
    and "weight rs \<le> 2 ^ 43" "good_sizing sizing"
  shows "stream_run sizing d path rs = sstable_Write sizing d path rs"
  using stream_run_Write [OF assms(1-3) _ good_sizing_sized(1) [OF assms(5,1,4)]] count_weight [of rs] assms(4)
  by simp

theorem stream_writer_equals_Write_witness:
  "stream_run sizing10 (empty_disk\<lparr>dFaults := [Fine, Fine, Fail 7]\<rparr>) ''s'' example_run =
   sstable_Write sizing10 (empty_disk\<lparr>dFaults := [Fine, Fine, Fail 7]\<rparr>) ''s'' example_run"
  using stream_writer_equals_Write [OF example_run_ok(1,2) _ _ good_sizing10] example_run_ok(3,4) by simp

text \<open>
  What \<open>Add\<close> and \<open>Finish\<close> reject, before they touch the file: a closed writer, an empty or unsorted
  key, a record too many, and a wrong number of records.
\<close>

lemma stream_writer_rejects:
  "(swClosed w \<or> rKey r = [] \<or> (0 < swWritten w \<and> rKey r \<le> swLastKey w) \<or> swExpected w \<le> int (swWritten w)
      \<longrightarrow> (\<exists>e. stream_Add d w r = (d, w, Inl (Err e)))) \<and>
   (swClosed w \<or> int (swWritten w) \<noteq> swExpected w \<longrightarrow> (\<exists>e. stream_Finish d w = (d, w, Inl (Err e))))"
  by (auto simp: stream_Add_def stream_Finish_def)

end
