(* ===== verification/Heap.thy ===== *)
theory Heap
  imports Prelude "HOL-Library.Multiset"
begin

text \<open>
  Package \<open>container/heap\<close> of the Go library, on a slice with a comparison: the sift loops \<open>up\<close> and
  \<open>down\<close>, \<open>Init\<close>, \<open>Push\<close> and \<open>Pop\<close>. The locale \<open>heap_order\<close> states what a comparison must satisfy
  (a strict weak order); it gives that the heap shape is kept, that no element is lost, and that
  \<open>Pop\<close> returns a least one.
\<close>

section \<open>Operations\<close>

definition swap :: "'a list \<Rightarrow> nat \<Rightarrow> nat \<Rightarrow> 'a list" where
  "swap h i j = h[i := h ! j, j := h ! i]"

definition parent :: "nat \<Rightarrow> nat" where
  "parent j = (j - 1) div 2"

function heap_up :: "('a \<Rightarrow> 'a \<Rightarrow> bool) \<Rightarrow> 'a list \<Rightarrow> nat \<Rightarrow> 'a list" where
  "heap_up lt h j =
     (if parent j = j \<or> \<not> lt (h ! j) (h ! parent j) then h
      else heap_up lt (swap h (parent j) j) (parent j))"
  by pat_completeness auto
termination
  by (relation "measure (\<lambda>(lt, h, j). j)") (auto simp: parent_def)

declare heap_up.simps [simp del]

text \<open>The smaller child of \<open>i\<close> among the first \<open>n\<close> elements (the left one exists).\<close>

definition small_child :: "('a \<Rightarrow> 'a \<Rightarrow> bool) \<Rightarrow> 'a list \<Rightarrow> nat \<Rightarrow> nat \<Rightarrow> nat" where
  "small_child lt h i n =
     (let j1 = 2 * i + 1; j2 = j1 + 1 in if j2 < n \<and> lt (h ! j2) (h ! j1) then j2 else j1)"

function heap_down :: "('a \<Rightarrow> 'a \<Rightarrow> bool) \<Rightarrow> 'a list \<Rightarrow> nat \<Rightarrow> nat \<Rightarrow> 'a list" where
  "heap_down lt h i n =
     (if 2 * i + 1 \<ge> n then h
      else let j = small_child lt h i n
           in if \<not> lt (h ! j) (h ! i) then h else heap_down lt (swap h i j) j n)"
  by pat_completeness auto
termination
  by (relation "measure (\<lambda>(lt, h, i, n). n - i)") (auto simp: small_child_def Let_def)

declare heap_down.simps [simp del]

definition heap_Init :: "('a \<Rightarrow> 'a \<Rightarrow> bool) \<Rightarrow> 'a list \<Rightarrow> 'a list" where
  "heap_Init lt h = foldl (\<lambda>h i. heap_down lt h i (length h)) h (rev [0..<length h div 2])"

definition heap_Push :: "('a \<Rightarrow> 'a \<Rightarrow> bool) \<Rightarrow> 'a list \<Rightarrow> 'a \<Rightarrow> 'a list" where
  "heap_Push lt h x = heap_up lt (h @ [x]) (length h)"

definition heap_Pop :: "('a \<Rightarrow> 'a \<Rightarrow> bool) \<Rightarrow> 'a list \<Rightarrow> 'a \<times> 'a list" where
  "heap_Pop lt h =
     (let n = length h - 1;
          h = heap_down lt (swap h 0 n) 0 n
      in (last h, butlast h))"

section \<open>Shape\<close>

definition heap_below :: "('a \<Rightarrow> 'a \<Rightarrow> bool) \<Rightarrow> 'a list \<Rightarrow> nat \<Rightarrow> bool" where
  "heap_below lt h n \<longleftrightarrow> (\<forall>k < n. 0 < k \<longrightarrow> \<not> lt (h ! k) (h ! parent k))"

definition is_heap :: "('a \<Rightarrow> 'a \<Rightarrow> bool) \<Rightarrow> 'a list \<Rightarrow> bool" where
  "is_heap lt h \<longleftrightarrow> heap_below lt h (length h)"

lemma parent_less [simp]: "0 < k \<Longrightarrow> parent k < k"
  by (auto simp: parent_def)

lemma parent_bound [simp]: "k < n \<Longrightarrow> parent k < n"
  by (auto simp: parent_def)

lemma parent_0 [simp]: "parent 0 = 0"
  by (simp add: parent_def)

lemma parent_eq [simp]: "parent k = k \<longleftrightarrow> k = 0"
  by (auto simp: parent_def)

lemma parent_conv: "0 < k \<Longrightarrow> parent k = i \<longleftrightarrow> k = 2 * i + 1 \<or> k = 2 * i + 2"
  by (auto simp: parent_def)

lemma length_swap [simp]: "length (swap h i j) = length h"
  by (simp add: swap_def)

lemma nth_swap:
  "i < length h \<Longrightarrow> j < length h \<Longrightarrow>
    swap h i j ! k = (if k = i then h ! j else if k = j then h ! i else h ! k)"
  by (auto simp: swap_def nth_list_update)

lemma mset_swap' [simp]: "i < length h \<Longrightarrow> j < length h \<Longrightarrow> mset (swap h i j) = mset h"
  unfolding swap_def by (rule mset_swap)

lemma heap_up_perm:
  "j < length h \<Longrightarrow> length (heap_up lt h j) = length h \<and> mset (heap_up lt h j) = mset h"
proof (induction lt h j rule: heap_up.induct)
  case (1 lt h j)
  then show ?case
    by (cases "parent j = j \<or> \<not> lt (h ! j) (h ! parent j)")
      (auto simp: heap_up.simps [of lt h j])
qed

lemma small_child_range:
  "2 * i + 1 < n \<Longrightarrow> i < small_child lt h i n \<and> small_child lt h i n < n"
  by (auto simp: small_child_def Let_def)

lemma heap_down_perm:
  "n \<le> length h \<Longrightarrow> length (heap_down lt h i n) = length h \<and> mset (heap_down lt h i n) = mset h \<and>
     (\<forall>k < length h. n \<le> k \<longrightarrow> heap_down lt h i n ! k = h ! k)"
proof (induction lt h i n rule: heap_down.induct)
  case (1 lt h i n)
  let ?j = "small_child lt h i n"
  show ?case
  proof (cases "2 * i + 1 \<ge> n \<or> \<not> lt (h ! ?j) (h ! i)")
    case True
    then have "heap_down lt h i n = h" by (auto simp: heap_down.simps [of lt h i n] Let_def)
    then show ?thesis by simp
  next
    case False
    then have eq: "heap_down lt h i n = heap_down lt (swap h i ?j) ?j n"
      by (simp add: heap_down.simps [of lt h i n] Let_def)
    have r: "i < ?j" "?j < n" using False small_child_range [of i n lt h] by auto
    show ?thesis using "1.IH" [OF _ refl] False "1.prems" r
      by (auto simp: eq nth_swap)
  qed
qed

locale heap_order =
  fixes lt :: "'a \<Rightarrow> 'a \<Rightarrow> bool"
  assumes less_asym: "lt a b \<Longrightarrow> \<not> lt b a"
    and not_less_trans: "\<not> lt b a \<Longrightarrow> \<not> lt c b \<Longrightarrow> \<not> lt c a"
begin

lemma less_irrefl: "\<not> lt a a"
  using less_asym by blast

text \<open>Sifting up: a heap but for the edge from \<open>j\<close> to its parent.\<close>

lemma up_heap:
  assumes "j < length h"
    and "\<And>k. k < length h \<Longrightarrow> 0 < k \<Longrightarrow> k \<noteq> j \<Longrightarrow> \<not> lt (h ! k) (h ! parent k)"
    and "\<And>k. k < length h \<Longrightarrow> 0 < k \<Longrightarrow> parent k = j \<Longrightarrow> 0 < j \<Longrightarrow> \<not> lt (h ! k) (h ! parent j)"
  shows "is_heap lt (heap_up lt h j)"
  using assms
proof (induction j arbitrary: h rule: less_induct)
  case (less j)
  show ?case
  proof (cases "j = 0 \<or> \<not> lt (h ! j) (h ! parent j)")
    case True
    then have "heap_up lt h j = h" by (auto simp: heap_up.simps [of _ h j])
    moreover have "\<not> lt (h ! k) (h ! parent k)" if "k < length h" "0 < k" for k
      using that True less.prems(2) [of k] by (cases "k = j") auto
    ultimately show ?thesis by (simp add: is_heap_def heap_below_def)
  next
    case False
    define p where "p = parent j"
    have p: "p < j" "p < length h" "lt (h ! j) (h ! p)" "0 < j" using False less.prems(1) by (auto simp: p_def)
    have n: "swap h p j ! k = (if k = p then h ! j else if k = j then h ! p else h ! k)" for k
      using p less.prems(1) by (simp add: nth_swap)
    have "is_heap lt (heap_up lt (swap h p j) p)"
    proof (rule less.IH)
      fix k assume k: "k < length (swap h p j)" "0 < k" "k \<noteq> p"
      consider "k = j" | "k \<noteq> j" "parent k = p" | "k \<noteq> j" "parent k = j" | "k \<noteq> j" "parent k \<noteq> p" "parent k \<noteq> j" by blast
      then show "\<not> lt (swap h p j ! k) (swap h p j ! parent k)"
      proof cases
        case 1
        then show ?thesis using p less_asym [OF p(3)] by (simp add: n p_def [symmetric])
      next
        case 2
        then show ?thesis using less.prems(2) [of k] k less_asym [OF p(3)] not_less_trans by (auto simp: n)
      next
        case 3
        then show ?thesis using less.prems(3) [of k, folded p_def] k p by (auto simp: n)
      next
        case 4
        then show ?thesis using less.prems(2) [of k] k by (auto simp: n)
      qed
    next
      fix k assume k: "k < length (swap h p j)" "0 < k" "parent k = p" "0 < p"
      have pp: "\<not> lt (h ! p) (h ! parent p)" using less.prems(2) [of p] p k by auto
      have "parent p < p" "p < k" using k by auto
      then have ne: "parent p \<noteq> p" "parent p \<noteq> j" "k \<noteq> p" using p by auto
      show "\<not> lt (swap h p j ! k) (swap h p j ! parent p)"
      proof (cases "k = j")
        case False
        then have "\<not> lt (h ! k) (h ! p)" using less.prems(2) [of k] k by auto
        with pp ne False show ?thesis using not_less_trans by (auto simp: n)
      qed (use pp ne in \<open>simp add: n\<close>)
    qed (use p in simp_all)
    then show ?thesis using False by (simp add: heap_up.simps [of _ h j] p_def)
  qed
qed

lemma small_child_least:
  assumes "2 * i + 1 < n" "k < n" "0 < k" "parent k = i"
  shows "\<not> lt (h ! k) (h ! small_child lt h i n)"
  using assms less_irrefl less_asym by (auto simp: parent_conv small_child_def Let_def)

text \<open>Sifting down: a heap, among the nodes from \<open>b\<close> on, but for the edges into \<open>i\<close>.\<close>

lemma down_heap:
  assumes "b \<le> i" "n \<le> length h"
    and "\<And>k. k < n \<Longrightarrow> 0 < k \<Longrightarrow> b \<le> parent k \<Longrightarrow> parent k \<noteq> i \<Longrightarrow> \<not> lt (h ! k) (h ! parent k)"
    and "\<And>k. k < n \<Longrightarrow> 0 < k \<Longrightarrow> parent k = i \<Longrightarrow> 0 < i \<Longrightarrow> b \<le> parent i \<Longrightarrow> \<not> lt (h ! k) (h ! parent i)"
    and "k < n" "0 < k" "b \<le> parent k"
  shows "\<not> lt (heap_down lt h i n ! k) (heap_down lt h i n ! parent k)"
  using assms(1-4)
proof (induction "n - i" arbitrary: h i rule: less_induct)
  case less
  define j where "j = small_child lt h i n"
  show ?case
  proof (cases "2 * i + 1 \<ge> n \<or> \<not> lt (h ! j) (h ! i)")
    case True
    then have "heap_down lt h i n = h" by (auto simp: heap_down.simps [of _ h i n] Let_def j_def)
    moreover have "\<not> lt (h ! k) (h ! parent k)"
    proof (cases "parent k = i")
      case True
      then have n: "2 * i + 1 < n" using \<open>k < n\<close> \<open>0 < k\<close> by (auto simp: parent_conv)
      have "\<not> lt (h ! k) (h ! j)" "\<not> lt (h ! j) (h ! i)"
        using small_child_least [OF n \<open>k < n\<close> \<open>0 < k\<close> True, of h] n
          \<open>2 * i + 1 \<ge> n \<or> \<not> lt (h ! j) (h ! i)\<close> by (auto simp: j_def)
      with True show ?thesis using not_less_trans by blast
    qed (use less.prems(3) assms(5-7) in blast)
    ultimately show ?thesis by simp
  next
    case False
    then have r: "i < j" "j < n" "lt (h ! j) (h ! i)" and lt: "2 * i + 1 < n"
      using small_child_range [of i n lt h] by (auto simp: j_def)
    have pj: "parent j = i" "0 < j" using r by (auto simp: j_def small_child_def Let_def parent_def)
    have n: "swap h i j ! m = (if m = i then h ! j else if m = j then h ! i else h ! m)" for m
      using r less.prems(2) by (simp add: nth_swap)
    have "\<not> lt (heap_down lt (swap h i j) j n ! k) (heap_down lt (swap h i j) j n ! parent k)"
    proof (rule less.hyps)
      fix m assume m: "m < n" "0 < m" "b \<le> parent m" "parent m \<noteq> j"
      consider "m = i" | "m = j" | "m \<noteq> i" "m \<noteq> j" "parent m = i" | "m \<noteq> i" "m \<noteq> j" "parent m \<noteq> i" by blast
      then show "\<not> lt (swap h i j ! m) (swap h i j ! parent m)"
      proof cases
        case 1
        then have "parent i \<noteq> i" "parent i \<noteq> j" using m r parent_less [of i] by auto
        with 1 show ?thesis using less.prems(4) [of j] m pj r by (auto simp: n)
      next
        case 2
        then show ?thesis using less_asym [OF r(3)] r(1) pj by (simp add: n)
      next
        case 3
        then show ?thesis using small_child_least [OF lt m(1,2), of h] by (simp add: n flip: j_def)
      next
        case 4
        then show ?thesis using less.prems(3) [of m] m by (simp add: n)
      qed
    next
      fix m assume m: "m < n" "0 < m" "parent m = j" "0 < j" "b \<le> parent j"
      then have "m \<noteq> i" "m \<noteq> j" using parent_less [of m] r by auto
      then show "\<not> lt (swap h i j ! m) (swap h i j ! parent j)"
        using less.prems(1) less.prems(3) [of m] m r pj by (auto simp: n)
    qed (use r less.prems in auto)
    then show ?thesis using False by (simp add: heap_down.simps [of _ h i n] Let_def j_def)
  qed
qed

lemma root_least:
  assumes "is_heap lt h" "k < length h"
  shows "\<not> lt (h ! k) (h ! 0)"
  using assms(2)
proof (induction k rule: less_induct)
  case (less k)
  show ?case
  proof (cases "k = 0")
    case True
    then show ?thesis using less_irrefl by simp
  next
    case False
    then have "\<not> lt (h ! parent k) (h ! 0)" "\<not> lt (h ! k) (h ! parent k)"
      using less assms(1) parent_less [of k] by (auto simp: is_heap_def heap_below_def)
    then show ?thesis using not_less_trans by blast
  qed
qed

lemma Push_spec:
  assumes "is_heap lt h"
  shows "is_heap lt (heap_Push lt h x)" "mset (heap_Push lt h x) = add_mset x (mset h)"
proof -
  have old: "\<not> lt (h ! k) (h ! parent k)" "parent k < length h" if "k < length h" "0 < k" for k
    using assms that parent_less [of k] by (auto simp: is_heap_def heap_below_def simp del: parent_less)
  show "is_heap lt (heap_Push lt h x)"
    unfolding heap_Push_def
  proof (rule up_heap)
    fix k assume k: "k < length (h @ [x])" "0 < k" "k \<noteq> length h"
    then show "\<not> lt ((h @ [x]) ! k) ((h @ [x]) ! parent k)" using old [of k] by (simp add: nth_append)
  next
    fix k assume "k < length (h @ [x])" "0 < k" "parent k = length h"
    then show "\<not> lt ((h @ [x]) ! k) ((h @ [x]) ! parent (length h))" using parent_less [of k] by simp
  qed simp
  show "mset (heap_Push lt h x) = add_mset x (mset h)"
    unfolding heap_Push_def using heap_up_perm [of "length h" "h @ [x]" lt] by simp
qed

lemma Pop_spec:
  assumes "is_heap lt h" "h \<noteq> []"
  shows "fst (heap_Pop lt h) = h ! 0" "is_heap lt (snd (heap_Pop lt h))"
    "mset h = add_mset (h ! 0) (mset (snd (heap_Pop lt h)))"
proof -
  define n where "n = length h - 1"
  define g where "g = heap_down lt (swap h 0 n) 0 n"
  have n: "n < length h" using assms(2) by (simp add: n_def)
  have perm: "length g = length h" "mset g = mset h"
    "\<And>k. k < length h \<Longrightarrow> n \<le> k \<Longrightarrow> g ! k = swap h 0 n ! k"
    using heap_down_perm [of n "swap h 0 n" lt 0] n mset_swap' [of 0 h n] assms(2) by (auto simp: g_def)
  have gne: "g \<noteq> []" using perm(1) assms(2) by auto
  have last: "last g = h ! 0"
    using perm(1) perm(3) [of n] n gne assms(2) by (auto simp: last_conv_nth n_def nth_swap)
  have pop: "heap_Pop lt h = (last g, butlast g)" by (simp add: heap_Pop_def Let_def g_def n_def)
  show "fst (heap_Pop lt h) = h ! 0" by (simp add: pop last)
  have "g = butlast g @ [h ! 0]" using last gne by (metis append_butlast_last_id)
  then have "mset g = add_mset (h ! 0) (mset (butlast g))" by (metis mset_append union_mset_add_mset_right mset.simps add.right_neutral)
  then show "mset h = add_mset (h ! 0) (mset (snd (heap_Pop lt h)))" by (simp add: pop perm(2))
  have edges: "\<not> lt (g ! k) (g ! parent k)" if "k < n" "0 < k" for k
    unfolding g_def
  proof (rule down_heap [of 0])
    fix m assume m: "m < n" "0 < m" "parent m \<noteq> 0"
    then have "parent m \<noteq> n" "m < length h"
      using n m(1) less_imp_neq [OF parent_bound [OF m(1)]] by simp_all
    then show "\<not> lt (swap h 0 n ! m) (swap h 0 n ! parent m)"
      using assms m n by (auto simp: nth_swap is_heap_def heap_below_def)
  qed (use that n in auto)
  have "length (butlast g) = n" using perm(1) by (simp add: n_def)
  then show "is_heap lt (snd (heap_Pop lt h))"
    using edges by (simp add: pop is_heap_def heap_below_def nth_butlast)
qed

lemma Init_spec: "is_heap lt (heap_Init lt h)" "mset (heap_Init lt h) = mset h"
proof -
  have step: "length g = length h \<and> mset g = mset h \<and>
      (\<forall>k < length h. 0 < k \<longrightarrow> length h div 2 - m \<le> parent k \<longrightarrow> \<not> lt (g ! k) (g ! parent k))"
    if "m \<le> length h div 2"
      "g = foldl (\<lambda>h i. heap_down lt h i (length h)) h (take m (rev [0..<length h div 2]))" for m g
    using that
  proof (induction m arbitrary: g)
    case 0
    then show ?case by (auto simp: parent_def)
  next
    case (Suc m)
    define f where "f = foldl (\<lambda>h i. heap_down lt h i (length h)) h (take m (rev [0..<length h div 2]))"
    define i where "i = length h div 2 - Suc m"
    have IH: "length f = length h" "mset f = mset h"
      "\<And>k. k < length h \<Longrightarrow> 0 < k \<Longrightarrow> length h div 2 - m \<le> parent k \<Longrightarrow> \<not> lt (f ! k) (f ! parent k)"
      using Suc.IH [OF _ f_def] Suc.prems(1) by auto
    have "rev [0..<length h div 2] ! m = i" using Suc.prems(1) by (simp add: rev_nth i_def)
    then have g: "g = heap_down lt f i (length h)"
      using Suc.prems IH(1) by (simp add: take_Suc_conv_app_nth flip: f_def)
    have "\<not> lt (g ! k) (g ! parent k)" if "k < length h" "0 < k" "i \<le> parent k" for k
      unfolding g
    proof (rule down_heap [of i])
      fix k assume "k < length h" "0 < k" "i \<le> parent k" "parent k \<noteq> i"
      then show "\<not> lt (f ! k) (f ! parent k)" by (intro IH(3)) (auto simp: i_def)
    next
      assume "0 < i" "i \<le> parent i"
      then have False using parent_less [of i] by linarith
      then show "\<not> lt (f ! k) (f ! parent i)" for k ..
    qed (use that IH(1) in auto)
    then show ?case using heap_down_perm [of "length h" f lt i] IH by (auto simp: g i_def)
  qed
  show "is_heap lt (heap_Init lt h)" "mset (heap_Init lt h) = mset h"
    using step [of "length h div 2"] by (simp_all add: heap_Init_def is_heap_def heap_below_def)
qed

end

end
