(* ===== verification/Merge.thy ===== *)
theory Merge
  imports Memtable Heap
begin

text \<open>
  The k-way merge that compaction and the replica snapshot share. Both keep a queue ordered by key
  and, within a key, newest first; both take the top, then drop everything else with that key. The
  relation \<open>merges\<close> is that protocol over an abstract queue, the locale \<open>merge_queue\<close> the contract of the
  queue, and its lemma says what comes out: one record per key, sorted, the newest version of each.
\<close>

section \<open>The order of the queue\<close>

definition version_less :: "Record \<Rightarrow> Record \<Rightarrow> bool" where
  "version_less a b =
     (if rKey a \<noteq> rKey b then rKey a < rKey b else rSeqNum a > rSeqNum b)"

lemma version_less_asym: "version_less a b \<Longrightarrow> \<not> version_less b a"
  by (auto simp: version_less_def split: if_splits)

lemma version_not_less_trans:
  assumes "\<not> version_less b a" "\<not> version_less c b"
  shows "\<not> version_less c a"
proof -
  have "rKey a \<le> rKey b" "rKey a = rKey b \<Longrightarrow> rSeqNum b \<le> rSeqNum a"
    "rKey b \<le> rKey c" "rKey b = rKey c \<Longrightarrow> rSeqNum c \<le> rSeqNum b"
    using assms by (auto simp: version_less_def not_less split: if_splits)
  then have "rKey a < rKey c \<or> rKey a = rKey c \<and> rSeqNum c \<le> rSeqNum a" by fastforce
  then show ?thesis by (auto simp: version_less_def)
qed

lemma version_not_less_iff:
  "\<not> version_less b a \<longleftrightarrow> rKey a < rKey b \<or> rKey a = rKey b \<and> rSeqNum b \<le> rSeqNum a"
  by (auto simp: version_less_def not_less)

section \<open>No two versions share a sequence number\<close>

definition no_ties :: "Record list \<Rightarrow> bool" where
  "no_ties rs \<longleftrightarrow>
     (\<forall>x \<in> set rs. \<forall>y \<in> set rs. rKey x = rKey y \<longrightarrow> rSeqNum x = rSeqNum y \<longrightarrow> x = y)"

lemma no_ties_subset: "no_ties rs \<Longrightarrow> set xs \<subseteq> set rs \<Longrightarrow> no_ties xs"
  unfolding no_ties_def by blast

lemma newest_no_ties:
  assumes "no_ties rs"
  shows "newest rs k = Some r \<longleftrightarrow>
    r \<in> set rs \<and> rKey r = k \<and> (\<forall>x \<in> set rs. rKey x = k \<longrightarrow> rSeqNum x \<le> rSeqNum r)"
proof
  assume "newest rs k = Some r"
  then show "r \<in> set rs \<and> rKey r = k \<and> (\<forall>x \<in> set rs. rKey x = k \<longrightarrow> rSeqNum x \<le> rSeqNum r)"
    using newest_SomeD by blast
next
  assume r: "r \<in> set rs \<and> rKey r = k \<and> (\<forall>x \<in> set rs. rKey x = k \<longrightarrow> rSeqNum x \<le> rSeqNum r)"
  show "newest rs k = Some r"
  proof (rule newest_unique)
    fix x assume "x \<in> set rs" "rKey x = k"
    then show "x = r \<or> rSeqNum x < rSeqNum r"
      using r assms unfolding no_ties_def by (metis order_le_less)
  qed (use r in auto)
qed

lemma newest_cong:
  assumes "no_ties rs" "no_ties xs" "{x \<in> set rs. rKey x = k} = {x \<in> set xs. rKey x = k}"
  shows "newest rs k = newest xs k"
proof (cases "newest xs k")
  case None
  then have "newest rs k = None" using assms(3) unfolding newest_None_iff by blast
  with None show ?thesis by simp
next
  case (Some r)
  then have "newest rs k = Some r"
    using assms(3) unfolding newest_no_ties [OF assms(1)] newest_no_ties [OF assms(2)] by blast
  with Some show ?thesis by simp
qed

text \<open>A sorted run is determined by its lookups.\<close>

lemma sorted_run_eqI:
  assumes "sorted_run xs" "sorted_run ys" "\<And>k. run_lookup xs k = run_lookup ys k"
  shows "xs = ys"
proof -
  have "r \<in> set xs \<longleftrightarrow> r \<in> set ys" for r
    using run_lookup_Some_iff [OF assms(1), of "rKey r" r] run_lookup_Some_iff [OF assms(2), of "rKey r" r]
      assms(3) [of "rKey r"] by simp
  then have "set xs = set ys" by blast
  moreover have "sorted_list_of_set (rKey ` set zs) = map rKey zs" if "sorted_run zs" for zs
    using sorted_list_of_set.idem_if_sorted_distinct [of "map rKey zs"] that
    by (simp add: sorted_run_def strict_sorted_iff)
  from this [OF assms(1)] this [OF assms(2)] calculation have keys: "map rKey xs = map rKey ys" by simp
  have "inj_on rKey (set xs \<union> set ys)"
    using \<open>set xs = set ys\<close> sorted_run_distinct [OF assms(1)] by (simp add: distinct_map)
  with keys show ?thesis by (rule map_inj_on)
qed

section \<open>The merge protocol\<close>

inductive drains :: "('s \<Rightarrow> Record option) \<Rightarrow> ('s \<Rightarrow> 's) \<Rightarrow> bytes \<Rightarrow> 's \<Rightarrow> 's \<Rightarrow> bool"
  for top :: "'s \<Rightarrow> Record option" and pop :: "'s \<Rightarrow> 's" and key :: bytes where
  drained: "(\<And>r. top s = Some r \<Longrightarrow> rKey r \<noteq> key) \<Longrightarrow> drains top pop key s s"
| drain: "top s = Some r \<Longrightarrow> rKey r = key \<Longrightarrow> drains top pop key (pop s) s' \<Longrightarrow> drains top pop key s s'"

inductive merges :: "('s \<Rightarrow> Record option) \<Rightarrow> ('s \<Rightarrow> 's) \<Rightarrow> 's \<Rightarrow> Record list \<Rightarrow> bool"
  for top :: "'s \<Rightarrow> Record option" and pop :: "'s \<Rightarrow> 's" where
  merged: "top s = None \<Longrightarrow> merges top pop s []"
| round: "top s = Some r \<Longrightarrow> drains top pop (rKey r) (pop s) s' \<Longrightarrow> merges top pop s' out \<Longrightarrow>
    merges top pop s (r # out)"

locale merge_queue =
  fixes top :: "'s \<Rightarrow> Record option"
    and pop :: "'s \<Rightarrow> 's"
    and pending :: "'s \<Rightarrow> Record list"
    and inv :: "'s \<Rightarrow> bool"
  assumes pop_inv: "inv s \<Longrightarrow> top s = Some r \<Longrightarrow> inv (pop s)"
    and top_None: "inv s \<Longrightarrow> top s = None \<Longrightarrow> pending s = []"
    and pop_pending: "inv s \<Longrightarrow> top s = Some r \<Longrightarrow> mset (pending s) = add_mset r (mset (pending (pop s)))"
    and top_first: "inv s \<Longrightarrow> top s = Some r \<Longrightarrow> x \<in> set (pending s) \<Longrightarrow> \<not> version_less x r"
begin

lemma set_pending:
  assumes "inv s" "top s = Some r"
  shows "set (pending s) = insert r (set (pending (pop s)))"
  using arg_cong [OF pop_pending [OF assms], of set_mset] by simp

lemma pop_keys:
  assumes "inv s" "top s = Some r"
  shows "\<forall>x \<in> set (pending (pop s)). rKey r \<le> rKey x"
proof
  fix x assume "x \<in> set (pending (pop s))"
  then have "x \<in> set (pending s)" using set_pending [OF assms] by simp
  from top_first [OF assms this] show "rKey r \<le> rKey x" by (auto simp: version_not_less_iff)
qed

lemma drains_spec:
  assumes "drains top pop key s s'" "inv s" "\<forall>x \<in> set (pending s). key \<le> rKey x"
  shows "inv s' \<and> set (pending s') = {x \<in> set (pending s). rKey x \<noteq> key}"
  using assms
proof (induction rule: drains.induct)
  case (drained s)
  have "rKey x \<noteq> key" if x: "x \<in> set (pending s)" for x
  proof (cases "top s")
    case None
    with top_None drained.prems x show ?thesis by simp
  next
    case (Some r)
    then have "r \<in> set (pending s)" using set_pending drained.prems(1) by auto
    with drained.prems(2) have "key \<le> rKey r" by blast
    with drained.hyps [OF Some] have "key < rKey r" by simp
    moreover have "rKey r \<le> rKey x"
      using top_first [OF drained.prems(1) Some x] by (auto simp: version_not_less_iff)
    ultimately show ?thesis by auto
  qed
  with drained.prems(1) show ?case by blast
next
  case (drain s r s')
  note pend = set_pending [OF drain.prems(1) drain.hyps(1)]
  have "\<forall>x \<in> set (pending (pop s)). key \<le> rKey x" using drain.prems(2) pend by simp
  with drain.IH [OF pop_inv [OF drain.prems(1) drain.hyps(1)]]
  have "inv s' \<and> set (pending s') = {x \<in> set (pending (pop s)). rKey x \<noteq> key}" by blast
  with pend drain.hyps(2) show ?case by auto
qed

lemma merges_spec:
  assumes "merges top pop s out" "inv s" "no_ties (pending s)"
  shows "sorted_run out \<and> set out \<subseteq> set (pending s) \<and> (\<forall>k. run_lookup out k = newest (pending s) k)"
  using assms
proof (induction rule: merges.induct)
  case (merged s)
  then show ?case using top_None [of s] by (simp add: sorted_run_def run_lookup_def newest_def)
next
  case (round s r s' out)
  have first: "\<And>x. x \<in> set (pending s) \<Longrightarrow> rKey r < rKey x \<or> rKey r = rKey x \<and> rSeqNum x \<le> rSeqNum r"
    using top_first [OF round.prems(1) round.hyps(1)] by (simp add: version_not_less_iff)
  have pend: "set (pending s) = insert r (set (pending (pop s)))"
    using set_pending [OF round.prems(1) round.hyps(1)] .
  note pop_keys [OF round.prems(1) round.hyps(1)]
  with drains_spec [OF round.hyps(2) pop_inv [OF round.prems(1) round.hyps(1)]]
  have dr: "inv s'" "set (pending s') = {x \<in> set (pending (pop s)). rKey x \<noteq> rKey r}" by blast+
  have rest: "set (pending s') = {x \<in> set (pending s). rKey x \<noteq> rKey r}" using dr(2) pend by auto
  have nt: "no_ties (pending s')" using round.prems(2) rest by (auto intro: no_ties_subset)
  note IH = round.IH [OF dr(1) nt]
  have "sorted_run (r # out)" using IH rest first by (fastforce simp: sorted_run_Cons)
  moreover have "newest (pending s) (rKey r) = Some r"
    unfolding newest_no_ties [OF round.prems(2)] using pend by (auto dest!: first)
  moreover have "newest (pending s) k = newest (pending s') k" if "k \<noteq> rKey r" for k
    using that rest by (intro newest_cong round.prems(2) nt) auto
  ultimately show ?case using IH rest pend by (auto simp: run_lookup_def)
qed

end

end
