(* ===== verification/Compact.thy ===== *)
theory Compact
  imports Merge Sstable
begin

text \<open>
  Package \<open>internal/compact\<close>: the merge of all tables into one. The heap entries, the cursor advance,
  the two loops and the drop of tombstones are as in \<open>compactor.go\<close>; the heap is the one of
  \<open>container/heap\<close>. The entry queue is an instance of \<open>merge_queue\<close>, which gives what is written.
\<close>

section \<open>Definitions\<close>

record entry =
  eRec :: Record
  srcIdx :: nat
  recIdx :: nat

definition mergeHeap_Less :: "entry \<Rightarrow> entry \<Rightarrow> bool" where
  "mergeHeap_Less a b = version_less (eRec a) (eRec b)"

definition advanceCursor :: "entry list \<Rightarrow> Record list list \<Rightarrow> nat \<Rightarrow> nat \<Rightarrow> entry list" where
  "advanceCursor h sources src idx =
     (let nxt = idx + 1
      in if nxt < length (sources ! src)
         then heap_Push mergeHeap_Less h \<lparr>eRec = sources ! src ! nxt, srcIdx = src, recIdx = nxt\<rparr>
         else h)"

text \<open>One pop with its cursor advance.\<close>

definition pop_advance :: "Record list list \<Rightarrow> entry list \<Rightarrow> entry list" where
  "pop_advance sources h =
     (case heap_Pop mergeHeap_Less h of
        (tp, h) \<Rightarrow> advanceCursor h sources (srcIdx tp) (recIdx tp))"

text \<open>The records the entries of the heap still stand for; the loops' termination measure.\<close>

definition cursor_load :: "Record list list \<Rightarrow> entry list \<Rightarrow> nat" where
  "cursor_load sources h = (\<Sum>e \<in># mset h. Suc (length (sources ! srcIdx e) - recIdx e))"

lemma mset_Pop: "h \<noteq> [] \<Longrightarrow> heap_Pop lt h = (x, g) \<Longrightarrow> mset h = add_mset x (mset g)"
proof -
  assume h: "h \<noteq> []" and pop: "heap_Pop lt h = (x, g)"
  define f where "f = heap_down lt (swap h 0 (length h - 1)) 0 (length h - 1)"
  have "mset f = mset h" "f \<noteq> []"
    using heap_down_perm [of "length h - 1" "swap h 0 (length h - 1)" lt 0] h
    by (auto simp: f_def mset_swap' simp flip: length_greater_0_conv)
  moreover have "x = last f" "g = butlast f" using pop by (auto simp: heap_Pop_def Let_def f_def)
  moreover have "mset (butlast f @ [last f]) = add_mset (last f) (mset (butlast f))" by simp
  ultimately show ?thesis by simp
qed

lemma mset_Push: "mset (heap_Push lt h x) = add_mset x (mset h)"
  unfolding heap_Push_def using heap_up_perm [of "length h" "h @ [x]" lt] by simp

lemma set_Push: "set (heap_Push lt h x) = insert x (set h)"
  using arg_cong [OF mset_Push [of lt h x], of set_mset] by simp

lemma cursor_load_pop:
  assumes "h \<noteq> []"
  shows "cursor_load sources (pop_advance sources h) < cursor_load sources h"
proof -
  obtain x g where pop: "heap_Pop mergeHeap_Less h = (x, g)" by fastforce
  show ?thesis using mset_Pop [OF assms pop]
    by (auto simp: pop_advance_def pop advanceCursor_def Let_def cursor_load_def mset_Push)
qed

text \<open>The inner loop drops the older versions of \<open>key\<close>.\<close>

function drain_loop :: "Record list list \<Rightarrow> bytes \<Rightarrow> entry list \<Rightarrow> entry list" where
  "drain_loop sources key h =
     (if h \<noteq> [] \<and> rKey (eRec (h ! 0)) = key
      then drain_loop sources key (pop_advance sources h) else h)"
  by pat_completeness auto
termination
  by (relation "measure (\<lambda>(sources, key, h). cursor_load sources h)") (auto simp: cursor_load_pop)

declare drain_loop.simps [simp del]

lemma cursor_load_drain: "cursor_load sources (drain_loop sources key h) \<le> cursor_load sources h"
proof (induction sources key h rule: drain_loop.induct)
  case (1 sources key h)
  show ?case
  proof (cases "h \<noteq> [] \<and> rKey (eRec (h ! 0)) = key")
    case True
    then show ?thesis
      using 1 [OF True] cursor_load_pop [of h sources] by (simp add: drain_loop.simps [of sources key h])
  qed (auto simp: drain_loop.simps [of sources key h])
qed

function merge_loop :: "Record list list \<Rightarrow> bool \<Rightarrow> entry list \<Rightarrow> Record list \<Rightarrow> Record list" where
  "merge_loop sources isBottomLevel h output =
     (if h = [] then output
      else let winner = eRec (fst (heap_Pop mergeHeap_Less h));
               h = drain_loop sources (rKey winner) (pop_advance sources h)
           in if rType winner = RecordTypeDelete \<and> isBottomLevel
              then merge_loop sources isBottomLevel h output
              else merge_loop sources isBottomLevel h (output @ [winner]))"
  by pat_completeness auto
termination
  by (relation "measure (\<lambda>(sources, isBottomLevel, h, output). cursor_load sources h)")
    (auto intro: le_less_trans [OF cursor_load_drain cursor_load_pop])

declare merge_loop.simps [simp del]

fun load_sources :: "Reader list \<Rightarrow> Record list list result" where
  "load_sources [] = Inr []"
| "load_sources (r # rs) =
     rbind (reader_LoadAll r) (\<lambda>recs. rbind (load_sources rs) (\<lambda>sources. Inr (recs # sources)))"

definition seed_heap :: "Record list list \<Rightarrow> entry list" where
  "seed_heap sources =
     foldl (\<lambda>h i. if sources ! i \<noteq> []
                 then heap_Push mergeHeap_Less h \<lparr>eRec = sources ! i ! 0, srcIdx = i, recIdx = 0\<rparr>
                 else h)
       (heap_Init mergeHeap_Less []) [0..<length sources]"

definition Compact :: "sizing \<Rightarrow> disk \<Rightarrow> Reader list \<Rightarrow> string \<Rightarrow> bool \<Rightarrow> disk \<times> nat result" where
  "Compact sizing d readers outputPath isBottomLevel =
     (if readers = [] then (d, Inr 0)
      else case load_sources readers of
             Inl e \<Rightarrow> (d, Inl e)
           | Inr sources \<Rightarrow>
               if sum_list (map length sources) = 0 then (d, Inr 0)
               else let output = merge_loop sources isBottomLevel (seed_heap sources) []
                    in if output = [] then (d, Inr 0)
                       else case sstable_Write sizing d outputPath output of
                              (d, Inl e) \<Rightarrow> (d, Inl e)
                            | (d, Inr _) \<Rightarrow> (d, Inr (length output)))"

section \<open>The entry queue\<close>

interpretation mh: heap_order mergeHeap_Less
  by unfold_locales
    (auto simp: mergeHeap_Less_def dest: version_less_asym version_not_less_trans)

definition queue_top :: "entry list \<Rightarrow> Record option" where
  "queue_top h = (if h = [] then None else Some (eRec (h ! 0)))"

text \<open>What an entry stands for: its record and the rest of its source.\<close>

definition entry_rest :: "Record list list \<Rightarrow> entry \<Rightarrow> Record list" where
  "entry_rest sources e = drop (recIdx e) (sources ! srcIdx e)"

definition queue_pending :: "Record list list \<Rightarrow> entry list \<Rightarrow> Record list" where
  "queue_pending sources h = concat (map (entry_rest sources) h)"

definition entry_ok :: "Record list list \<Rightarrow> entry \<Rightarrow> bool" where
  "entry_ok sources e \<longleftrightarrow> srcIdx e < length sources \<and> recIdx e < length (sources ! srcIdx e) \<and>
     eRec e = sources ! srcIdx e ! recIdx e"

definition queue_inv :: "Record list list \<Rightarrow> entry list \<Rightarrow> bool" where
  "queue_inv sources h \<longleftrightarrow> is_heap mergeHeap_Less h \<and> (\<forall>e \<in> set h. entry_ok sources e) \<and>
     (\<forall>src \<in> set sources. sorted_run src)"

lemma entry_rest_Cons:
  "entry_ok sources e \<Longrightarrow> entry_rest sources e = eRec e # drop (Suc (recIdx e)) (sources ! srcIdx e)"
  by (simp add: entry_ok_def entry_rest_def Cons_nth_drop_Suc)

lemma mset_queue_pending: "mset (queue_pending sources h) = (\<Sum>e \<in># mset h. mset (entry_rest sources e))"
  by (induction h) (auto simp: queue_pending_def)

lemma entry_rest_first:
  assumes "entry_ok sources e" "\<forall>src \<in> set sources. sorted_run src" "x \<in> set (entry_rest sources e)"
  shows "\<not> version_less x (eRec e)"
proof -
  have "sorted_run (sources ! srcIdx e)" using assms(1,2) by (simp add: entry_ok_def)
  then have "sorted_run (entry_rest sources e)" by (auto simp: entry_rest_def)
  with assms(1,3) show ?thesis
    by (auto simp: entry_rest_Cons sorted_run_Cons version_not_less_iff)
qed

lemma pop_advance_spec:
  assumes "queue_inv sources h" "h \<noteq> []"
  shows "queue_inv sources (pop_advance sources h)"
    and "mset (queue_pending sources h) = add_mset (eRec (h ! 0)) (mset (queue_pending sources (pop_advance sources h)))"
proof -
  have heap: "is_heap mergeHeap_Less h" using assms(1) by (simp add: queue_inv_def)
  note ps = mh.Pop_spec [OF heap assms(2)]
  define g where "g = snd (heap_Pop mergeHeap_Less h)"
  define tp where "tp = h ! 0"
  have ms: "mset h = add_mset tp (mset g)" using ps(3) by (simp add: g_def tp_def)
  have sets: "set h = insert tp (set g)" using arg_cong [OF ms, of set_mset] by simp
  have ok: "entry_ok sources tp" "\<forall>e \<in> set g. entry_ok sources e" using assms(1) sets by (auto simp: queue_inv_def)
  have pa: "pop_advance sources h = advanceCursor g sources (srcIdx tp) (recIdx tp)"
    using ps(1) by (auto simp: pop_advance_def g_def tp_def split: prod.split)
  let ?new = "\<lparr>eRec = sources ! srcIdx tp ! Suc (recIdx tp), srcIdx = srcIdx tp, recIdx = Suc (recIdx tp)\<rparr>"
  have heap': "is_heap mergeHeap_Less g" using ps(2) by (simp add: g_def)
  show "queue_inv sources (pop_advance sources h)"
  proof (cases "Suc (recIdx tp) < length (sources ! srcIdx tp)")
    case True
    then have eq: "pop_advance sources h = heap_Push mergeHeap_Less g ?new"
      by (simp add: pa advanceCursor_def Let_def)
    have "set (heap_Push mergeHeap_Less g ?new) = insert ?new (set g)" by (rule set_Push)
    moreover have "entry_ok sources ?new" using True ok(1) by (simp add: entry_ok_def)
    ultimately show ?thesis
      using assms(1) mh.Push_spec(1) [OF heap'] ok by (auto simp: queue_inv_def eq)
  next
    case False
    then have "pop_advance sources h = g" by (simp add: pa advanceCursor_def Let_def)
    then show ?thesis using assms(1) heap' ok by (auto simp: queue_inv_def)
  qed
  show "mset (queue_pending sources h) = add_mset (eRec (h ! 0)) (mset (queue_pending sources (pop_advance sources h)))"
    by (auto simp: mset_queue_pending ms pa advanceCursor_def Let_def mset_Push entry_rest_Cons [OF ok(1)]
        entry_rest_def [of _ ?new] simp flip: tp_def)
qed

interpretation cq: merge_queue queue_top "pop_advance sources" "queue_pending sources" "queue_inv sources"
proof
  fix s r x
  assume inv: "queue_inv sources s" and top: "queue_top s = Some r"
  then have ne: "s \<noteq> []" and r: "r = eRec (s ! 0)" by (auto simp: queue_top_def split: if_splits)
  show "queue_inv sources (pop_advance sources s)" by (rule pop_advance_spec(1) [OF inv ne])
  show "mset (queue_pending sources s) = add_mset r (mset (queue_pending sources (pop_advance sources s)))"
    unfolding r by (rule pop_advance_spec(2) [OF inv ne])
  assume "x \<in> set (queue_pending sources s)"
  then obtain e where e: "e \<in> set s" "x \<in> set (entry_rest sources e)" by (auto simp: queue_pending_def)
  then obtain i where i: "i < length s" "e = s ! i" by (auto simp: in_set_conv_nth)
  have "\<not> version_less (eRec e) r"
    using mh.root_least [of s i] inv i by (simp add: queue_inv_def mergeHeap_Less_def r)
  moreover have "\<not> version_less x (eRec e)"
    using entry_rest_first [of sources e x] inv e by (simp add: queue_inv_def)
  ultimately show "\<not> version_less x r" by (rule version_not_less_trans)
next
  fix s
  assume "queue_inv sources s" "queue_top s = None"
  then show "queue_pending sources s = []" by (simp add: queue_top_def queue_pending_def split: if_splits)
qed

section \<open>What the loops compute\<close>

lemma drain_loop_drains: "drains queue_top (pop_advance sources) key h (drain_loop sources key h)"
proof (induction sources key h rule: drain_loop.induct)
  case (1 sources key h)
  show ?case
  proof (cases "h \<noteq> [] \<and> rKey (eRec (h ! 0)) = key")
    case True
    with 1 [OF True] show ?thesis
      by (auto simp: drain_loop.simps [of sources key h] queue_top_def intro: drains.drain)
  next
    case False
    then show ?thesis
      by (auto simp: drain_loop.simps [of sources key h] queue_top_def intro!: drains.drained split: if_splits)
  qed
qed

text \<open>The drop of tombstones at the bottom level.\<close>

definition dropped :: "bool \<Rightarrow> Record \<Rightarrow> bool" where
  "dropped isBottomLevel r \<longleftrightarrow> rType r = RecordTypeDelete \<and> isBottomLevel"

lemma merge_loop_merges:
  assumes "queue_inv sources h"
  shows "\<exists>out. merges queue_top (pop_advance sources) h out \<and>
    merge_loop sources bottom h acc = acc @ filter (\<lambda>r. \<not> dropped bottom r) out"
  using assms
proof (induction "cursor_load sources h" arbitrary: h acc rule: less_induct)
  case less
  show ?case
  proof (cases "h = []")
    case True
    then show ?thesis
      by (intro exI [of _ "[]"]) (auto simp: merge_loop.simps [of _ _ "[]"] queue_top_def intro: merges.merged)
  next
    case False
    define w where "w = eRec (h ! 0)"
    define g where "g = drain_loop sources (rKey w) (pop_advance sources h)"
    have inv1: "queue_inv sources (pop_advance sources h)" by (rule pop_advance_spec(1) [OF less.prems False])
    have top: "queue_top h = Some w" using False by (simp add: queue_top_def w_def)
    have dr: "drains queue_top (pop_advance sources) (rKey w) (pop_advance sources h) g"
      unfolding g_def by (rule drain_loop_drains)
    have "queue_inv sources g" using cq.drains_spec [OF dr inv1 cq.pop_keys [OF less.prems top]] by blast
    moreover have "cursor_load sources g < cursor_load sources h"
      unfolding g_def using cursor_load_drain cursor_load_pop [OF False] by (rule le_less_trans)
    ultimately obtain out where out: "merges queue_top (pop_advance sources) g out"
      "merge_loop sources bottom g (acc @ (if dropped bottom w then [] else [w])) =
         (acc @ (if dropped bottom w then [] else [w])) @ filter (\<lambda>r. \<not> dropped bottom r) out"
      using less.hyps by blast
    have "fst (heap_Pop mergeHeap_Less h) = h ! 0"
      using mh.Pop_spec(1) less.prems False by (simp add: queue_inv_def)
    then have "merge_loop sources bottom h acc = merge_loop sources bottom g (acc @ (if dropped bottom w then [] else [w]))"
      using False by (simp add: merge_loop.simps [of _ _ h] Let_def g_def w_def dropped_def)
    then show ?thesis using out merges.round [where top = queue_top, OF top dr out(1)]
      by (intro exI [of _ "w # out"]) simp
  qed
qed

lemma seed_heap_spec:
  assumes "\<forall>src \<in> set sources. sorted_run src"
  shows "queue_inv sources (seed_heap sources)" "mset (queue_pending sources (seed_heap sources)) = mset (concat sources)"
proof -
  let ?f = "\<lambda>h i. if sources ! i \<noteq> []
    then heap_Push mergeHeap_Less h \<lparr>eRec = sources ! i ! 0, srcIdx = i, recIdx = 0\<rparr> else h"
  have "queue_inv sources (foldl ?f [] [0..<n]) \<and>
      mset (queue_pending sources (foldl ?f [] [0..<n])) = mset (concat (take n sources))"
    if "n \<le> length sources" for n
    using that
  proof (induction n)
    case 0
    then show ?case using assms by (simp add: queue_inv_def is_heap_def heap_below_def queue_pending_def)
  next
    case (Suc n)
    let ?h = "foldl ?f [] [0..<n]" and ?e = "\<lparr>eRec = sources ! n ! 0, srcIdx = n, recIdx = 0\<rparr>"
    have IH: "queue_inv sources ?h" "mset (queue_pending sources ?h) = mset (concat (take n sources))" using Suc by simp_all
    have set: "set (heap_Push mergeHeap_Less ?h ?e) = insert ?e (set ?h)" by (rule set_Push)
    have heap: "is_heap mergeHeap_Less (heap_Push mergeHeap_Less ?h ?e)"
      using mh.Push_spec(1) IH(1) by (simp add: queue_inv_def)
    have take: "take (Suc n) sources = take n sources @ [sources ! n]" using Suc.prems by (simp add: take_Suc_conv_app_nth)
    show ?case
      using IH Suc.prems heap
      by (auto simp: queue_inv_def set entry_ok_def take mset_queue_pending mset_Push entry_rest_def)
  qed
  from this [of "length sources"]
  show "queue_inv sources (seed_heap sources)" "mset (queue_pending sources (seed_heap sources)) = mset (concat sources)"
    by (simp_all add: seed_heap_def heap_Init_def)
qed

lemma merged_output:
  assumes "\<forall>src \<in> set sources. sorted_run src" "no_ties (concat sources)"
    and "out = merge_loop sources bottom (seed_heap sources) []"
  shows "sorted_run out" "set out \<subseteq> set (concat sources)"
    "run_lookup out k = (case newest (concat sources) k of
       None \<Rightarrow> None | Some r \<Rightarrow> if dropped bottom r then None else Some r)"
proof -
  note seed = seed_heap_spec [OF assms(1)]
  have set: "set (queue_pending sources (seed_heap sources)) = set (concat sources)"
    using arg_cong [OF seed(2), of set_mset] by simp
  then have nt: "no_ties (queue_pending sources (seed_heap sources))" using assms(2) by (auto intro: no_ties_subset)
  obtain all where all: "merges queue_top (pop_advance sources) (seed_heap sources) all"
    "out = filter (\<lambda>r. \<not> dropped bottom r) all"
    using merge_loop_merges [OF seed(1), of bottom "[]"] assms(3) by auto
  have spec: "sorted_run all" "set all \<subseteq> set (concat sources)"
    "run_lookup all k = newest (queue_pending sources (seed_heap sources)) k" for k
    using cq.merges_spec [OF all(1) seed(1) nt] set by auto
  show run: "sorted_run out" using spec(1) all(2) by auto
  show "set out \<subseteq> set (concat sources)" using spec(2) all(2) by auto
  have "newest (concat sources) k = run_lookup all k"
    unfolding spec(3) using set by (intro newest_cong assms(2) nt) simp
  then show "run_lookup out k = (case newest (concat sources) k of
       None \<Rightarrow> None | Some r \<Rightarrow> if dropped bottom r then None else Some r)"
    by (simp add: all(2) run_lookup_filter [OF spec(1)] split: option.split)
qed

lemma load_sources_tables: "list_all2 reads_table readers rss \<Longrightarrow> load_sources readers = Inr rss"
  by (induction readers rss rule: list_all2_induct) (simp_all add: reads_table_LoadAll)

lemma reads_table_sorted: "reads_table r rs \<Longrightarrow> sorted_run rs \<and> rs \<noteq> [] \<and> (\<forall>x \<in> set rs. fits x)"
  by (auto simp: reads_table_def table_ok_def)

lemma list_all2_tables:
  assumes "list_all2 reads_table readers rss" "rs \<in> set rss"
  shows "sorted_run rs \<and> rs \<noteq> [] \<and> (\<forall>x \<in> set rs. fits x)"
proof -
  obtain i where "i < length rss" "rs = rss ! i" using assms(2) by (auto simp: in_set_conv_nth [of rs])
  with list_all2_nthD2 [OF assms(1)] have "reads_table (readers ! i) rs" by simp
  then show ?thesis by (rule reads_table_sorted)
qed

text \<open>What \<open>Compact\<close> returns and writes, when it succeeds.\<close>

definition compacted :: "bool \<Rightarrow> Record list list \<Rightarrow> Record list \<Rightarrow> bool" where
  "compacted bottom rss out \<longleftrightarrow> sorted_run out \<and> set out \<subseteq> set (concat rss) \<and>
     (\<forall>k. run_lookup out k = (case newest (concat rss) k of
        None \<Rightarrow> None | Some r \<Rightarrow> if dropped bottom r then None else Some r))"

lemma Compact_cases:
  assumes "list_all2 reads_table readers rss" "readers \<noteq> []" "no_ties (concat rss)"
  obtains out where "compacted bottom rss out"
    "Compact sizing d readers path bottom =
       (if out = [] then (d, Inr 0)
        else case sstable_Write sizing d path out of
               (d, Inl e) \<Rightarrow> (d, Inl e) | (d, Inr _) \<Rightarrow> (d, Inr (length out)))"
proof -
  let ?out = "merge_loop rss bottom (seed_heap rss) []"
  have runs: "\<forall>src \<in> set rss. sorted_run src" using list_all2_tables [OF assms(1)] by blast
  have "rss \<noteq> []" using assms(1,2) by auto
  then have "sum_list (map length rss) \<noteq> 0"
    using list_all2_tables [OF assms(1), of "hd rss"] by (cases rss) auto
  then have "Compact sizing d readers path bottom = (if ?out = [] then (d, Inr 0)
        else case sstable_Write sizing d path ?out of
               (d, Inl e) \<Rightarrow> (d, Inl e) | (d, Inr _) \<Rightarrow> (d, Inr (length ?out)))"
    using assms(2) load_sources_tables [OF assms(1)] by (simp add: Compact_def Let_def del: sum_list_eq_0_iff)
  moreover have "compacted bottom rss ?out"
    unfolding compacted_def using merged_output [OF runs assms(3) refl] by blast
  ultimately show ?thesis using that by blast
qed

section \<open>Correctness\<close>

text \<open>
  C10: when \<open>Compact\<close> succeeds on open tables, its output is strictly sorted, holds for every key the
  newest version of any input and nothing else, except that at the bottom level tombstones are gone;
  it returns the number of records written, and writes no file for an empty output.
\<close>

theorem Compact_correct:
  assumes "list_all2 reads_table readers rss" "readers \<noteq> []" "no_ties (concat rss)"
    and "Compact sizing d readers path bottom = (d', Inr n)"
  shows "\<exists>out. sorted_run out \<and> n = length out \<and>
    run_lookup out k = (case newest (concat rss) k of
      None \<Rightarrow> None | Some r \<Rightarrow> if rType r = RecordTypeDelete \<and> bottom then None else Some r) \<and>
    (if out = [] then d' = d else sstable_Write sizing d path out = (d', Inr ()))"
proof -
  obtain out where out: "compacted bottom rss out"
    "Compact sizing d readers path bottom =
       (if out = [] then (d, Inr 0)
        else case sstable_Write sizing d path out of
               (d, Inl e) \<Rightarrow> (d, Inl e) | (d, Inr _) \<Rightarrow> (d, Inr (length out)))"
    using Compact_cases [OF assms(1-3)] by blast
  have "run_lookup out k = (case newest (concat rss) k of
      None \<Rightarrow> None | Some r \<Rightarrow> if dropped bottom r then None else Some r)"
    using out(1) unfolding compacted_def by blast
  with out(1) assms(4) show ?thesis
    unfolding out(2) compacted_def dropped_def
    by (intro exI [of _ out]) (auto split: if_splits prod.splits sum.splits)
qed

text \<open>A reader of a table of one tombstone, on which everything is dropped.\<close>

definition tomb_run :: "Record list" where
  "tomb_run = [\<lparr>rKey = [98], rValue = [], rSeqNum = 4, rType = RecordTypeDelete\<rparr>]"

lemma tomb_reader: "\<exists>r. reads_table r tomb_run"
proof -
  have ok: "tomb_run \<noteq> []" "sorted_run tomb_run" "\<forall>r \<in> set tomb_run. fits r" "weight tomb_run \<le> 2 ^ 43"
    by (simp_all add: tomb_run_def sorted_run_def fits_def record_size_def recordHeaderSize_def)
  have "healthy empty_disk" by (simp add: healthy_def empty_disk_def)
  from sstable_Write_total [OF this good_sizing_sized(1) [OF good_sizing10 ok(1,4)] ok(1)]
  obtain d where "sstable_Write sizing10 empty_disk ''t'' tomb_run = (d, Inr ())" by blast
  from Write_reads_table [OF this ok(1) good_sizing10 ok(2,3,4)] show ?thesis by blast
qed

theorem Compact_correct_witness:
  "\<exists>r n. Compact sizing10 empty_disk [r] ''out.sst'' True = (empty_disk, Inr n) \<and> n = 0 \<and> reads_table r tomb_run"
proof -
  obtain r where r: "reads_table r tomb_run" using tomb_reader by blast
  then have l: "list_all2 reads_table [r] [tomb_run]" by simp
  have nt: "no_ties (concat [tomb_run])" by (simp add: no_ties_def tomb_run_def)
  obtain out where out: "compacted True [tomb_run] out"
    "Compact sizing10 empty_disk [r] ''out.sst'' True =
       (if out = [] then (empty_disk, Inr 0)
        else case sstable_Write sizing10 empty_disk ''out.sst'' out of
               (d, Inl e) \<Rightarrow> (d, Inl e) | (d, Inr _) \<Rightarrow> (d, Inr (length out)))"
    using Compact_cases [OF l _ nt, of True sizing10 empty_disk "''out.sst''"] by blast
  have "out = []"
  proof (rule ccontr)
    assume "out \<noteq> []"
    then obtain x xs where "out = x # xs" by (cases out) auto
    then have "run_lookup out (rKey x) = Some x" by (simp add: run_lookup_def)
    moreover have "x \<in> set tomb_run" using out(1) \<open>out = x # xs\<close> by (auto simp: compacted_def)
    ultimately show False using out(1)
      by (auto simp: compacted_def tomb_run_def newest_def pick_def dropped_def split: option.splits if_splits)
  qed
  with out(2) have c: "Compact sizing10 empty_disk [r] ''out.sst'' True = (empty_disk, Inr 0)" by simp
  from Compact_correct [OF l _ nt c, of "[98]"] r c show ?thesis by auto
qed

end
