(* ===== verification/Json.thy ===== *)
theory Json
  imports Disk
begin

text \<open>
  What the source uses of \<open>encoding/json\<close>: \<open>Marshal\<close> and \<open>MarshalIndent\<close> of the structs it stores
  (objects, arrays, strings, non-negative integers, booleans) and \<open>Unmarshal\<close> into them. Documents
  are trees of type \<open>json\<close>; a number keeps its literal, because the decoder parses it for the type of
  the Go field. The parser takes fuel, one unit per nested value or list element, and \<open>json_parse\<close>
  gives it the length of the input, which the round-trip lemma shows to be enough.
\<close>

section \<open>Text\<close>

definition asc :: "string \<Rightarrow> bytes" where
  "asc s = map (\<lambda>c. word_of_nat (of_char c)) s"

definition unasc :: "bytes \<Rightarrow> string" where
  "unasc bs = map (\<lambda>b. char_of (unat b)) bs"

lemma unasc_asc [simp]: "unasc (asc s) = s"
proof -
  have "char_of (unat (word_of_nat (of_char c) :: byte)) = c" for c :: char
  proof -
    have "of_char c mod 256 < (256 :: nat)" by simp
    then have "of_char c < (2 ^ 8 :: nat)" by (simp only: of_char_mod_256) simp
    then show ?thesis by (simp add: unat_of_nat)
  qed
  then show ?thesis by (simp add: asc_def unasc_def comp_def)
qed

lemma asc_inj: "asc s = asc t \<longleftrightarrow> s = t"
  by (metis unasc_asc)

lemma asc_append: "asc (s @ t) = asc s @ asc t"
  by (simp add: asc_def)

text \<open>The first rune of a byte string and its width; \<open>None\<close> is an invalid encoding (width one).\<close>

definition cont :: "byte \<Rightarrow> bool" where
  "cont b \<longleftrightarrow> 128 \<le> b \<and> b \<le> 191"

definition utf8_decode :: "bytes \<Rightarrow> (nat \<times> nat) option" where
  "utf8_decode s =
     (let x = (\<lambda>i. unat (s ! i)); c = (\<lambda>i. i < length s \<and> cont (s ! i)); b = unat (s ! 0)
      in if b < 128 then Some (b, 1)
         else if 194 \<le> b \<and> b \<le> 223 \<and> c 1 then Some ((b - 192) * 64 + (x 1 - 128), 2)
         else if 224 \<le> b \<and> b \<le> 239 \<and> c 1 \<and> c 2 \<and> (b = 224 \<longrightarrow> 160 \<le> x 1) \<and> (b = 237 \<longrightarrow> x 1 \<le> 159)
         then Some ((b - 224) * 4096 + (x 1 - 128) * 64 + (x 2 - 128), 3)
         else if 240 \<le> b \<and> b \<le> 244 \<and> c 1 \<and> c 2 \<and> c 3 \<and> (b = 240 \<longrightarrow> 144 \<le> x 1) \<and> (b = 244 \<longrightarrow> x 1 \<le> 143)
         then Some ((b - 240) * 262144 + (x 1 - 128) * 4096 + (x 2 - 128) * 64 + (x 3 - 128), 4)
         else None)"

lemma utf8_decode_width: "utf8_decode s = Some (r, w) \<Longrightarrow> 0 < w"
  by (auto simp: utf8_decode_def Let_def split: if_splits)

definition utf8_encode :: "nat \<Rightarrow> bytes" where
  "utf8_encode r =
     (if r < 128 then [word_of_nat r]
      else if r < 2048 then [word_of_nat (192 + r div 64), word_of_nat (128 + r mod 64)]
      else if r < 65536
      then [word_of_nat (224 + r div 4096), word_of_nat (128 + r div 64 mod 64), word_of_nat (128 + r mod 64)]
      else [word_of_nat (240 + r div 262144), word_of_nat (128 + r div 4096 mod 64),
            word_of_nat (128 + r div 64 mod 64), word_of_nat (128 + r mod 64)])"

definition runeError :: bytes where
  "runeError = [239, 191, 189]"

section \<open>Printing\<close>

datatype json = JNull | JBool bool | JNum bytes | JStr bytes | JArr "json list" | JObj "(bytes \<times> json) list"

definition hex_digit :: "nat \<Rightarrow> byte" where
  "hex_digit n = (if n < 10 then word_of_nat (48 + n) else word_of_nat (87 + n))"

text \<open>An ASCII byte inside a string literal: the HTML characters and control characters are escaped.\<close>

definition escape_byte :: "byte \<Rightarrow> bytes" where
  "escape_byte b =
     (if b = 34 \<or> b = 92 then [92, b]
      else if b = 8 then [92, 98] else if b = 12 then [92, 102] else if b = 10 then [92, 110]
      else if b = 13 then [92, 114] else if b = 9 then [92, 116]
      else if b < 32 \<or> b = 60 \<or> b = 62 \<or> b = 38
      then [92, 117, 48, 48, hex_digit (unat b div 16), hex_digit (unat b mod 16)]
      else [b])"

function escape_string :: "bytes \<Rightarrow> bytes" where
  "escape_string s =
     (case s of
        [] \<Rightarrow> []
      | b # r \<Rightarrow>
          if b < 128 then escape_byte b @ escape_string r
          else case utf8_decode s of
                 None \<Rightarrow> [92, 117, 102, 102, 102, 100] @ escape_string r
               | Some (rune, w) \<Rightarrow>
                   (if rune = 8232 \<or> rune = 8233
                    then [92, 117, 50, 48, 50, hex_digit (rune mod 16)]
                    else take w s) @ escape_string (drop w s))"
  by pat_completeness auto
termination
  by (relation "measure length") (auto dest: utf8_decode_width)

declare escape_string.simps [simp del]

definition quote :: "bytes \<Rightarrow> bytes" where
  "quote s = [34] @ escape_string s @ [34]"

fun join :: "bytes \<Rightarrow> bytes list \<Rightarrow> bytes" where
  "join sep [] = []"
| "join sep [x] = x"
| "join sep (x # y # xs) = x @ sep @ join sep (y # xs)"

text \<open>
  \<open>nl d\<close> is the line break before an element at depth \<open>d\<close> and \<open>sp\<close> the space after a colon: both are
  empty for \<open>Marshal\<close>.
\<close>

fun print_json :: "(nat \<Rightarrow> bytes) \<Rightarrow> bytes \<Rightarrow> nat \<Rightarrow> json \<Rightarrow> bytes" where
  "print_json nl sp d JNull = asc ''null''"
| "print_json nl sp d (JBool b) = asc (if b then ''true'' else ''false'')"
| "print_json nl sp d (JNum t) = t"
| "print_json nl sp d (JStr s) = quote s"
| "print_json nl sp d (JArr vs) =
     (if vs = [] then [91, 93]
      else [91] @ nl (d + 1) @ join ([44] @ nl (d + 1)) (map (print_json nl sp (d + 1)) vs) @ nl d @ [93])"
| "print_json nl sp d (JObj ms) =
     (if ms = [] then [123, 125]
      else [123] @ nl (d + 1) @
           join ([44] @ nl (d + 1)) (map (\<lambda>(k, v). quote k @ [58] @ sp @ print_json nl sp (d + 1) v) ms) @
           nl d @ [125])"

definition json_Marshal :: "json \<Rightarrow> bytes" where
  "json_Marshal j = print_json (\<lambda>_. []) [] 0 j"

text \<open>\<open>MarshalIndent(v, "", "  ")\<close>.\<close>

definition json_MarshalIndent :: "json \<Rightarrow> bytes" where
  "json_MarshalIndent j = print_json (\<lambda>d. 10 # replicate (2 * d) 32) [32] 0 j"

section \<open>Parsing\<close>

definition is_ws :: "byte \<Rightarrow> bool" where
  "is_ws b \<longleftrightarrow> b = 32 \<or> b = 9 \<or> b = 10 \<or> b = 13"

definition skip_ws :: "bytes \<Rightarrow> bytes" where
  "skip_ws s = dropWhile is_ws s"

definition is_digit :: "byte \<Rightarrow> bool" where
  "is_digit b \<longleftrightarrow> 48 \<le> b \<and> b \<le> 57"

definition hex_val :: "byte \<Rightarrow> nat option" where
  "hex_val b =
     (if is_digit b then Some (unat b - 48)
      else if 97 \<le> b \<and> b \<le> 102 then Some (unat b - 87)
      else if 65 \<le> b \<and> b \<le> 70 then Some (unat b - 55) else None)"

definition getu4 :: "bytes \<Rightarrow> nat option" where
  "getu4 s =
     (if length s < 4 then None
      else case (hex_val (s ! 0), hex_val (s ! 1), hex_val (s ! 2), hex_val (s ! 3)) of
             (Some a, Some b, Some c, Some d) \<Rightarrow> Some (a * 4096 + b * 256 + c * 16 + d)
           | _ \<Rightarrow> None)"

definition is_surrogate :: "nat \<Rightarrow> bool" where
  "is_surrogate r \<longleftrightarrow> 55296 \<le> r \<and> r < 57344"

definition utf16_decode :: "nat \<Rightarrow> nat \<Rightarrow> nat option" where
  "utf16_decode a b =
     (if 55296 \<le> a \<and> a < 56320 \<and> 56320 \<le> b \<and> b < 57344
      then Some ((a - 55296) * 1024 + (b - 56320) + 65536) else None)"

definition unescape :: "byte \<Rightarrow> byte option" where
  "unescape c =
     (if c = 34 \<or> c = 92 \<or> c = 47 then Some c
      else if c = 98 then Some 8 else if c = 102 then Some 12 else if c = 110 then Some 10
      else if c = 114 then Some 13 else if c = 116 then Some 9 else None)"

definition prepend :: "bytes \<Rightarrow> (bytes \<times> bytes) option \<Rightarrow> (bytes \<times> bytes) option" where
  "prepend p r = map_option (\<lambda>(s, rest). (p @ s, rest)) r"

text \<open>The rest of a string literal after its opening quote: its value and what follows it.\<close>

function parse_string :: "bytes \<Rightarrow> (bytes \<times> bytes) option" where
  "parse_string s =
     (case s of
        [] \<Rightarrow> None
      | b # r \<Rightarrow>
          if b = 34 then Some ([], r)
          else if b = 92
          then (case r of
                  [] \<Rightarrow> None
                | c # t \<Rightarrow>
                    if c = 117
                    then (case getu4 t of
                            None \<Rightarrow> None
                          | Some rr \<Rightarrow>
                              if \<not> is_surrogate rr then prepend (utf8_encode rr) (parse_string (drop 4 t))
                              else (case (if take 2 (drop 4 t) = [92, 117] then getu4 (drop 6 t) else None) of
                                      None \<Rightarrow> prepend runeError (parse_string (drop 4 t))
                                    | Some rr1 \<Rightarrow>
                                        (case utf16_decode rr rr1 of
                                           None \<Rightarrow> prepend runeError (parse_string (drop 4 t))
                                         | Some dec \<Rightarrow> prepend (utf8_encode dec) (parse_string (drop 10 t)))))
                    else (case unescape c of
                            None \<Rightarrow> None
                          | Some x \<Rightarrow> prepend [x] (parse_string t)))
          else if b < 32 then None
          else if b < 128 then prepend [b] (parse_string r)
          else (case utf8_decode s of
                  None \<Rightarrow> prepend runeError (parse_string r)
                | Some (rune, w) \<Rightarrow> prepend (take w s) (parse_string (drop w s))))"
  by pat_completeness auto
termination
  by (relation "measure length") (auto dest: utf8_decode_width)

declare parse_string.simps [simp del]

text \<open>A number literal: sign, integer part, fraction, exponent.\<close>

definition span_digits :: "bytes \<Rightarrow> bytes \<times> bytes" where
  "span_digits s = (takeWhile is_digit s, dropWhile is_digit s)"

definition parse_int_part :: "bytes \<Rightarrow> (bytes \<times> bytes) option" where
  "parse_int_part s =
     (case s of
        [] \<Rightarrow> None
      | b # r \<Rightarrow> if b = 48 then Some ([b], r) else if is_digit b then Some (span_digits s) else None)"

definition parse_frac :: "bytes \<Rightarrow> (bytes \<times> bytes) option" where
  "parse_frac s =
     (case s of
        [] \<Rightarrow> Some ([], s)
      | b # r \<Rightarrow>
          if b = 46 then (case span_digits r of (ds, t) \<Rightarrow> if ds = [] then None else Some (b # ds, t))
          else Some ([], s))"

definition parse_exp :: "bytes \<Rightarrow> (bytes \<times> bytes) option" where
  "parse_exp s =
     (case s of
        [] \<Rightarrow> Some ([], s)
      | b # r \<Rightarrow>
          if b = 101 \<or> b = 69
          then (let sg = takeWhile (\<lambda>c. c = 43 \<or> c = 45) (take 1 r) in
                case span_digits (drop (length sg) r) of
                  (ds, t) \<Rightarrow> if ds = [] then None else Some (b # sg @ ds, t))
          else Some ([], s))"

definition parse_number :: "bytes \<Rightarrow> (bytes \<times> bytes) option" where
  "parse_number s =
     (let sg = takeWhile (\<lambda>c. c = 45) (take 1 s) in
      case parse_int_part (drop (length sg) s) of
        None \<Rightarrow> None
      | Some (ip, s1) \<Rightarrow>
          (case parse_frac s1 of
             None \<Rightarrow> None
           | Some (fp, s2) \<Rightarrow>
               (case parse_exp s2 of
                  None \<Rightarrow> None
                | Some (ep, s3) \<Rightarrow> Some (sg @ ip @ fp @ ep, s3))))"

definition parse_word :: "string \<Rightarrow> json \<Rightarrow> bytes \<Rightarrow> (json \<times> bytes) option" where
  "parse_word w j s = (if take (length w) s = asc w then Some (j, drop (length w) s) else None)"

fun parse_value :: "nat \<Rightarrow> bytes \<Rightarrow> (json \<times> bytes) option"
  and parse_elems :: "nat \<Rightarrow> bytes \<Rightarrow> (json list \<times> bytes) option"
  and parse_members :: "nat \<Rightarrow> bytes \<Rightarrow> ((bytes \<times> json) list \<times> bytes) option" where
  "parse_value 0 s = None"
| "parse_value (Suc n) s =
     (case skip_ws s of
        [] \<Rightarrow> None
      | b # r \<Rightarrow>
          if b = 123
          then (if take 1 (skip_ws r) = [125] then Some (JObj [], drop 1 (skip_ws r))
                else map_option (\<lambda>(ms, t). (JObj ms, t)) (parse_members n r))
          else if b = 91
          then (if take 1 (skip_ws r) = [93] then Some (JArr [], drop 1 (skip_ws r))
                else map_option (\<lambda>(vs, t). (JArr vs, t)) (parse_elems n r))
          else if b = 34 then map_option (\<lambda>(v, t). (JStr v, t)) (parse_string r)
          else if b = 45 \<or> is_digit b then map_option (\<lambda>(v, t). (JNum v, t)) (parse_number (b # r))
          else if b = 110 then parse_word ''null'' JNull (b # r)
          else if b = 116 then parse_word ''true'' (JBool True) (b # r)
          else if b = 102 then parse_word ''false'' (JBool False) (b # r)
          else None)"
| "parse_elems 0 s = None"
| "parse_elems (Suc n) s =
     (case parse_value n s of
        None \<Rightarrow> None
      | Some (v, t) \<Rightarrow>
          (case skip_ws t of
             [] \<Rightarrow> None
           | b # t \<Rightarrow>
               if b = 44 then map_option (\<lambda>(vs, t). (v # vs, t)) (parse_elems n t)
               else if b = 93 then Some ([v], t) else None))"
| "parse_members 0 s = None"
| "parse_members (Suc n) s =
     (case skip_ws s of
        [] \<Rightarrow> None
      | b # r \<Rightarrow>
          if b \<noteq> 34 then None
          else case parse_string r of
                 None \<Rightarrow> None
               | Some (k, t) \<Rightarrow>
                   (case skip_ws t of
                      [] \<Rightarrow> None
                    | c # t \<Rightarrow>
                        if c \<noteq> 58 then None
                        else case parse_value n t of
                               None \<Rightarrow> None
                             | Some (v, t) \<Rightarrow>
                                 (case skip_ws t of
                                    [] \<Rightarrow> None
                                  | b # t \<Rightarrow>
                                      if b = 44 then map_option (\<lambda>(ms, t). ((k, v) # ms, t)) (parse_members n t)
                                      else if b = 125 then Some ([(k, v)], t) else None)))"

text \<open>\<open>Unmarshal\<close> accepts one value, with white space around it.\<close>

definition json_parse :: "bytes \<Rightarrow> json option" where
  "json_parse s =
     (case parse_value (Suc (length s)) s of
        None \<Rightarrow> None
      | Some (j, t) \<Rightarrow> if skip_ws t = [] then Some j else None)"

section \<open>Fields of a struct\<close>

text \<open>Keys match field names without regard to (ASCII) case; the last occurrence counts.\<close>

definition fold_case :: "bytes \<Rightarrow> bytes" where
  "fold_case s = map (\<lambda>b. if 97 \<le> b \<and> b \<le> 122 then b - 32 else b) s"

definition key_is :: "string \<Rightarrow> bytes \<Rightarrow> bool" where
  "key_is name k \<longleftrightarrow> fold_case k = fold_case (asc name)"

definition parse_nat :: "bytes \<Rightarrow> nat option" where
  "parse_nat s =
     (if s \<noteq> [] \<and> list_all is_digit s then Some (foldl (\<lambda>a b. a * 10 + (unat b - 48)) 0 s) else None)"

text \<open>Decoding into a field that holds \<open>old\<close>: \<open>null\<close> leaves it, a value of the wrong type is an error.\<close>

definition get_uint64 :: "u64 \<Rightarrow> json \<Rightarrow> u64 option" where
  "get_uint64 old j =
     (case j of
        JNull \<Rightarrow> Some old
      | JNum t \<Rightarrow>
          (case parse_nat t of
             None \<Rightarrow> None
           | Some n \<Rightarrow> if n < 2 ^ 64 then Some (word_of_nat n) else None)
      | _ \<Rightarrow> None)"

definition get_int :: "int \<Rightarrow> json \<Rightarrow> int option" where
  "get_int old j =
     (case j of
        JNull \<Rightarrow> Some old
      | JNum t \<Rightarrow>
          (let neg = (take 1 t = [45]) in
           case parse_nat (if neg then drop 1 t else t) of
             None \<Rightarrow> None
           | Some n \<Rightarrow>
               if neg then (if n \<le> 2 ^ 63 then Some (- int n) else None)
               else if n < 2 ^ 63 then Some (int n) else None)
      | _ \<Rightarrow> None)"

definition get_bool :: "bool \<Rightarrow> json \<Rightarrow> bool option" where
  "get_bool old j = (case j of JNull \<Rightarrow> Some old | JBool b \<Rightarrow> Some b | _ \<Rightarrow> None)"

definition get_string :: "bytes \<Rightarrow> json \<Rightarrow> bytes option" where
  "get_string old j = (case j of JNull \<Rightarrow> Some old | JStr s \<Rightarrow> Some s | _ \<Rightarrow> None)"

fun get_list :: "(json \<Rightarrow> 'a option) \<Rightarrow> json list \<Rightarrow> 'a list option" where
  "get_list f [] = Some []"
| "get_list f (v # vs) =
     (case f v of None \<Rightarrow> None | Some x \<Rightarrow> map_option (\<lambda>xs. x # xs) (get_list f vs))"

definition get_slice :: "(json \<Rightarrow> 'a option) \<Rightarrow> json \<Rightarrow> 'a list option" where
  "get_slice f j = (case j of JNull \<Rightarrow> Some [] | JArr vs \<Rightarrow> get_list f vs | _ \<Rightarrow> None)"

definition num :: "nat \<Rightarrow> json" where
  "num n = JNum (asc (show_nat n))"

section \<open>Round trip\<close>

definition ascii :: "bytes \<Rightarrow> bool" where
  "ascii s \<longleftrightarrow> (\<forall>b \<in> set s. b < 128)"

lemma hex_val_digit: "n < 16 \<Longrightarrow> hex_val (hex_digit n) = Some n"
proof -
  assume "n < 16"
  moreover have "\<forall>n \<in> set [0..<16]. hex_val (hex_digit n) = Some n" by code_simp
  ultimately show ?thesis by simp
qed

lemma prepend_Some [simp]: "prepend p (Some (s, r)) = Some (p @ s, r)"
  by (simp add: prepend_def)

lemma parse_string_u:
  "getu4 t = Some rr \<Longrightarrow> rr < 128 \<Longrightarrow>
    parse_string (92 # 117 # t) = prepend [word_of_nat rr] (parse_string (drop 4 t))"
  by (subst parse_string.simps) (simp add: is_surrogate_def utf8_encode_def)

lemma parse_string_u00:
  assumes "b < 128"
  shows "parse_string (92 # 117 # 48 # 48 # hex_digit (unat b div 16) # hex_digit (unat b mod 16) # t) =
    prepend [b] (parse_string t)"
proof -
  have b: "unat b < 128" using assms by (simp add: word_less_nat_alt)
  then have "hex_val (hex_digit (unat b div 16)) = Some (unat b div 16)"
    "hex_val (hex_digit (unat b mod 16)) = Some (unat b mod 16)"
    by (auto intro!: hex_val_digit)
  then have "getu4 (48 # 48 # hex_digit (unat b div 16) # hex_digit (unat b mod 16) # t) = Some (unat b)"
    by (simp add: getu4_def hex_val_def [of 48] is_digit_def)
  from parse_string_u [OF this b] show ?thesis by simp
qed

lemma parse_escape_byte:
  assumes "b < 128"
  shows "parse_string (escape_byte b @ t) = prepend [b] (parse_string t)"
proof (cases "b \<noteq> 34 \<and> b \<noteq> 92 \<and> b \<noteq> 8 \<and> b \<noteq> 12 \<and> b \<noteq> 10 \<and> b \<noteq> 13 \<and> b \<noteq> 9 \<and>
    (b < 32 \<or> b = 60 \<or> b = 62 \<or> b = 38)")
  case True
  then show ?thesis using parse_string_u00 [OF assms] by (simp add: escape_byte_def)
next
  case False
  show ?thesis
  proof (cases "b = 34 \<or> b = 92 \<or> b = 8 \<or> b = 12 \<or> b = 10 \<or> b = 13 \<or> b = 9")
    case True
    then show ?thesis
      by (elim disjE) (subst parse_string.simps, simp add: escape_byte_def unescape_def)+
  next
    case no: False
    then have "\<not> b < 32" "escape_byte b = [b]" using False by (auto simp: escape_byte_def)
    then show ?thesis using no assms by (subst parse_string.simps) simp
  qed
qed

lemma parse_escape_string: "ascii s \<Longrightarrow> parse_string (escape_string s @ 34 # rest) = Some (s, rest)"
proof (induction s)
  case Nil
  show ?case by (simp add: escape_string.simps [of "[]"]) (simp add: parse_string.simps)
next
  case (Cons b s)
  then have "escape_string (b # s) = escape_byte b @ escape_string s"
    by (simp add: ascii_def escape_string.simps [of "b # s"])
  with Cons show ?case by (simp add: ascii_def parse_escape_byte)
qed

text \<open>Integer literals.\<close>

lemma is_digit_show: "n < 10 \<Longrightarrow> is_digit (word_of_nat (48 + n) :: byte)"
proof -
  assume "n < 10"
  moreover have "\<forall>n \<in> set [0..<10]. is_digit (word_of_nat (48 + n))" by code_simp
  ultimately show ?thesis by simp
qed

lemma asc_show_nat:
  "asc (show_nat n) =
     (if n < 10 then [word_of_nat (48 + n)] else asc (show_nat (n div 10)) @ [word_of_nat (48 + n mod 10)])"
proof -
  have "(of_char (char_of (48 + m) :: char) :: nat) = 48 + m" if "m < 10" for m :: nat
    using that by simp
  then show ?thesis by (subst show_nat.simps) (simp add: asc_def)
qed

lemma digits_show_nat: "list_all is_digit (asc (show_nat n)) \<and> asc (show_nat n) \<noteq> []"
proof (induction n rule: less_induct)
  case (less n)
  show ?case
    by (subst (1 2) asc_show_nat) (use less [of "n div 10"] in \<open>auto simp del: of_nat_add intro!: is_digit_show\<close>)
qed

lemma show_nat_Cons:
  obtains b r where "asc (show_nat n) = b # r" "is_digit b"
  using digits_show_nat [of n] by (cases "asc (show_nat n)") auto

lemma digit_val: "n < 10 \<Longrightarrow> unat (word_of_nat (48 + n) :: byte) - 48 = n"
proof -
  assume "n < 10"
  moreover have "\<forall>n \<in> set [0..<10]. unat (word_of_nat (48 + n) :: byte) - 48 = n" by code_simp
  ultimately show ?thesis by simp
qed

lemma parse_nat_show [simp]: "parse_nat (asc (show_nat n)) = Some n"
proof -
  have "foldl (\<lambda>a b. a * 10 + (unat (b :: byte) - 48)) 0 (asc (show_nat n)) = n"
  proof (induction n rule: less_induct)
    case (less n)
    show ?case
      by (subst asc_show_nat) (use less [of "n div 10"] in \<open>auto simp del: of_nat_add simp: digit_val\<close>)
  qed
  then show ?thesis using digits_show_nat [of n] by (simp add: parse_nat_def)
qed

text \<open>No leading zero, so the literal is read as a whole.\<close>

lemma show_nat_head: "0 < n \<Longrightarrow> hd (asc (show_nat n)) \<noteq> 48"
proof (induction n rule: less_induct)
  case (less n)
  show ?case
  proof (cases "n < 10")
    case True
    moreover have "\<forall>n \<in> set [1..<10]. word_of_nat (48 + n) \<noteq> (48 :: byte)" by code_simp
    ultimately have "word_of_nat (48 + n) \<noteq> (48 :: byte)" using less.prems by simp
    then show ?thesis using True by (subst asc_show_nat) (simp del: of_nat_add)
  next
    case False
    then have "hd (asc (show_nat n)) = hd (asc (show_nat (n div 10)))"
      using digits_show_nat [of "n div 10"] by (subst asc_show_nat) simp
    with False less.IH [of "n div 10"] show ?thesis by simp
  qed
qed

text \<open>What may follow a printed value.\<close>

definition delim :: "bytes \<Rightarrow> bool" where
  "delim s \<longleftrightarrow> s = [] \<or> hd s \<in> {44, 93, 125, 10, 32}"

lemma parse_number_show:
  assumes "delim rest"
  shows "parse_number (asc (show_nat n) @ rest) = Some (asc (show_nat n), rest)"
proof -
  define t where "t = asc (show_nat n)"
  have t: "list_all is_digit t" "t \<noteq> []" using digits_show_nat [of n] by (simp_all add: t_def)
  obtain b r where br: "t = b # r" using t(2) by (cases t) auto
  have b: "is_digit b" "b \<noteq> 45" using t(1) br by (auto simp: is_digit_def)
  have nd: "rest = [] \<or> \<not> is_digit (hd rest)" using assms by (auto simp: delim_def is_digit_def)
  then have span: "span_digits (t @ rest) = (t, rest)"
    using t(1) by (cases rest) (auto simp: span_digits_def list_all_iff takeWhile_append2 dropWhile_append2)
  have "parse_int_part (t @ rest) = Some (t, rest)"
  proof (cases "n = 0")
    case True
    then have "t = [48]" unfolding t_def by (subst asc_show_nat) simp
    then show ?thesis by (simp add: parse_int_part_def)
  next
    case False
    then have "b \<noteq> 48" using show_nat_head [of n] br by (simp add: t_def)
    then show ?thesis using b span br by (simp add: parse_int_part_def)
  qed
  moreover have "parse_frac rest = Some ([], rest)" "parse_exp rest = Some ([], rest)"
    using assms by (auto simp: parse_frac_def parse_exp_def delim_def split: list.split)
  ultimately show ?thesis using b br by (simp add: parse_number_def t_def [symmetric])
qed

text \<open>The documents the source writes: ASCII strings and non-negative integers.\<close>

fun json_ok :: "json \<Rightarrow> bool" where
  "json_ok (JNum t) \<longleftrightarrow> (\<exists>n. t = asc (show_nat n))"
| "json_ok (JStr s) \<longleftrightarrow> ascii s"
| "json_ok (JArr vs) \<longleftrightarrow> (\<forall>v \<in> set vs. json_ok v)"
| "json_ok (JObj ms) \<longleftrightarrow> (\<forall>m \<in> set ms. ascii (fst m) \<and> json_ok (snd m))"
| "json_ok _ \<longleftrightarrow> True"

text \<open>The fuel a value needs.\<close>

fun need_list :: "nat list \<Rightarrow> nat" where
  "need_list [] = 0"
| "need_list (x # xs) = Suc (max x (need_list xs))"

fun need :: "json \<Rightarrow> nat" where
  "need (JArr vs) = Suc (need_list (map need vs))"
| "need (JObj ms) = Suc (need_list (map (\<lambda>m. need (snd m)) ms))"
| "need _ = 1"

definition spaces :: "bytes \<Rightarrow> bool" where
  "spaces w \<longleftrightarrow> set w \<subseteq> {10, 32}"

lemma skip_ws_spaces [simp]: "spaces w \<Longrightarrow> skip_ws (w @ s) = skip_ws s"
  unfolding skip_ws_def by (rule dropWhile_append2) (auto simp: spaces_def is_ws_def)

lemma parse_value_spaces: "spaces w \<Longrightarrow> parse_value n (w @ s) = parse_value n s"
  by (cases n) simp_all

lemma parse_members_spaces: "spaces w \<Longrightarrow> parse_members n (w @ s) = parse_members n s"
  by (cases n) simp_all

lemma delim_spaces: "spaces w \<Longrightarrow> delim s \<Longrightarrow> delim (w @ s)"
  by (cases w) (auto simp: delim_def spaces_def)

lemma delim_simps [simp]: "delim (44 # s)" "delim (93 # s)" "delim (125 # s)" "delim []"
  by (simp_all add: delim_def)

lemma skip_ws_simps [simp]:
  "skip_ws (44 # s) = 44 # s" "skip_ws (93 # s) = 93 # s" "skip_ws (125 # s) = 125 # s"
  "skip_ws (34 # s) = 34 # s" "skip_ws (58 # s) = 58 # s" "skip_ws (91 # s) = 91 # s"
  "skip_ws (123 # s) = 123 # s" "skip_ws [] = []"
  by (simp_all add: skip_ws_def is_ws_def)

lemma skip_ws_Cons: "\<not> is_ws b \<Longrightarrow> skip_ws (b # s) = b # s"
  by (simp add: skip_ws_def)

lemma asc_words:
  "asc ''null'' = [110, 117, 108, 108]" "asc ''true'' = [116, 114, 117, 101]"
  "asc ''false'' = [102, 97, 108, 115, 101]"
  by code_simp+

text \<open>A printed value starts with a character that is neither white space nor a closing bracket.\<close>

lemma print_json_head:
  assumes "json_ok j"
  shows "\<exists>b r. print_json nl sp d j = b # r \<and> \<not> is_ws b \<and> b \<noteq> 93 \<and> b \<noteq> 125"
proof (cases j)
  case (JNum t)
  with assms obtain n where "t = asc (show_nat n)" by auto
  moreover obtain b r where "asc (show_nat n) = b # r" "is_digit b" by (rule show_nat_Cons)
  moreover from calculation have "\<not> is_ws b" "b \<noteq> 93" "b \<noteq> 125" by (auto simp: is_ws_def is_digit_def)
  ultimately show ?thesis using JNum by simp
qed (auto simp: asc_words quote_def is_ws_def)

lemma parse_elems_print:
  assumes "vs \<noteq> []" "need_list (map need vs) \<le> n" "spaces (nl (d + 1))" "spaces (nl d)"
    and "\<And>v n rest. v \<in> set vs \<Longrightarrow> need v \<le> n \<Longrightarrow> delim rest \<Longrightarrow>
      parse_value n (print_json nl sp (d + 1) v @ rest) = Some (v, rest)"
  shows "parse_elems n (nl (d + 1) @ join ([44] @ nl (d + 1)) (map (print_json nl sp (d + 1)) vs) @ nl d @ 93 # rest)
    = Some (vs, rest)"
  using assms(1,2,5)
proof (induction vs arbitrary: n)
  case (Cons v vs)
  then obtain m where n: "n = Suc m" "need v \<le> m" "need_list (map need vs) \<le> m" by (cases n) auto
  show ?case
  proof (cases "vs = []")
    case True
    have "parse_value m (print_json nl sp (d + 1) v @ nl d @ 93 # rest) = Some (v, nl d @ 93 # rest)"
      using n assms(4) by (intro Cons.prems(3)) (auto intro: delim_spaces)
    then show ?thesis using True n assms(3,4) by (simp add: parse_value_spaces)
  next
    case False
    let ?t = "nl (d + 1) @ join ([44] @ nl (d + 1)) (map (print_json nl sp (d + 1)) vs) @ nl d @ 93 # rest"
    have "parse_value m (print_json nl sp (d + 1) v @ 44 # ?t) = Some (v, 44 # ?t)"
      using n by (intro Cons.prems(3)) auto
    moreover have "parse_elems m ?t = Some (vs, rest)"
      using Cons.prems(3) n False by (intro Cons.IH) auto
    moreover have "join ([44] @ nl (d + 1)) (map (print_json nl sp (d + 1)) (v # vs)) =
        print_json nl sp (d + 1) v @ 44 # nl (d + 1) @ join ([44] @ nl (d + 1)) (map (print_json nl sp (d + 1)) vs)"
      using False by (cases vs) simp_all
    ultimately show ?thesis using n assms(3) by (simp add: parse_value_spaces)
  qed
qed simp

lemma parse_members_print:
  assumes "ms \<noteq> []" "need_list (map (\<lambda>m. need (snd m)) ms) \<le> n" "spaces (nl (d + 1))" "spaces (nl d)" "spaces sp"
    and "\<And>m. m \<in> set ms \<Longrightarrow> ascii (fst m)"
    and "\<And>m n rest. m \<in> set ms \<Longrightarrow> need (snd m) \<le> n \<Longrightarrow> delim rest \<Longrightarrow>
      parse_value n (print_json nl sp (d + 1) (snd m) @ rest) = Some (snd m, rest)"
  shows "parse_members n (nl (d + 1) @ join ([44] @ nl (d + 1))
      (map (\<lambda>(k, v). quote k @ [58] @ sp @ print_json nl sp (d + 1) v) ms) @ nl d @ 125 # rest) = Some (ms, rest)"
  using assms(1,2,6,7)
proof (induction ms arbitrary: n)
  case (Cons m ms)
  obtain k v where kv: "m = (k, v)" by (cases m)
  obtain l where n: "n = Suc l" "need v \<le> l" "need_list (map (\<lambda>m. need (snd m)) ms) \<le> l"
    using Cons.prems(2) kv by (cases n) auto
  have str: "parse_string (escape_string k @ 34 # t) = Some (k, t)" for t
    using Cons.prems(3) [of m] kv by (simp add: parse_escape_string)
  have val: "parse_value l (sp @ print_json nl sp (d + 1) v @ t) = Some (v, t)" if "delim t" for t
    using Cons.prems(4) [of m l t] that n kv assms(5) by (simp add: parse_value_spaces)
  let ?f = "\<lambda>(k, v). quote k @ [58] @ sp @ print_json nl sp (d + 1) v"
  show ?case
  proof (cases "ms = []")
    case True
    have "delim (nl d @ 125 # rest)" using assms(4) by (auto intro: delim_spaces)
    from val [OF this] show ?thesis
      using True n assms(3,4) kv by (simp add: parse_members_spaces quote_def str)
  next
    case False
    let ?t = "nl (d + 1) @ join ([44] @ nl (d + 1)) (map ?f ms) @ nl d @ 125 # rest"
    have "parse_members l ?t = Some (ms, rest)"
      using Cons.prems(3,4) n False by (intro Cons.IH) auto
    moreover have "join ([44] @ nl (d + 1)) (map ?f (m # ms)) =
        ?f m @ 44 # nl (d + 1) @ join ([44] @ nl (d + 1)) (map ?f ms)"
      using False by (cases ms) simp_all
    moreover have "delim (44 # ?t)" by simp
    note val [OF this]
    ultimately show ?thesis using n assms(3) kv by (simp add: parse_members_spaces quote_def str)
  qed
qed simp

lemma parse_value_print:
  assumes "\<And>d. spaces (nl d)" "spaces sp"
  shows "json_ok j \<Longrightarrow> need j \<le> n \<Longrightarrow> delim rest \<Longrightarrow>
    parse_value n (print_json nl sp d j @ rest) = Some (j, rest)"
proof (induction j arbitrary: n d rest)
  case JNull
  then show ?case by (cases n) (simp_all add: asc_words skip_ws_def is_ws_def is_digit_def parse_word_def)
next
  case (JBool b)
  then show ?case
    by (cases n; cases b) (simp_all add: asc_words skip_ws_def is_ws_def is_digit_def parse_word_def)
next
  case (JNum t)
  then obtain k where t: "t = asc (show_nat k)" by auto
  then obtain b r where br: "t = b # r" "is_digit b" using show_nat_Cons [of k] by metis
  then have "\<not> is_ws b" "b \<noteq> 123" "b \<noteq> 91" "b \<noteq> 34" by (auto simp: is_ws_def is_digit_def)
  with br parse_number_show [OF JNum.prems(3), of k] JNum.prems(2) t show ?case
    by (cases n) (simp_all add: skip_ws_def)
next
  case (JStr s)
  then show ?case by (cases n) (simp_all add: quote_def parse_escape_string)
next
  case (JArr vs)
  show ?case
  proof (cases "vs = []")
    case True
    with JArr.prems show ?thesis by (cases n) simp_all
  next
    case False
    obtain m where n: "n = Suc m" "need_list (map need vs) \<le> m" using JArr.prems(2) by (cases n) auto
    obtain v vs' where vs: "vs = v # vs'" using False by (cases vs) auto
    obtain b r where br: "print_json nl sp (d + 1) v = b # r" "\<not> is_ws b" "b \<noteq> 93"
      using print_json_head [of v nl sp "d + 1"] JArr.prems(1) vs by auto
    then have "take 1 (skip_ws (nl (d + 1) @ join ([44] @ nl (d + 1)) (map (print_json nl sp (d + 1)) vs) @ nl d @ 93 # rest)) \<noteq> [93]"
      using assms(1) vs by (cases vs') (simp_all add: skip_ws_Cons)
    moreover have "parse_elems m (nl (d + 1) @ join ([44] @ nl (d + 1)) (map (print_json nl sp (d + 1)) vs) @ nl d @ 93 # rest)
        = Some (vs, rest)"
      using False n(2) assms(1) JArr by (intro parse_elems_print) auto
    ultimately show ?thesis using False n(1) by simp
  qed
next
  case (JObj ms)
  show ?case
  proof (cases "ms = []")
    case True
    with JObj.prems show ?thesis by (cases n) simp_all
  next
    case False
    let ?f = "\<lambda>(k, v). quote k @ [58] @ sp @ print_json nl sp (d + 1) v"
    obtain l where n: "n = Suc l" "need_list (map (\<lambda>m. need (snd m)) ms) \<le> l" using JObj.prems(2) by (cases n) auto
    obtain k v ms' where ms: "ms = (k, v) # ms'" using False by (cases ms) auto
    have "take 1 (skip_ws (nl (d + 1) @ join ([44] @ nl (d + 1)) (map ?f ms) @ nl d @ 125 # rest)) \<noteq> [125]"
      using assms(1) ms by (cases ms') (simp_all add: quote_def)
    moreover have "parse_members l (nl (d + 1) @ join ([44] @ nl (d + 1)) (map ?f ms) @ nl d @ 125 # rest) = Some (ms, rest)"
      using False n(2) assms JObj by (intro parse_members_print) auto
    ultimately show ?thesis using False n(1) by simp
  qed
qed

lemma need_list_join:
  assumes "\<And>x. x \<in> set xs \<Longrightarrow> f x \<le> length (g x) \<and> g x \<noteq> []"
  shows "need_list (map f xs) \<le> Suc (length (join (44 # w) (map g xs)))"
  using assms
proof (induction "44 # w" "map g xs" arbitrary: xs rule: join.induct)
  case (3 a b zs)
  then obtain x y ys where xs: "xs = x # y # ys" "a = g x" "b # zs = map g (y # ys)" by (auto simp: Cons_eq_map_conv)
  have "need_list (map f (y # ys)) \<le> Suc (length (join (44 # w) (map g (y # ys))))"
    using 3(1) [OF xs(3)] 3(3) xs(1,3) by simp
  moreover have "f x \<le> length (g x)" "g x \<noteq> []" using 3(3) [of x] xs(1) by auto
  ultimately show ?case using xs(1) by (cases "g x") auto
qed auto

lemma need_length: "json_ok j \<Longrightarrow> need j \<le> length (print_json nl sp d j)"
proof (induction j arbitrary: d)
  case (JNum t)
  then obtain n where "t = asc (show_nat n)" by auto
  with digits_show_nat [of n] have "t \<noteq> []" by simp
  then show ?case by (cases t) auto
next
  case (JArr vs)
  have "need v \<le> length (print_json nl sp (d + 1) v) \<and> print_json nl sp (d + 1) v \<noteq> []" if "v \<in> set vs" for v
    using JArr.IH [OF that] JArr.prems that print_json_head [of v nl sp "d + 1"] by auto
  from need_list_join [of vs need "print_json nl sp (d + 1)" "nl (d + 1)", OF this] show ?case by auto
next
  case (JObj ms)
  let ?g = "\<lambda>(k, v). quote k @ [58] @ sp @ print_json nl sp (d + 1) v"
  have "need (snd m) \<le> length (?g m) \<and> ?g m \<noteq> []" if "m \<in> set ms" for m
    using JObj.IH [OF that, of "snd m" "d + 1"] JObj.prems that by (cases m) (auto simp: quote_def)
  from need_list_join [of ms "\<lambda>m. need (snd m)" ?g "nl (d + 1)", OF this] show ?case by auto
qed (auto simp: asc_words quote_def)

lemma json_parse_print:
  assumes "\<And>d. spaces (nl d)" "spaces sp" "json_ok j" "spaces rest"
  shows "json_parse (print_json nl sp 0 j @ rest) = Some j"
proof -
  have "delim (rest @ [])" using assms(4) by (intro delim_spaces) simp_all
  then have "parse_value (Suc (length (print_json nl sp 0 j @ rest))) (print_json nl sp 0 j @ rest) = Some (j, rest)"
    using need_length [OF assms(3), of nl sp 0] assms by (intro parse_value_print) auto
  moreover have "skip_ws (rest @ []) = []" using assms(4) by (subst skip_ws_spaces) simp_all
  ultimately show ?thesis by (simp add: json_parse_def)
qed

lemma json_parse_Marshal: "json_ok j \<Longrightarrow> json_parse (json_Marshal j) = Some j"
  using json_parse_print [of "\<lambda>_. []" "[]" j "[]"] by (simp add: json_Marshal_def spaces_def)

lemma json_parse_MarshalIndent: "json_ok j \<Longrightarrow> json_parse (json_MarshalIndent j @ [10]) = Some j"
  unfolding json_MarshalIndent_def by (rule json_parse_print) (auto simp: spaces_def)

lemma get_list_map [simp]: "get_list f (map g xs) = (if \<forall>x \<in> set xs. f (g x) \<noteq> None then Some (map (\<lambda>x. the (f (g x))) xs) else None)"
  by (induction xs) (auto split: option.split)

lemma get_num [simp]:
  "get_uint64 old (num (unat w)) = Some w" "get_int i (num 2) = Some 2"
proof -
  have "take 1 (asc (show_nat 2)) \<noteq> [45]" by code_simp
  then show "get_uint64 old (num (unat w)) = Some w" "get_int i (num 2) = Some 2"
    using unat_u64_less [of w] by (simp_all add: get_uint64_def get_int_def num_def Let_def)
qed

end
