(* ===== verification/Manifest.thy ===== *)
theory Manifest
  imports Json
begin

text \<open>
  Package \<open>internal/manifest\<close>: the durable description of the live tables, its validation, and its
  publication by a synced temporary file and a rename. The model does not tell a nil slice from an
  empty one: an empty table list is printed as \<open>null\<close>, and either form is read back as empty.
\<close>

section \<open>State\<close>

record State =
  mVersion :: int
  mSSTables :: "string list"
  mNextSST :: u64
  mAppliedIndex :: u64
  mLastSeq :: u64

definition fileName :: string where
  "fileName = ''MANIFEST''"

definition tmpName :: string where
  "tmpName = ''.MANIFEST.tmp''"

definition version :: int where
  "version = 2"

definition legacyVersion :: int where
  "legacyVersion = 1"

definition zero_State :: State where
  "zero_State = \<lparr>mVersion = 0, mSSTables = [], mNextSST = 0, mAppliedIndex = 0, mLastSeq = 0\<rparr>"

definition Legacy :: "State \<Rightarrow> bool" where
  "Legacy s \<longleftrightarrow> mVersion s = legacyVersion"

definition manifest_New :: State where
  "manifest_New = zero_State\<lparr>mVersion := version\<rparr>"

section \<open>Encoding\<close>

definition state_json :: "State \<Rightarrow> json" where
  "state_json s =
     JObj ([(asc ''version'', num (nat (mVersion s))),
            (asc ''sstables'', if mSSTables s = [] then JNull else JArr (map (\<lambda>n. JStr (asc n)) (mSSTables s))),
            (asc ''next_sst'', num (unat (mNextSST s)))] @
           (if mAppliedIndex s = 0 then [] else [(asc ''applied_index'', num (unat (mAppliedIndex s)))]) @
           [(asc ''last_seq'', num (unat (mLastSeq s)))])"

text \<open>One member of the document, decoded into the struct.\<close>

definition state_field :: "State \<Rightarrow> bytes \<times> json \<Rightarrow> State option" where
  "state_field s m =
     (case m of (k, v) \<Rightarrow>
        if key_is ''version'' k then map_option (\<lambda>x. s\<lparr>mVersion := x\<rparr>) (get_int (mVersion s) v)
        else if key_is ''sstables'' k
        then map_option (\<lambda>x. s\<lparr>mSSTables := map unasc x\<rparr>) (get_slice (get_string []) v)
        else if key_is ''next_sst'' k then map_option (\<lambda>x. s\<lparr>mNextSST := x\<rparr>) (get_uint64 (mNextSST s) v)
        else if key_is ''applied_index'' k
        then map_option (\<lambda>x. s\<lparr>mAppliedIndex := x\<rparr>) (get_uint64 (mAppliedIndex s) v)
        else if key_is ''last_seq'' k then map_option (\<lambda>x. s\<lparr>mLastSeq := x\<rparr>) (get_uint64 (mLastSeq s) v)
        else Some s)"

fun state_fields :: "State \<Rightarrow> (bytes \<times> json) list \<Rightarrow> State option" where
  "state_fields s [] = Some s"
| "state_fields s (m # ms) =
     (case state_field s m of None \<Rightarrow> None | Some s \<Rightarrow> state_fields s ms)"

definition state_Unmarshal :: "bytes \<Rightarrow> State option" where
  "state_Unmarshal data =
     (case json_parse data of
        Some (JObj ms) \<Rightarrow> state_fields zero_State ms
      | Some JNull \<Rightarrow> Some zero_State
      | _ \<Rightarrow> None)"

definition state_encode :: "State \<Rightarrow> bytes" where
  "state_encode s = json_MarshalIndent (state_json s) @ [10]"

section \<open>Operations\<close>

fun validate_names :: "string list \<Rightarrow> string list \<Rightarrow> unit result" where
  "validate_names seen [] = Inr ()"
| "validate_names seen (n # ns) =
     (if n = '''' \<or> filepath_Base n \<noteq> n \<or> \<not> hasSuffix n ''.sst''
      then Inl (Err ''invalid manifest SSTable name'')
      else if n \<in> set seen then Inl (Err ''duplicate manifest SSTable'')
      else validate_names (n # seen) ns)"

definition Validate :: "State \<Rightarrow> unit result" where
  "Validate s =
     (if mVersion s \<noteq> version \<and> mVersion s \<noteq> legacyVersion
      then Inl (Err ''manifest version is unsupported'')
      else validate_names [] (mSSTables s))"

definition manifest_Load :: "disk \<Rightarrow> (State \<times> bool) result" where
  "manifest_Load d =
     (case dFiles d fileName of
        None \<Rightarrow> Inr (zero_State, False)
      | Some data \<Rightarrow>
          (case state_Unmarshal data of
             None \<Rightarrow> Inl (Err ''decode manifest'')
           | Some s \<Rightarrow> rbind (Validate s) (\<lambda>_. Inr (s, True))))"

text \<open>A failure before the rename runs the deferred removal of the temporary file.\<close>

definition remove_temp :: "disk \<times> unit result \<Rightarrow> disk \<times> unit result" where
  "remove_temp r = (fst (os_remove (fst r) tmpName), snd r)"

definition manifest_Store :: "disk \<Rightarrow> State \<Rightarrow> disk \<times> unit result" where
  "manifest_Store d s =
     (let s = s\<lparr>mVersion := version\<rparr> in
      case Validate s of
        Inl e \<Rightarrow> (d, Inl e)
      | Inr _ \<Rightarrow>
          let data = state_encode s in
          case os_create d tmpName of
            (d, Inl e) \<Rightarrow> (d, Inl e)
          | (d, Inr _) \<Rightarrow>
              (case os_write d tmpName 0 data of
                 (d, Inl e) \<Rightarrow> remove_temp (d, Inl e)
               | (d, Inr _) \<Rightarrow>
                   (case os_sync d tmpName of
                      (d, Inl e) \<Rightarrow> remove_temp (d, Inl e)
                    | (d, Inr _) \<Rightarrow>
                        (case os_rename d tmpName fileName of
                           (d, Inl e) \<Rightarrow> remove_temp (d, Inl e)
                         | (d, Inr _) \<Rightarrow>
                             (case os_open_dir d of
                                (d, Inl e) \<Rightarrow> (d, Inl e)
                              | (d, Inr _) \<Rightarrow> os_sync d ''.'')))))"

section \<open>Properties\<close>

text \<open>What \<open>Validate\<close> accepts.\<close>

definition name_ok :: "string \<Rightarrow> bool" where
  "name_ok n \<longleftrightarrow> n \<noteq> '''' \<and> filepath_Base n = n \<and> hasSuffix n ''.sst''"

lemma validate_names_iff:
  "validate_names seen ns = Inr () \<longleftrightarrow>
     (\<forall>n \<in> set ns. name_ok n \<and> n \<notin> set seen) \<and> distinct ns"
  by (induction ns arbitrary: seen) (auto simp: name_ok_def)

lemma Validate_iff:
  "Validate s = Inr () \<longleftrightarrow> mVersion s \<in> {version, legacyVersion} \<and>
     (\<forall>n \<in> set (mSSTables s). name_ok n) \<and> distinct (mSSTables s)"
  by (auto simp: Validate_def validate_names_iff)

lemma key_is_simps [simp]:
  "key_is ''version'' (asc ''version'')" "key_is ''sstables'' (asc ''sstables'')"
  "key_is ''next_sst'' (asc ''next_sst'')" "key_is ''applied_index'' (asc ''applied_index'')"
  "key_is ''last_seq'' (asc ''last_seq'')"
  "\<not> key_is ''version'' (asc ''sstables'')" "\<not> key_is ''version'' (asc ''next_sst'')"
  "\<not> key_is ''version'' (asc ''applied_index'')" "\<not> key_is ''version'' (asc ''last_seq'')"
  "\<not> key_is ''sstables'' (asc ''next_sst'')" "\<not> key_is ''sstables'' (asc ''applied_index'')"
  "\<not> key_is ''sstables'' (asc ''last_seq'')" "\<not> key_is ''next_sst'' (asc ''applied_index'')"
  "\<not> key_is ''next_sst'' (asc ''last_seq'')" "\<not> key_is ''applied_index'' (asc ''last_seq'')"
  by code_simp+

lemma json_ok_state:
  assumes "\<forall>n \<in> set (mSSTables s). ascii (asc n)"
  shows "json_ok (state_json s)"
proof -
  have "ascii (asc ''version'')" "ascii (asc ''sstables'')" "ascii (asc ''next_sst'')"
    "ascii (asc ''applied_index'')" "ascii (asc ''last_seq'')"
    unfolding ascii_def by code_simp+
  then show ?thesis using assms by (auto simp: state_json_def num_def)
qed

lemma state_decode_encode:
  assumes "mVersion s = version" "\<forall>n \<in> set (mSSTables s). ascii (asc n)"
  shows "state_Unmarshal (state_encode s) = Some s"
proof -
  have eta: "\<lparr>mVersion = 2, mSSTables = mSSTables s, mNextSST = mNextSST s,
      mAppliedIndex = mAppliedIndex s, mLastSeq = mLastSeq s\<rparr> = s"
    using assms(1) by (simp add: version_def)
  have "json_parse (state_encode s) = Some (state_json s)"
    unfolding state_encode_def by (rule json_parse_MarshalIndent [OF json_ok_state [OF assms(2)]])
  moreover have "state_fields zero_State (case state_json s of JObj ms \<Rightarrow> ms) = Some s"
    using assms(1) eta
    by (simp add: state_json_def state_field_def zero_State_def get_slice_def version_def get_string_def comp_def)
  ultimately show ?thesis by (simp add: state_Unmarshal_def state_json_def)
qed

text \<open>
  \<open>Store\<close> either publishes the new state or leaves the old one; it touches no other file; and it has
  published if it returned nil. The converse fails: an error of the directory sync comes after the
  rename.
\<close>

lemma names_distinct [simp]: "tmpName \<noteq> fileName" "fileName \<noteq> tmpName"
  by (simp_all add: tmpName_def fileName_def)

lemma os_open_dir_files: "os_open_dir d = (d', r) \<Longrightarrow> dFiles d' = dFiles d"
  unfolding os_open_dir_def by (erule syscall_cases) auto

lemma remove_temp_files: "g \<noteq> tmpName \<Longrightarrow> dFiles (fst (remove_temp x)) g = dFiles (fst x) g"
  using os_frame(7) [of "fst x" tmpName "fst (os_remove (fst x) tmpName)" _ g]
  by (metis fst_conv prod.collapse remove_temp_def)

lemma manifest_Store_frame:
  assumes "manifest_Store d s = (d', r)" "g \<noteq> tmpName" "g \<noteq> fileName"
  shows "dFiles d' g = dFiles d g"
  using assms remove_temp_files [OF assms(2)]
  by (auto simp: manifest_Store_def Let_def split: sum.splits prod.splits
      dest!: os_frame [where g = g] os_open_dir_files) (metis fst_conv)+

definition publish :: "State \<Rightarrow> State" where
  "publish s = s\<lparr>mVersion := version\<rparr>"

lemma manifest_Store_cases:
  assumes "manifest_Store d s = (d', r)"
  obtains (kept) e where "dFiles d' fileName = dFiles d fileName" "r = Inl e"
  | (published) "dFiles d' fileName = Some (state_encode (publish s))" "Validate (publish s) = Inr ()"
proof -
  define data where "data = state_encode (publish s)"
  note store = assms [unfolded manifest_Store_def Let_def, folded publish_def data_def]
  show ?thesis
  proof (cases "Validate (publish s)")
    case (Inl e)
    then have "d' = d" "r = Inl e" using store by auto
    then show ?thesis using kept by simp
  next
    case (Inr u)
    obtain d1 r1 where c: "os_create d tmpName = (d1, r1)" by fastforce
    have f1: "dFiles d1 fileName = dFiles d fileName" using os_frame(2) [OF c] by simp
    obtain d2 r2 where w: "os_write d1 tmpName 0 data = (d2, r2)" by fastforce
    have f2: "dFiles d2 fileName = dFiles d fileName" using os_frame(1) [OF w] f1 by simp
    obtain d3 r3 where sy: "os_sync d2 tmpName = (d3, r3)" by fastforce
    have f3: "dFiles d3 fileName = dFiles d fileName" using os_frame(5) [OF sy] f2 by simp
    obtain d4 r4 where rn: "os_rename d3 tmpName fileName = (d4, r4)" by fastforce
    obtain d5 r5 where od: "os_open_dir d4 = (d5, r5)" by fastforce
    obtain d6 r6 where sd: "os_sync d5 ''.'' = (d6, r6)" by fastforce
    have rm: "remove_temp (e, Inl x) = (d', r) \<Longrightarrow> dFiles d' fileName = dFiles e fileName \<and> r = Inl x" for e x
      using remove_temp_files [of fileName "(e, Inl x)"] by (simp add: remove_temp_def)
    show ?thesis
    proof (cases "r1 = Inr () \<and> r2 = Inr () \<and> r3 = Inr ()")
      case False
      then show ?thesis
        using store Inr c w sy f1 f2 f3 kept by (auto split: sum.splits dest!: rm)
    next
      case True
      then have "dFiles d3 tmpName = Some data"
        using os_Inr(2) [of d tmpName d1 "()"] os_Inr(1) [of d1 tmpName 0 data d2 "()"]
          os_Inr(5) [of d2 tmpName d3 "()"] c w sy by (simp add: content_def)
      moreover have "r4 = Inr () \<Longrightarrow> dFiles d4 fileName = dFiles d3 tmpName"
        using os_Inr(6) [of d3 tmpName fileName d4 "()"] rn by simp
      moreover have "dFiles d4 fileName = dFiles d3 fileName" if "r4 = Inl e" for e
        using rn that unfolding os_rename_def by (auto elim!: syscall_cases)
      moreover have "dFiles d5 = dFiles d4" "dFiles d6 = dFiles d5"
        using os_open_dir_files [OF od] os_frame(5) [OF sd] by auto
      ultimately show ?thesis
        using store Inr c w sy rn od sd f3 kept published True
        by (cases r4; cases r5) (auto simp: data_def dest!: rm)
    qed
  qed
qed

lemma manifest_Store_Inr:
  assumes "manifest_Store d s = (d', Inr ())"
  shows "dFiles d' fileName = Some (state_encode (publish s))"
  using assms by (rule manifest_Store_cases) auto

lemma manifest_Store_fine:
  assumes "healthy d" "Validate (publish s) = Inr ()"
  shows "\<exists>d'. manifest_Store d s = (d', Inr ()) \<and> healthy d' \<and>
    dFiles d' = (dFiles d)(fileName \<mapsto> state_encode (publish s), tmpName := None)"
  using assms
  by (auto simp: manifest_Store_def Let_def os_fine publish_def [symmetric] content_def healthy_def fun_eq_iff)

text \<open>What was published is what is loaded.\<close>

lemma manifest_Load_published:
  assumes "dFiles d fileName = Some (state_encode (publish s))" "Validate (publish s) = Inr ()"
    and "\<forall>n \<in> set (mSSTables s). ascii (asc n)"
  shows "manifest_Load d = Inr (publish s, True)"
  using assms state_decode_encode [of "publish s"]
  by (simp add: manifest_Load_def publish_def)

section \<open>Table names\<close>

lemma hasSuffix_append [simp]: "hasSuffix (s @ t) t"
  by (simp add: hasSuffix_def)

lemma set_show_nat: "set (show_nat n) \<subseteq> set ''0123456789''"
proof (induction n rule: less_induct)
  case (less n)
  have "char_of (48 + m :: nat) \<in> set ''0123456789''" if "m < 10" for m
  proof -
    have "\<forall>m \<in> set [0..<10 :: nat]. char_of (48 + m) \<in> set ''0123456789''" by code_simp
    with that show ?thesis by simp
  qed
  then show ?case
    by (subst show_nat.simps) (use less [of "n div 10"] in auto)
qed

lemma set_sst_name: "set (sst_name w) \<subseteq> set ''0123456789.st''"
proof -
  have "set (sst_name w) = set (show_nat (unat w)) \<union> set (replicate (6 - length (show_nat (unat w))) CHR ''0'') \<union> set ''.sst''"
    by (simp add: sst_name_def Let_def Un_ac)
  also have "\<dots> \<subseteq> set ''0123456789'' \<union> set ''0'' \<union> set ''.sst''"
    using set_show_nat [of "unat w"] set_replicate_conv_if [of "6 - length (show_nat (unat w))" "CHR ''0''"]
    by (intro Un_mono) auto
  also have "\<dots> \<subseteq> set ''0123456789.st''" by code_simp
  finally show ?thesis .
qed

lemma filepath_Base_plain:
  assumes "CHR ''/'' \<notin> set p" "p \<noteq> ''''"
  shows "filepath_Base p = p"
proof -
  have tw: "takeWhile (\<lambda>c. c \<noteq> CHR ''/'') (rev p) = rev p"
    unfolding takeWhile_eq_all_conv using assms(1) by auto
  have "hd (rev p) \<in> set p" using assms(2) by (simp add: hd_rev)
  then have "hd (rev p) \<noteq> CHR ''/''" using assms(1) by metis
  then have dw: "dropWhile (\<lambda>c. c = CHR ''/'') (rev p) = rev p"
    using assms(2) by (simp add: dropWhile_eq_self_iff)
  show ?thesis using assms(2) by (simp add: filepath_Base_def Let_def tw dw)
qed

lemma name_ok_sst_name [simp]: "name_ok (sst_name w)"
proof -
  have "CHR ''/'' \<notin> set (sst_name w)" using set_sst_name [of w] by auto
  moreover have "sst_name w \<noteq> ''''" by (simp add: sst_name_def Let_def)
  ultimately have "filepath_Base (sst_name w) = sst_name w" by (rule filepath_Base_plain)
  moreover have "hasSuffix (sst_name w) ''.sst''"
    by (simp add: sst_name_def Let_def hasSuffix_def)
  ultimately show ?thesis by (simp add: name_ok_def sst_name_def Let_def)
qed

lemma ascii_sst_name [simp]: "ascii (asc (sst_name w))"
proof -
  have "\<forall>c \<in> set ''0123456789.st''. (word_of_nat (of_char c) :: byte) < 128" by code_simp
  then show ?thesis using set_sst_name [of w] unfolding ascii_def asc_def by auto
qed

lemma parse_nat_zeros: "s \<noteq> [] \<Longrightarrow> parse_nat (replicate n 48 @ s) = parse_nat s"
proof -
  have "foldl (\<lambda>a b. a * 10 + (unat (b :: byte) - 48)) 0 (replicate n 48) = 0" by (induction n) simp_all
  moreover have "list_all is_digit (replicate n 48)" by (simp add: list_all_length is_digit_def)
  ultimately show "s \<noteq> [] \<Longrightarrow> ?thesis" by (simp add: parse_nat_def)
qed

lemma sst_name_inject [simp]: "sst_name a = sst_name b \<longleftrightarrow> a = b"
proof
  have "parse_nat (asc (take (length (sst_name w) - 4) (sst_name w))) = Some (unat w)" for w
  proof -
    have "take (length (sst_name w) - 4) (sst_name w) =
        replicate (6 - length (show_nat (unat w))) CHR ''0'' @ show_nat (unat w)"
      by (simp add: sst_name_def Let_def)
    moreover have "asc (replicate m CHR ''0'') = replicate m 48" for m by (simp add: asc_def)
    ultimately show ?thesis
      using digits_show_nat [of "unat w"] by (simp add: asc_append parse_nat_zeros)
  qed
  then show "sst_name a = sst_name b \<Longrightarrow> a = b" by (metis option.inject word_unat_eq_iff)
qed simp

lemma sst_name_special [simp]:
  "sst_name w \<noteq> fileName" "sst_name w \<noteq> tmpName" "sst_name w \<noteq> ''wal''"
  "fileName \<noteq> sst_name w" "tmpName \<noteq> sst_name w" "''wal'' \<noteq> sst_name w"
proof -
  have "CHR ''M'' \<in> set fileName" "CHR ''M'' \<in> set tmpName" "CHR ''w'' \<in> set ''wal''"
    by (simp_all add: fileName_def tmpName_def)
  then have "sst_name w \<noteq> fileName \<and> sst_name w \<noteq> tmpName \<and> sst_name w \<noteq> ''wal''"
    using set_sst_name [of w] by auto
  then show "sst_name w \<noteq> fileName" "sst_name w \<noteq> tmpName" "sst_name w \<noteq> ''wal''"
    "fileName \<noteq> sst_name w" "tmpName \<noteq> sst_name w" "''wal'' \<noteq> sst_name w" by auto
qed

section \<open>Correctness\<close>

text \<open>
  C12: publication is atomic. Whatever system call of \<open>Store\<close> fails or crashes, the directory afterwards
  holds either the old manifest or the complete new one, and loading it gives the state it describes;
  after a nil result it is the new one. No file but the manifest and its temporary is touched.
\<close>

theorem manifest_Store_atomic:
  assumes "manifest_Store d s = (d', r)" "\<forall>n \<in> set (mSSTables s). ascii (asc n)"
  shows "(manifest_Load d' = manifest_Load d \<and> r \<noteq> Inr () \<or>
      manifest_Load d' = Inr (s\<lparr>mVersion := version\<rparr>, True)) \<and>
    (g \<noteq> tmpName \<and> g \<noteq> fileName \<longrightarrow> dFiles d' g = dFiles d g)"
  using assms(1)
proof (rule manifest_Store_cases)
  fix e assume "dFiles d' fileName = dFiles d fileName" "r = Inl e"
  then show ?thesis using manifest_Store_frame [OF assms(1)] by (simp add: manifest_Load_def)
next
  assume "dFiles d' fileName = Some (state_encode (publish s))" "Validate (publish s) = Inr ()"
  from manifest_Load_published [OF this assms(2)] show ?thesis
    using manifest_Store_frame [OF assms(1)] by (simp add: publish_def)
qed

definition example_state :: State where
  "example_state = \<lparr>mVersion = 2, mSSTables = [sst_name 1, sst_name 12], mNextSST = 12, mAppliedIndex = 0, mLastSeq = 77\<rparr>"

lemma example_state_ok:
  "\<forall>n \<in> set (mSSTables example_state). ascii (asc n)" "Validate (publish example_state) = Inr ()"
  by (simp_all add: example_state_def Validate_iff publish_def)

theorem manifest_Store_atomic_witness:
  "\<exists>d'. manifest_Store empty_disk example_state = (d', Inr ()) \<and> manifest_Load d' = Inr (example_state, True)"
proof -
  have "healthy empty_disk" by (simp add: healthy_def empty_disk_def)
  from manifest_Store_fine [OF this example_state_ok(2)]
  obtain d' where d': "manifest_Store empty_disk example_state = (d', Inr ())" by blast
  from manifest_Store_atomic [OF d' example_state_ok(1), of "[]"]
  have "manifest_Load d' = Inr (example_state\<lparr>mVersion := version\<rparr>, True)" by simp
  then show ?thesis using d' by (simp add: example_state_def version_def)
qed

text \<open>
  C37: \<open>Validate\<close> accepts exactly the known versions with distinct table names that stay inside the
  directory and end in \<open>.sst\<close>; every name the engine generates is such a name, and they do not collide.
\<close>

theorem manifest_Validate_exact:
  "(Validate s = Inr () \<longleftrightarrow> (mVersion s = 1 \<or> mVersion s = 2) \<and> distinct (mSSTables s) \<and>
      list_all (\<lambda>n. n \<noteq> '''' \<and> filepath_Base n = n \<and> hasSuffix n ''.sst'') (mSSTables s)) \<and>
   (Validate \<lparr>mVersion = 2, mSSTables = map sst_name ws, mNextSST = x, mAppliedIndex = y, mLastSeq = z\<rparr> =
      Inr () \<longleftrightarrow> distinct ws)"
proof -
  have "inj_on sst_name (set ws)" by (simp add: inj_on_def)
  then show ?thesis
    unfolding Validate_iff list_all_iff name_ok_def [symmetric]
    by (auto simp: version_def legacyVersion_def distinct_map)
qed

end
