(* ===== verification/Db.thy ===== *)
theory Db
  imports Wal Compact Manifest "HOL-Library.Char_ord"
begin

text \<open>
  Package \<open>db\<close> (\<open>db.go\<close>, \<open>options.go\<close>, \<open>stats.go\<close>): the engine over memtable, log, tables and manifest.
  Every exported method takes the database lock, so each is one function from the directory and the
  handle to the directory, the handle and the result. The directory of a database is the disk; a path
  inside it is the file's name. \<open>env\<close> holds what the code does not determine: the size computation of
  the Bloom filters, and the crash hook that tests install. Times are not modelled, and a handle is not
  used after \<open>Close\<close>.
\<close>

section \<open>Options and state\<close>

datatype DurabilityMode = DurabilityEmbedded | DurabilityReplica

record Options =
  FlushThreshold :: int
  CompactionThreshold :: int
  optDurability :: DurabilityMode

definition DefaultOptions :: Options where
  "DefaultOptions = \<lparr>FlushThreshold = 0, CompactionThreshold = 0, optDurability = DurabilityEmbedded\<rparr>"

definition flushThreshold :: "Options \<Rightarrow> int" where
  "flushThreshold opt = (if FlushThreshold opt \<le> 0 then 1000 else FlushThreshold opt)"

definition compactionThreshold :: "Options \<Rightarrow> int" where
  "compactionThreshold opt = (if CompactionThreshold opt \<le> 0 then 4 else CompactionThreshold opt)"

type_synonym KVPair = "bytes \<times> bytes"

definition MutationPut :: byte where
  "MutationPut = 0"

definition MutationDelete :: byte where
  "MutationDelete = 1"

record Mutation =
  mutType :: byte
  mutKey :: bytes
  mutValue :: bytes

record DB =
  dbMem :: MemTable
  dbLog :: "WAL option"
  dbPath :: string
  dbReaders :: "Reader list"
  dbNextSST :: u64
  dbOpts :: Options
  dbManifest :: State
  dbApplied :: u64
  dbDurable :: u64
  dbClosed :: bool
  dbFlushes :: u64
  dbCompactions :: u64

definition replica :: "DB \<Rightarrow> bool" where
  "replica db \<longleftrightarrow> optDurability (dbOpts db) = DurabilityReplica"

record env =
  eSizing :: sizing
  eCrash :: "string \<Rightarrow> string option"

definition stepFlushBeforeManifest :: string where
  "stepFlushBeforeManifest = ''flush: SSTable written, manifest not published''"

definition stepFlushAfterManifest :: string where
  "stepFlushAfterManifest = ''flush: manifest published, WAL not reset''"

section \<open>Write path\<close>

definition remove_files :: "disk \<Rightarrow> string list \<Rightarrow> disk" where
  "remove_files d ps = foldl (\<lambda>d p. fst (os_remove d p)) d ps"

text \<open>The handle after a failed step: an error undoes the file number, a panic leaves it.\<close>

definition after_failure :: "failure \<Rightarrow> DB \<Rightarrow> DB \<Rightarrow> DB" where
  "after_failure e old new = (case e of Panic \<Rightarrow> new | Err _ \<Rightarrow> old)"

definition db_compact :: "env \<Rightarrow> disk \<Rightarrow> DB \<Rightarrow> disk \<times> DB \<times> unit result" where
  "db_compact env d db =
     (if dbReaders db = [] then (d, db, Inr ())
      else
        let db1 = db\<lparr>dbNextSST := dbNextSST db + 1\<rparr>;
            outPath = sst_name (dbNextSST db1);
            oldPaths = map rdPath (dbReaders db)
        in case Compact (eSizing env) d (dbReaders db) outPath True of
             (d, Inl e) \<Rightarrow> (d, after_failure e db db1, Inl e)
           | (d, Inr recordsOut) \<Rightarrow>
               (case (if recordsOut > 0 then rbind (sstable_Open d outPath) (\<lambda>r. Inr [r]) else Inr []) of
                  Inl e \<Rightarrow> (d, db1, Inl e)
                | Inr newReaders \<Rightarrow>
                    let newNames = (if recordsOut > 0 then [filepath_Base outPath] else []);
                        state = (dbManifest db)\<lparr>mSSTables := newNames, mNextSST := dbNextSST db1\<rparr>
                    in case manifest_Store d state of
                         (d, Inl e) \<Rightarrow>
                           ((if recordsOut > 0 then fst (os_remove d outPath) else d), db, Inl e)
                       | (d, Inr _) \<Rightarrow>
                           (remove_files d oldPaths,
                            db1\<lparr>dbReaders := newReaders, dbManifest := state,
                                dbCompactions := dbCompactions db1 + 1\<rparr>, Inr ())))"

definition maybeCompact :: "env \<Rightarrow> disk \<Rightarrow> DB \<Rightarrow> disk \<times> DB \<times> unit result" where
  "maybeCompact env d db =
     (if int (length (dbReaders db)) < compactionThreshold (dbOpts db) then (d, db, Inr ())
      else db_compact env d db)"

text \<open>The empty memtable: replica mode still publishes its applied index.\<close>

definition flush_index :: "disk \<Rightarrow> DB \<Rightarrow> disk \<times> DB \<times> unit result" where
  "flush_index d db =
     (if replica db \<and> dbApplied db > dbDurable db
      then let state = (dbManifest db)\<lparr>mAppliedIndex := dbApplied db\<rparr>
           in case manifest_Store d state of
                (d, Inl e) \<Rightarrow> (d, db, Inl e)
              | (d, Inr _) \<Rightarrow> (d, db\<lparr>dbManifest := state, dbDurable := dbApplied db\<rparr>, Inr ())
      else (d, db, Inr ()))"

text \<open>After the manifest is published: reset the log, count the flush, maybe compact.\<close>

definition flush_finish :: "env \<Rightarrow> disk \<Rightarrow> DB \<Rightarrow> disk \<times> DB \<times> unit result" where
  "flush_finish env d db =
     (case eCrash env stepFlushAfterManifest of
        Some m \<Rightarrow> (d, db, Inl (Err m))
      | None \<Rightarrow>
          (case dbLog db of
             None \<Rightarrow> maybeCompact env d (db\<lparr>dbFlushes := dbFlushes db + 1\<rparr>)
           | Some w \<Rightarrow>
               (case wal_Reset d w of
                  (d, w, Inl e) \<Rightarrow> (d, db\<lparr>dbLog := Some w\<rparr>, Inl e)
                | (d, w, Inr _) \<Rightarrow>
                    maybeCompact env d (db\<lparr>dbLog := Some w, dbFlushes := dbFlushes db + 1\<rparr>))))"

text \<open>The manifest of a flush.\<close>

definition flush_state :: "DB \<Rightarrow> u64 \<Rightarrow> State" where
  "flush_state db n =
     (let state = (dbManifest db)\<lparr>mSSTables := mSSTables (dbManifest db) @ [sst_name n], mNextSST := n\<rparr>
      in if replica db then state\<lparr>mAppliedIndex := dbApplied db\<rparr>
         else state\<lparr>mLastSeq := max (mLastSeq state) (NextSeq (dbMem db) - 1)\<rparr>)"

definition db_flush :: "env \<Rightarrow> disk \<Rightarrow> DB \<Rightarrow> disk \<times> DB \<times> unit result" where
  "db_flush env d db =
     (let records = SortedEntries (dbMem db) in
      if records = [] then flush_index d db
      else if dbPath db = '''' then (d, db, Inr ())
      else
        let db1 = db\<lparr>dbNextSST := dbNextSST db + 1\<rparr>;
            sstName = sst_name (dbNextSST db1)
        in case sstable_Write (eSizing env) d sstName records of
             (d, Inl e) \<Rightarrow> (d, after_failure e db db1, Inl e)
           | (d, Inr _) \<Rightarrow>
               (case sstable_Open d sstName of
                  Inl Panic \<Rightarrow> (d, db1, Inl Panic)
                | Inl (Err m) \<Rightarrow> (fst (os_remove d sstName), db, Inl (Err m))
                | Inr r \<Rightarrow>
                    (case eCrash env stepFlushBeforeManifest of
                       Some m \<Rightarrow> (d, db1, Inl (Err m))
                     | None \<Rightarrow>
                         let state = flush_state db (dbNextSST db1)
                         in case manifest_Store d state of
                              (d, Inl e) \<Rightarrow> (fst (os_remove d sstName), db, Inl e)
                            | (d, Inr _) \<Rightarrow>
                                flush_finish env d
                                  (db1\<lparr>dbReaders := r # dbReaders db, dbMem := NewWithSeq (NextSeq (dbMem db)),
                                       dbManifest := state,
                                       dbDurable := (if replica db then dbApplied db else dbDurable db)\<rparr>))))"

definition maybeFlush :: "env \<Rightarrow> disk \<Rightarrow> DB \<Rightarrow> disk \<times> DB \<times> unit result" where
  "maybeFlush env d db =
     (if dbPath db = '''' then (d, db, Inr ())
      else if int (memtable_Size (dbMem db)) < flushThreshold (dbOpts db) then (d, db, Inr ())
      else db_flush env d db)"

section \<open>Reads\<close>

fun get_readers :: "Reader list \<Rightarrow> bytes \<Rightarrow> Reader list \<times> bytes option result" where
  "get_readers [] key = ([], Inr None)"
| "get_readers (r # rs) key =
     (case reader_Get r key of
        (r, Inl Panic) \<Rightarrow> (r # rs, Inl Panic)
      | (r, Inr (Some rec)) \<Rightarrow>
          (r # rs, Inr (if rType rec = RecordTypeDelete then None else Some (rValue rec)))
      | (r, _) \<Rightarrow> (case get_readers rs key of (rs, res) \<Rightarrow> (r # rs, res)))"

definition db_Get :: "DB \<Rightarrow> bytes \<Rightarrow> DB \<times> bytes option result" where
  "db_Get db key =
     (case GetRecord (dbMem db) key of
        Some r \<Rightarrow> (db, Inr (if rType r = RecordTypeDelete then None else Some (rValue r)))
      | None \<Rightarrow> (case get_readers (dbReaders db) key of (rs, res) \<Rightarrow> (db\<lparr>dbReaders := rs\<rparr>, res)))"

fun scan_readers :: "Reader list \<Rightarrow> bytes \<Rightarrow> bytes \<Rightarrow> Record list result" where
  "scan_readers [] from to = Inr []"
| "scan_readers (r # rs) from to =
     rbind (reader_Scan r from to) (\<lambda>recs. rbind (scan_readers rs from to) (\<lambda>rest. Inr (recs @ rest)))"

text \<open>The live pairs of a list of versions, newest per key, sorted.\<close>

definition live_pairs :: "Record list \<Rightarrow> KVPair list" where
  "live_pairs all =
     sort_key fst (map (\<lambda>(k, r). (k, rValue r))
       (filter (\<lambda>(k, r). rType r = RecordTypePut) (foldl keep_newest [] all)))"

definition db_Scan :: "DB \<Rightarrow> bytes \<Rightarrow> bytes \<Rightarrow> KVPair list result" where
  "db_Scan db from to =
     rbind (scan_readers (dbReaders db) from to) (\<lambda>recs.
       Inr (live_pairs (ScanRange (dbMem db) from to @ recs)))"

definition ExportReplicaState :: "DB \<Rightarrow> KVPair list result" where
  "ExportReplicaState db =
     (if \<not> replica db then Inl (Err ''replica state export requires replica durability mode'')
      else rbind (load_sources (dbReaders db)) (\<lambda>rss.
        Inr (live_pairs (SortedEntries (dbMem db) @ concat rss))))"

definition SSTableCount :: "DB \<Rightarrow> nat" where
  "SSTableCount db = length (dbReaders db)"

definition BloomSkips :: "DB \<Rightarrow> nat" where
  "BloomSkips db = sum_list (map bloomSkips (dbReaders db))"

record Stats =
  stFlushes :: u64
  stCompactions :: u64

definition db_Stats :: "DB \<Rightarrow> Stats" where
  "db_Stats db = \<lparr>stFlushes = dbFlushes db, stCompactions = dbCompactions db\<rparr>"

section \<open>Writes\<close>

definition append_log :: "disk \<Rightarrow> DB \<Rightarrow> WalRecord \<Rightarrow> disk \<times> DB \<times> unit result" where
  "append_log d db r =
     (case dbLog db of
        None \<Rightarrow> (d, db, Inr ())
      | Some w \<Rightarrow> (case wal_Append d w r of (d, w, res) \<Rightarrow> (d, db\<lparr>dbLog := Some w\<rparr>, res)))"

definition db_Set :: "env \<Rightarrow> disk \<Rightarrow> DB \<Rightarrow> bytes \<Rightarrow> bytes \<Rightarrow> disk \<times> DB \<times> unit result" where
  "db_Set env d db key value =
     (if replica db then (d, db, Inl (Err ''Set is unavailable in replica mode; use ApplyBatch''))
      else
        let seq = fst (AllocSeq (dbMem db));
            db = db\<lparr>dbMem := snd (AllocSeq (dbMem db))\<rparr>
        in case append_log d db \<lparr>wType = TypePut, wSeqNum = seq, wKey = key, wValue = value\<rparr> of
             (d, db, Inl e) \<Rightarrow> (d, db, Inl e)
           | (d, db, Inr _) \<Rightarrow>
               maybeFlush env d (db\<lparr>dbMem := SetRaw (dbMem db)
                 \<lparr>rKey = key, rValue = value, rSeqNum = seq, rType = RecordTypePut\<rparr>\<rparr>))"

definition db_Delete :: "env \<Rightarrow> disk \<Rightarrow> DB \<Rightarrow> bytes \<Rightarrow> disk \<times> DB \<times> unit result" where
  "db_Delete env d db key =
     (if replica db then (d, db, Inl (Err ''Delete is unavailable in replica mode; use ApplyBatch''))
      else
        let seq = fst (AllocSeq (dbMem db));
            db = db\<lparr>dbMem := snd (AllocSeq (dbMem db))\<rparr>
        in case append_log d db \<lparr>wType = TypeDelete, wSeqNum = seq, wKey = key, wValue = []\<rparr> of
             (d, db, Inl e) \<Rightarrow> (d, db, Inl e)
           | (d, db, Inr _) \<Rightarrow>
               maybeFlush env d (db\<lparr>dbMem := SetRaw (dbMem db)
                 \<lparr>rKey = key, rValue = [], rSeqNum = seq, rType = RecordTypeDelete\<rparr>\<rparr>))"

text \<open>The first loop of \<open>ApplyBatch\<close> checks the mutations, the second applies them.\<close>

fun check_mutations :: "Mutation list \<Rightarrow> unit result" where
  "check_mutations [] = Inr ()"
| "check_mutations (m # ms) =
     (if mutKey m = [] then Inl (Err ''mutation key must not be empty'')
      else if mutType m \<noteq> MutationPut \<and> mutType m \<noteq> MutationDelete then Inl (Err ''unknown mutation type'')
      else check_mutations ms)"

definition mutation_record :: "u64 \<Rightarrow> Mutation \<Rightarrow> Record" where
  "mutation_record index m =
     \<lparr>rKey = mutKey m, rValue = mutValue m, rSeqNum = index,
      rType = (if mutType m = MutationDelete then RecordTypeDelete else RecordTypePut)\<rparr>"

definition ApplyBatch :: "env \<Rightarrow> disk \<Rightarrow> DB \<Rightarrow> u64 \<Rightarrow> Mutation list \<Rightarrow> disk \<times> DB \<times> unit result" where
  "ApplyBatch env d db index mutations =
     (if \<not> replica db then (d, db, Inl (Err ''ApplyBatch requires replica durability mode''))
      else if index = 0 then (d, db, Inl (Err ''apply index must be greater than zero''))
      else if index \<le> dbApplied db then (d, db, Inr ())
      else if index \<noteq> dbApplied db + 1 then (d, db, Inl (Err ''apply index gap''))
      else case check_mutations mutations of
             Inl e \<Rightarrow> (d, db, Inl e)
           | Inr _ \<Rightarrow>
               maybeFlush env d
                 (db\<lparr>dbMem := foldl (\<lambda>m x. SetRaw m (mutation_record index x)) (dbMem db) mutations,
                     dbApplied := index\<rparr>))"

definition AppliedIndex :: "DB \<Rightarrow> u64" where
  "AppliedIndex db = dbApplied db"

definition DurableIndex :: "DB \<Rightarrow> u64" where
  "DurableIndex db = dbDurable db"

fun check_pairs :: "bytes option \<Rightarrow> KVPair list \<Rightarrow> unit result" where
  "check_pairs prev [] = Inr ()"
| "check_pairs prev ((k, v) # ps) =
     (if k = [] \<or> (case prev of None \<Rightarrow> False | Some p \<Rightarrow> p \<ge> k)
      then Inl (Err ''snapshot keys must be non-empty and strictly sorted'')
      else check_pairs (Some k) ps)"

definition snapshot_record :: "u64 \<Rightarrow> KVPair \<Rightarrow> Record" where
  "snapshot_record index p = \<lparr>rKey = fst p, rValue = snd p, rSeqNum = index, rType = RecordTypePut\<rparr>"

text \<open>
  The common end of \<open>ReplaceReplicaState\<close> and \<open>ReplaceReplicaSnapshot\<close>: publish the new table (or none)
  as the whole state, then drop the old files.
\<close>

definition publish_snapshot ::
  "disk \<Rightarrow> DB \<Rightarrow> u64 \<Rightarrow> u64 \<Rightarrow> (string \<times> Reader) option \<Rightarrow> disk \<times> DB \<times> unit result" where
  "publish_snapshot d db index n new =
     (let state = (dbManifest db)\<lparr>mSSTables := (case new of None \<Rightarrow> [] | Some (name, _) \<Rightarrow> [name]),
            mNextSST := n, mAppliedIndex := index\<rparr>
      in case manifest_Store d state of
           (d, Inl e) \<Rightarrow> ((case new of None \<Rightarrow> d | Some (name, _) \<Rightarrow> fst (os_remove d name)), db, Inl e)
         | (d, Inr _) \<Rightarrow>
             (remove_files d (filter (\<lambda>p. case new of None \<Rightarrow> True | Some (name, _) \<Rightarrow> p \<noteq> name)
                (map rdPath (dbReaders db))),
              db\<lparr>dbReaders := (case new of None \<Rightarrow> [] | Some (_, r) \<Rightarrow> [r]),
                 dbMem := NewWithSeq (index + 1), dbNextSST := n, dbManifest := state,
                 dbApplied := index, dbDurable := index\<rparr>, Inr ()))"

definition ReplaceReplicaState :: "env \<Rightarrow> disk \<Rightarrow> DB \<Rightarrow> u64 \<Rightarrow> KVPair list \<Rightarrow> disk \<times> DB \<times> unit result" where
  "ReplaceReplicaState env d db index pairs =
     (if \<not> replica db then (d, db, Inl (Err ''replica state replacement requires replica durability mode''))
      else if index = 0 then (d, db, Inl (Err ''snapshot index must be positive''))
      else if index < dbApplied db then (d, db, Inl (Err ''snapshot index is older than applied index''))
      else case check_pairs None pairs of
             Inl e \<Rightarrow> (d, db, Inl e)
           | Inr _ \<Rightarrow>
               let records = map (snapshot_record index) pairs;
                   n = dbNextSST db + 1
               in if records = [] then publish_snapshot d db index n None
                  else case sstable_Write (eSizing env) d (sst_name n) records of
                         (d, Inl e) \<Rightarrow> (d, db, Inl e)
                       | (d, Inr _) \<Rightarrow>
                           (case sstable_Open d (sst_name n) of
                              Inl Panic \<Rightarrow> (d, db, Inl Panic)
                            | Inl (Err m) \<Rightarrow> (fst (os_remove d (sst_name n)), db, Inl (Err m))
                            | Inr r \<Rightarrow> publish_snapshot d db index n (Some (sst_name n, r))))"

definition ForceFlush :: "env \<Rightarrow> disk \<Rightarrow> DB \<Rightarrow> disk \<times> DB \<times> unit result" where
  "ForceFlush env d db = db_flush env d db"

definition ForceCompact :: "env \<Rightarrow> disk \<Rightarrow> DB \<Rightarrow> disk \<times> DB \<times> unit result" where
  "ForceCompact env d db = db_compact env d db"

definition close_handles :: "disk \<Rightarrow> DB \<Rightarrow> disk \<times> DB \<times> unit result" where
  "close_handles d db =
     (let db = db\<lparr>dbClosed := True\<rparr>
      in case dbLog db of
           None \<Rightarrow> (d, db, Inr ())
         | Some w \<Rightarrow> (case wal_Close d w of (d, res) \<Rightarrow> (d, db, res)))"

definition db_Close :: "env \<Rightarrow> disk \<Rightarrow> DB \<Rightarrow> disk \<times> DB \<times> unit result" where
  "db_Close env d db =
     (if dbClosed db then (d, db, Inr ())
      else if replica db
      then (case db_flush env d db of
              (d, db, Inl e) \<Rightarrow> (d, db, Inl e)
            | (d, db, Inr _) \<Rightarrow> close_handles d db)
      else close_handles d db)"

section \<open>Opening\<close>

text \<open>The \<open>.sst\<close> files of the directory, sorted by name.\<close>

definition sst_names :: "disk \<Rightarrow> string list" where
  "sst_names d = sorted_list_of_set {n. dFiles d n \<noteq> None \<and> hasSuffix n ''.sst''}"

text \<open>\<open>fmt.Sscanf(name, "%d.sst", &x)\<close>: the leading digits, when they are a \<open>uint64\<close>; else \<open>x\<close> is kept.\<close>

definition scan_sst :: "string \<Rightarrow> u64 \<Rightarrow> u64" where
  "scan_sst name x =
     (case parse_nat (takeWhile is_digit (dropWhile (\<lambda>b. b = 32 \<or> b = 9) (asc name))) of
        Some n \<Rightarrow> if n < 2 ^ 64 then word_of_nat n else x
      | None \<Rightarrow> x)"

fun open_readers :: "disk \<Rightarrow> string list \<Rightarrow> Reader list result" where
  "open_readers d [] = Inr []"
| "open_readers d (n # ns) =
     rbind (sstable_Open d n) (\<lambda>r. rbind (open_readers d ns) (\<lambda>rs. Inr (r # rs)))"

definition openSSTables :: "disk \<Rightarrow> (Reader list \<times> State \<times> bool) result" where
  "openSSTables d =
     rbind (manifest_Load d) (\<lambda>(state, ok).
       let state = (if ok then state
             else let names = sst_names d
                  in manifest_New\<lparr>mSSTables := names,
                       mNextSST := (if names = [] then 0 else scan_sst (last names) 0)\<rparr>)
       in rbind (open_readers d (rev (mSSTables state))) (\<lambda>rs. Inr (rs, state, \<not> ok)))"

lemma iterator_Next_pos:
  "iterator_Next (r, pos) = (it, Inr (Some rec)) \<Longrightarrow> fst it = r \<and> pos < snd it \<and> pos < metaOffset r"
  by (auto simp: iterator_Next_def dest: readRecordAt_size split: if_splits sum.splits)

function max_loop :: "Iterator \<Rightarrow> u64 \<Rightarrow> u64 result" where
  "max_loop it highest =
     (case iterator_Next it of
        (it', Inl e) \<Rightarrow> Inl e
      | (it', Inr None) \<Rightarrow> Inr highest
      | (it', Inr (Some rec)) \<Rightarrow> max_loop it' (max highest (rSeqNum rec)))"
  by pat_completeness auto
termination
  by (relation "measure (\<lambda>((r, pos), highest). nat (metaOffset r - pos))")
    (auto dest!: sym [where t = "iterator_Next _"] iterator_Next_pos)

declare max_loop.simps [simp del]

fun maxSequence_from :: "Reader list \<Rightarrow> u64 \<Rightarrow> u64 result" where
  "maxSequence_from [] highest = Inr highest"
| "maxSequence_from (r # rs) highest = rbind (max_loop (reader_Iterator r) highest) (maxSequence_from rs)"

definition maxSequence :: "Reader list \<Rightarrow> u64 result" where
  "maxSequence rs = maxSequence_from rs 0"

definition sequenceWAL :: "WalRecord list \<Rightarrow> u64 \<Rightarrow> bool \<Rightarrow> WalRecord list \<times> bool" where
  "sequenceWAL records lastSeq legacy =
     (if \<not> legacy then (filter (\<lambda>r. wSeqNum r > lastSeq) records, False)
      else
        let base = foldl (\<lambda>b r. max b (wSeqNum r)) lastSeq records;
            reused = list_ex (\<lambda>r. wSeqNum r \<le> lastSeq) records
        in if \<not> reused then (records, False)
           else (map (\<lambda>(i, r). r\<lparr>wSeqNum := base + word_of_nat i + 1\<rparr>) (enumerate 0 records), True))"

definition publishSequenceUpgrade :: "env \<Rightarrow> disk \<Rightarrow> DB \<Rightarrow> u64 \<Rightarrow> bool \<Rightarrow> disk \<times> DB \<times> unit result" where
  "publishSequenceUpgrade env d db lastSeq renumbered =
     (let state = (dbManifest db)\<lparr>mLastSeq := lastSeq\<rparr>
      in if renumbered then db_flush env d (db\<lparr>dbManifest := state\<rparr>)
         else case manifest_Store d state of
                (d, Inl e) \<Rightarrow> (d, db, Inl e)
              | (d, Inr _) \<Rightarrow> (d, db\<lparr>dbManifest := state\<rparr>, Inr ()))"

text \<open>Log types are one above record types.\<close>

definition wal_record :: "WalRecord \<Rightarrow> Record" where
  "wal_record r = \<lparr>rKey = wKey r, rValue = wValue r, rSeqNum = wSeqNum r, rType = wType r - 1\<rparr>"

definition openEmbedded ::
  "env \<Rightarrow> disk \<Rightarrow> string \<Rightarrow> Options \<Rightarrow> Reader list \<Rightarrow> State \<Rightarrow> u64 \<Rightarrow> bool \<Rightarrow> disk \<times> DB result" where
  "openEmbedded env d path opt rs st lastSeq legacy =
     (case wal_Open d ''wal'' of
        (d, Inl e) \<Rightarrow> (d, Inl e)
      | (d, Inr w) \<Rightarrow>
          (case wal_ReadAll d w of
             (d, Inl e) \<Rightarrow> (fst (wal_Close d w), Inl e)
           | (d, Inr (w, replayed)) \<Rightarrow>
               (case sequenceWAL replayed lastSeq legacy of
                  (records, renumbered) \<Rightarrow>
                    let mem = foldl (\<lambda>m r. SetRaw m (wal_record r)) (NewWithSeq (lastSeq + 1)) records;
                        db = \<lparr>dbMem = mem, dbLog = Some w, dbPath = path, dbReaders = rs,
                              dbNextSST = mNextSST st, dbOpts = opt, dbManifest = st, dbApplied = 0,
                              dbDurable = 0, dbClosed = False, dbFlushes = 0, dbCompactions = 0\<rparr>
                    in if legacy
                       then (case publishSequenceUpgrade env d db lastSeq renumbered of
                               (d, db, Inl e) \<Rightarrow> (fst (db_Close env d db), Inl e)
                             | (d, db, Inr _) \<Rightarrow> (d, Inr db))
                       else (d, Inr db))))"

definition db_Open :: "env \<Rightarrow> disk \<Rightarrow> string \<Rightarrow> Options option \<Rightarrow> disk \<times> DB result" where
  "db_Open env d path oo =
     (let opt = (case oo of None \<Rightarrow> DefaultOptions | Some opt \<Rightarrow> opt) in
      if path = ''''
      then (if optDurability opt = DurabilityReplica
            then (d, Inl (Err ''replica durability requires a persistent path''))
            else (d, Inr \<lparr>dbMem = memtable_New, dbLog = None, dbPath = '''', dbReaders = [],
                          dbNextSST = 0, dbOpts = opt, dbManifest = zero_State, dbApplied = 0,
                          dbDurable = 0, dbClosed = False, dbFlushes = 0, dbCompactions = 0\<rparr>))
      else case openSSTables d of
             Inl e \<Rightarrow> (d, Inl e)
           | Inr (rs, st, bootstrapped) \<Rightarrow>
               if optDurability opt = DurabilityReplica
               then (case (if bootstrapped then manifest_Store d st else (d, Inr ())) of
                       (d, Inl e) \<Rightarrow> (d, Inl e)
                     | (d, Inr _) \<Rightarrow>
                         (d, Inr \<lparr>dbMem = memtable_New, dbLog = None, dbPath = path, dbReaders = rs,
                                  dbNextSST = mNextSST st, dbOpts = opt, dbManifest = st,
                                  dbApplied = mAppliedIndex st, dbDurable = mAppliedIndex st,
                                  dbClosed = False, dbFlushes = 0, dbCompactions = 0\<rparr>))
               else
                 let legacy = (bootstrapped \<or> Legacy st)
                 in case (if legacy then maxSequence rs else Inr (mLastSeq st)) of
                      Inl e \<Rightarrow> (d, Inl e)
                    | Inr lastSeq \<Rightarrow> openEmbedded env d path opt rs st lastSeq legacy)"

end
