(* ===== verification/Db_Map.thy ===== *)
theory Db_Map
  imports Db
begin

text \<open>
  What a database handle means: a finite map from keys to values. The handle represents the map when
  memtable and tables form layers of strictly decreasing sequence numbers; the lemmas show that reads
  compute the map, that flush and compaction keep it on every outcome, and that writes update it.
\<close>

section \<open>Layers\<close>

definition live :: "Record option \<Rightarrow> bytes option" where
  "live e = (case e of None \<Rightarrow> None | Some r \<Rightarrow> if rType r = RecordTypeDelete then None else Some (rValue r))"

lemma live_simps [simp]:
  "live None = None" "live (Some r) = (if rType r = RecordTypeDelete then None else Some (rValue r))"
  by (simp_all add: live_def)

definition rec_ok :: "Record \<Rightarrow> bool" where
  "rec_ok r \<longleftrightarrow> fits r \<and> (rType r = RecordTypePut \<or> rType r = RecordTypeDelete)"

definition newer_layer :: "Record list \<Rightarrow> Record list \<Rightarrow> bool" where
  "newer_layer xs ys \<longleftrightarrow> (\<forall>x \<in> set xs. \<forall>y \<in> set ys. rSeqNum y < rSeqNum x)"

definition layered :: "Record list list \<Rightarrow> bool" where
  "layered ls \<longleftrightarrow> sorted_wrt newer_layer ls \<and> (\<forall>l \<in> set ls. sorted_run l)"

lemma newer_layer_concat: "newer_layer xs (concat ls) \<longleftrightarrow> (\<forall>l \<in> set ls. newer_layer xs l)"
  by (auto simp: newer_layer_def)

lemma layered_simps [simp]:
  "layered []" "layered (l # ls) \<longleftrightarrow> sorted_run l \<and> newer_layer l (concat ls) \<and> layered ls"
  by (auto simp: layered_def newer_layer_concat)

lemma newer_layer_Nil [simp]: "newer_layer [] ys" "newer_layer xs []"
  by (simp_all add: newer_layer_def)

lemma sorted_run_Nil [simp]: "sorted_run []"
  by (simp add: sorted_run_def)

lemma newest_Nil [simp]: "newest [] k = None"
  by (simp add: newest_def)

lemma layered_newest:
  assumes "layered (l # ls)"
  shows "newest (l @ concat ls) k =
    (case run_lookup l k of None \<Rightarrow> newest (concat ls) k | Some r \<Rightarrow> Some r)"
proof -
  have "newest (l @ concat ls) k = (case newest l k of None \<Rightarrow> newest (concat ls) k | Some r \<Rightarrow> Some r)"
    using assms by (intro newest_append) (auto simp: newer_layer_def)
  then show ?thesis using assms by (simp add: sorted_run_newest)
qed

lemma sorted_run_no_ties: "sorted_run l \<Longrightarrow> no_ties l"
  using run_lookup_Some_iff [of l] unfolding no_ties_def by (metis option.inject)

lemma no_ties_append:
  assumes "no_ties xs" "no_ties ys" "newer_layer xs ys"
  shows "no_ties (xs @ ys)"
proof -
  have "rSeqNum x \<noteq> rSeqNum y" if "x \<in> set xs" "y \<in> set ys" for x y
    using assms(3) that unfolding newer_layer_def by fastforce
  then show ?thesis using assms(1,2) unfolding no_ties_def set_append by (metis UnE)
qed

lemma layered_no_ties: "layered ls \<Longrightarrow> no_ties (concat ls)"
proof (induction ls)
  case (Cons l ls)
  then show ?case using no_ties_append [OF sorted_run_no_ties, of l "concat ls"] by simp
qed (simp add: no_ties_def)

section \<open>Representation\<close>

definition seq_bound :: "DB \<Rightarrow> Record \<Rightarrow> bool" where
  "seq_bound db r \<longleftrightarrow>
     (if replica db then rSeqNum r \<le> dbApplied db else rSeqNum r < nextSeq (dbMem db))"

definition versions :: "DB \<Rightarrow> Record list list \<Rightarrow> Record list" where
  "versions db rss = SortedEntries (dbMem db) @ concat rss"

definition db_rep :: "DB \<Rightarrow> Record list list \<Rightarrow> bool" where
  "db_rep db rss \<longleftrightarrow> mt_wf (dbMem db) \<and> list_all2 reads_table (dbReaders db) rss \<and>
     layered (SortedEntries (dbMem db) # rss) \<and>
     (\<forall>r \<in> set (versions db rss). rec_ok r \<and> seq_bound db r)"

definition db_map :: "DB \<Rightarrow> Record list list \<Rightarrow> bytes \<Rightarrow> bytes option" where
  "db_map db rss k = live (newest (versions db rss) k)"

lemma db_map_layers:
  assumes "db_rep db rss"
  shows "db_map db rss k = live (case GetRecord (dbMem db) k of
    None \<Rightarrow> newest (concat rss) k | Some r \<Rightarrow> Some r)"
proof -
  have "layered (SortedEntries (dbMem db) # rss)" "mt_wf (dbMem db)" using assms by (simp_all add: db_rep_def)
  from layered_newest [OF this(1)] run_lookup_SortedEntries [OF this(2)] show ?thesis
    by (simp add: db_map_def versions_def)
qed

section \<open>Get\<close>

lemma get_readers_layers:
  assumes "list_all2 reads_table rs rss" "layered rss"
  shows "snd (get_readers rs key) = Inr (live (newest (concat rss) key)) \<and>
    list_all2 reads_table (fst (get_readers rs key)) rss"
  using assms
proof (induction rs rss rule: list_all2_induct)
  case Nil
  then show ?case by (simp add: live_def)
next
  case (Cons r rs l ls)
  obtain r' res where g: "reader_Get r key = (r', res)" by fastforce
  then have res: "res = Inr (run_lookup l key)" "reads_table r' l"
    using reads_table_Get [OF Cons.hyps(1), of key] by simp_all
  have new: "newest (concat (l # ls)) key =
      (case run_lookup l key of None \<Rightarrow> newest (concat ls) key | Some r \<Rightarrow> Some r)"
    using layered_newest [OF Cons.prems] by simp
  show ?case
  proof (cases "run_lookup l key")
    case None
    then show ?thesis using Cons g res new by (auto split: prod.split)
  next
    case (Some x)
    then show ?thesis using Cons.hyps g res new by (simp add: live_def)
  qed
qed

lemma db_rep_readers:
  assumes "db_rep db rss" "list_all2 reads_table rs rss"
  shows "db_rep (db\<lparr>dbReaders := rs\<rparr>) rss" "db_map (db\<lparr>dbReaders := rs\<rparr>) rss = db_map db rss"
  using assms by (auto simp: db_rep_def versions_def seq_bound_def replica_def db_map_def)

lemma db_Get_map:
  assumes "db_rep db rss"
  shows "snd (db_Get db key) = Inr (db_map db rss key)" "db_rep (fst (db_Get db key)) rss"
    "db_map (fst (db_Get db key)) rss = db_map db rss"
proof -
  have gr: "snd (get_readers (dbReaders db) key) = Inr (live (newest (concat rss) key))"
    "list_all2 reads_table (fst (get_readers (dbReaders db) key)) rss"
    using get_readers_layers [of "dbReaders db" rss key] assms by (simp_all add: db_rep_def)
  show "snd (db_Get db key) = Inr (db_map db rss key)"
    using gr(1) by (auto simp: db_Get_def db_map_layers [OF assms] live_def split: option.split prod.split)
  show "db_rep (fst (db_Get db key)) rss" "db_map (fst (db_Get db key)) rss = db_map db rss"
    using assms db_rep_readers [OF assms gr(2)] by (auto simp: db_Get_def split: option.split prod.split)
qed

section \<open>Scan\<close>

lemma scan_readers_layers:
  assumes "list_all2 reads_table rs rss"
  shows "scan_readers rs lo hi = Inr (filter (\<lambda>x. lo \<le> rKey x \<and> rKey x \<le> hi) (concat rss))"
  using assms by (induction rs rss rule: list_all2_induct) (simp_all add: reads_table_Scan)

lemma set_foldl_keep_newest:
  "distinct (map fst bk) \<Longrightarrow> (k, r) \<in> set (foldl keep_newest bk rs) \<longleftrightarrow> map_of (foldl keep_newest bk rs) k = Some r"
  by (simp add: distinct_foldl_keep_newest)

lemma option_eqI: "(\<And>v. a = Some v \<longleftrightarrow> b = Some v) \<Longrightarrow> a = b"
  by (cases a; cases b) auto

lemma live_pairs_spec:
  "sorted_wrt (<) (map fst (live_pairs all))"
  "map_of (live_pairs all) k = (case newest all k of
     Some r \<Rightarrow> if rType r = RecordTypePut then Some (rValue r) else None | None \<Rightarrow> None)"
proof -
  define bk where "bk = foldl keep_newest [] all"
  define ps where "ps = map (\<lambda>(k, r). (k, rValue r)) (filter (\<lambda>(k, r). rType r = RecordTypePut) bk)"
  have dbk: "distinct (map fst bk)" unfolding bk_def by (rule distinct_foldl_keep_newest) simp
  have "map fst ps = map fst (filter (\<lambda>(k, r). rType r = RecordTypePut) bk)"
    by (simp add: ps_def comp_def case_prod_beta)
  then have dps: "distinct (map fst ps)" using dbk by (simp add: distinct_map_filter)
  have lp: "live_pairs all = sort_key fst ps" by (simp add: live_pairs_def ps_def bk_def)
  have dist: "distinct (map fst (live_pairs all))"
    unfolding lp using dps by (metis distinct_map distinct_sort set_sort)
  moreover have "sorted (map fst (live_pairs all))" unfolding lp by simp
  ultimately show "sorted_wrt (<) (map fst (live_pairs all))" by (simp add: strict_sorted_iff)
  have mem: "(k, v) \<in> set ps \<longleftrightarrow> (\<exists>r. newest all k = Some r \<and> rType r = RecordTypePut \<and> v = rValue r)" for v
    using dbk byKey_newest [of all k] by (force simp: ps_def bk_def)
  have "map_of (live_pairs all) k = Some v \<longleftrightarrow> (k, v) \<in> set ps" for v
    using dist by (simp add: lp)
  then have "map_of (live_pairs all) k = Some v \<longleftrightarrow> (case newest all k of
     Some r \<Rightarrow> if rType r = RecordTypePut then Some (rValue r) else None | None \<Rightarrow> None) = Some v" for v
    using mem by (auto split: option.split)
  then show "map_of (live_pairs all) k = (case newest all k of
     Some r \<Rightarrow> if rType r = RecordTypePut then Some (rValue r) else None | None \<Rightarrow> None)"
    by (rule option_eqI)
qed

lemma put_live:
  "(\<forall>r. e = Some r \<longrightarrow> rec_ok r) \<Longrightarrow>
    (case e of Some r \<Rightarrow> if rType r = RecordTypePut then Some (rValue r) else None | None \<Rightarrow> None) = live e"
  by (auto simp: live_def rec_ok_def RecordTypePut_def RecordTypeDelete_def split: option.split)

lemma newest_filter_keys:
  "newest (filter (\<lambda>x. P (rKey x)) rs) k = (if P k then newest rs k else None)"
proof -
  have "filter (\<lambda>r. rKey r = k) (filter (\<lambda>x. P (rKey x)) rs) =
      (if P k then filter (\<lambda>r. rKey r = k) rs else [])"
    by (induction rs) auto
  then show ?thesis by (simp add: newest_def)
qed

lemma newest_rec_ok: "db_rep db rss \<Longrightarrow> newest (versions db rss) k = Some r \<Longrightarrow> rec_ok r"
  using newest_SomeD(1) by (fastforce simp: db_rep_def)

lemma db_Scan_map:
  assumes "db_rep db rss"
  shows "\<exists>ps. db_Scan db lo hi = Inr ps \<and> sorted_wrt (<) (map fst ps) \<and>
    (\<forall>k. map_of ps k = (if lo \<le> k \<and> k \<le> hi then db_map db rss k else None))"
proof -
  let ?P = "\<lambda>k. lo \<le> k \<and> k \<le> hi"
  have wf: "mt_wf (dbMem db)" and rd: "list_all2 reads_table (dbReaders db) rss" using assms by (simp_all add: db_rep_def)
  define all where "all = filter (\<lambda>x. ?P (rKey x)) (versions db rss)"
  have scan: "db_Scan db lo hi = Inr (live_pairs all)"
    by (simp add: db_Scan_def scan_readers_layers [OF rd] ScanRange_filter [OF wf] all_def versions_def)
  have "map_of (live_pairs all) k = (if ?P k then db_map db rss k else None)" for k
    unfolding live_pairs_spec(2) using newest_rec_ok [OF assms, of k]
    by (simp add: all_def newest_filter_keys [where P = ?P] put_live db_map_def)
  with scan live_pairs_spec(1) show ?thesis by blast
qed

lemma ExportReplicaState_map:
  assumes "db_rep db rss" "replica db"
  shows "\<exists>ps. ExportReplicaState db = Inr ps \<and> sorted_wrt (<) (map fst ps) \<and> map_of ps = db_map db rss"
proof -
  have rd: "list_all2 reads_table (dbReaders db) rss" using assms by (simp add: db_rep_def)
  have "ExportReplicaState db = Inr (live_pairs (versions db rss))"
    using assms(2) by (simp add: ExportReplicaState_def load_sources_tables [OF rd] versions_def)
  moreover have "map_of (live_pairs (versions db rss)) k = db_map db rss k" for k
    unfolding live_pairs_spec(2) using newest_rec_ok [OF assms(1), of k] by (simp add: put_live db_map_def)
  ultimately show ?thesis using live_pairs_spec(1) by blast
qed

section \<open>Flush and compaction keep the map\<close>

definition same_map :: "DB \<Rightarrow> Record list list \<Rightarrow> DB \<Rightarrow> Record list list \<Rightarrow> bool" where
  "same_map db rss db' rss' \<longleftrightarrow> db_map db' rss' = db_map db rss \<and>
     weight (versions db' rss') \<le> weight (versions db rss) \<and>
     nextSeq (dbMem db') = nextSeq (dbMem db) \<and> replica db' = replica db \<and> dbApplied db' = dbApplied db"

lemma same_map_refl [simp]: "same_map db rss db rss"
  by (simp add: same_map_def)

lemma same_map_trans: "same_map a x b y \<Longrightarrow> same_map b y c z \<Longrightarrow> same_map a x c z"
  by (simp add: same_map_def)

text \<open>Fields that do not matter.\<close>

lemma db_rep_update [simp]:
  "db_rep (db\<lparr>dbNextSST := n\<rparr>) rss = db_rep db rss" "db_rep (db\<lparr>dbManifest := s\<rparr>) rss = db_rep db rss"
  "db_rep (db\<lparr>dbLog := w\<rparr>) rss = db_rep db rss" "db_rep (db\<lparr>dbFlushes := f\<rparr>) rss = db_rep db rss"
  "db_rep (db\<lparr>dbCompactions := f\<rparr>) rss = db_rep db rss" "db_rep (db\<lparr>dbDurable := x\<rparr>) rss = db_rep db rss"
  "db_rep (db\<lparr>dbClosed := c\<rparr>) rss = db_rep db rss"
  by (simp_all add: db_rep_def versions_def seq_bound_def replica_def)

lemma versions_update [simp]:
  "versions (db\<lparr>dbNextSST := n\<rparr>) rss = versions db rss" "versions (db\<lparr>dbManifest := s\<rparr>) rss = versions db rss"
  "versions (db\<lparr>dbLog := w\<rparr>) rss = versions db rss" "versions (db\<lparr>dbFlushes := f\<rparr>) rss = versions db rss"
  "versions (db\<lparr>dbCompactions := f\<rparr>) rss = versions db rss" "versions (db\<lparr>dbDurable := x\<rparr>) rss = versions db rss"
  "versions (db\<lparr>dbClosed := c\<rparr>) rss = versions db rss" "versions (db\<lparr>dbReaders := rs\<rparr>) rss = versions db rss"
  "versions (db\<lparr>dbApplied := i\<rparr>) rss = versions db rss"
  by (simp_all add: versions_def)

lemma db_map_update [simp]:
  "db_map (db\<lparr>dbNextSST := n\<rparr>) rss = db_map db rss" "db_map (db\<lparr>dbManifest := s\<rparr>) rss = db_map db rss"
  "db_map (db\<lparr>dbLog := w\<rparr>) rss = db_map db rss" "db_map (db\<lparr>dbFlushes := f\<rparr>) rss = db_map db rss"
  "db_map (db\<lparr>dbCompactions := f\<rparr>) rss = db_map db rss" "db_map (db\<lparr>dbDurable := x\<rparr>) rss = db_map db rss"
  "db_map (db\<lparr>dbClosed := c\<rparr>) rss = db_map db rss" "db_map (db\<lparr>dbReaders := rs\<rparr>) rss = db_map db rss"
  by (simp_all add: db_map_def fun_eq_iff)

lemma replica_update [simp]:
  "replica (db\<lparr>dbNextSST := n\<rparr>) = replica db" "replica (db\<lparr>dbManifest := s\<rparr>) = replica db"
  "replica (db\<lparr>dbLog := w\<rparr>) = replica db" "replica (db\<lparr>dbFlushes := f\<rparr>) = replica db"
  "replica (db\<lparr>dbCompactions := f\<rparr>) = replica db" "replica (db\<lparr>dbDurable := x\<rparr>) = replica db"
  "replica (db\<lparr>dbClosed := c\<rparr>) = replica db" "replica (db\<lparr>dbReaders := rs\<rparr>) = replica db"
  "replica (db\<lparr>dbMem := m\<rparr>) = replica db" "replica (db\<lparr>dbApplied := i\<rparr>) = replica db"
  by (simp_all add: replica_def)

lemma nextSeq_New [simp]: "nextSeq (NewWithSeq s) = s" "NextSeq m = nextSeq m"
  by (simp_all add: NewWithSeq_def NextSeq_def)

lemma mset_sub_weight: "distinct xs \<Longrightarrow> set xs \<subseteq> set ys \<Longrightarrow> weight xs \<le> weight ys"
proof (induction xs arbitrary: ys)
  case (Cons x xs)
  then obtain a b where ys: "ys = a @ x # b" by (auto dest: split_list)
  have "weight xs \<le> weight (a @ b)" using Cons ys by (intro Cons.IH) auto
  then show ?case using ys by simp
qed simp

lemma sorted_run_distinct_list: "sorted_run rs \<Longrightarrow> distinct rs"
  using sorted_run_distinct distinct_map by blast

text \<open>The compacted table stands for the tables it replaces.\<close>

lemma compacted_layers:
  assumes "db_rep db rss" "compacted True rss out"
  shows "layered (SortedEntries (dbMem db) # [out])"
    "live (newest (versions db [out]) k) = db_map db rss k"
    "weight (versions db [out]) \<le> weight (versions db rss)"
proof -
  have out: "sorted_run out" "set out \<subseteq> set (concat rss)" using assms(2) by (simp_all add: compacted_def)
  show lay: "layered (SortedEntries (dbMem db) # [out])"
    using assms(1) out by (auto simp: db_rep_def newer_layer_def)
  have "newest (versions db [out]) k = (case GetRecord (dbMem db) k of
      None \<Rightarrow> run_lookup out k | Some r \<Rightarrow> Some r)"
    using layered_newest [OF lay, of k] run_lookup_SortedEntries [of "dbMem db" k] assms(1) out(1)
    by (simp add: versions_def db_rep_def sorted_run_newest split: option.split)
  moreover have "live (run_lookup out k) = live (newest (concat rss) k)"
    using assms(2) by (auto simp: compacted_def live_def dropped_def split: option.split)
  ultimately show "live (newest (versions db [out]) k) = db_map db rss k"
    by (simp add: db_map_layers [OF assms(1)] split: option.split)
  show "weight (versions db [out]) \<le> weight (versions db rss)"
    using mset_sub_weight [OF sorted_run_distinct_list [OF out(1)] out(2)] by (simp add: versions_def)
qed

lemma rep_compacted:
  assumes "db_rep db rss" "compacted True rss out"
    and "if out = [] then rs = [] else \<exists>r. rs = [r] \<and> reads_table r out"
  shows "\<exists>rss'. db_rep (db\<lparr>dbReaders := rs\<rparr>) rss' \<and> same_map db rss db rss'"
proof (cases "out = []")
  case True
  have m: "live (newest (versions db [[]]) k) = db_map db rss k" for k
    using compacted_layers(2) [OF assms(1,2)] True by simp
  have "db_rep (db\<lparr>dbReaders := rs\<rparr>) []"
    using assms(1,3) True by (auto simp: db_rep_def versions_def seq_bound_def replica_def)
  moreover have "same_map db rss db []"
    using m by (simp add: same_map_def db_map_def fun_eq_iff versions_def)
  ultimately show ?thesis by blast
next
  case False
  then obtain r where r: "rs = [r]" "reads_table r out" using assms(3) by auto
  note c = compacted_layers [OF assms(1,2)]
  have "set (versions db [out]) \<subseteq> set (versions db rss)"
    using assms(2) by (auto simp: compacted_def versions_def)
  then have "db_rep (db\<lparr>dbReaders := rs\<rparr>) [out]"
    using assms(1) r c(1) by (auto simp: db_rep_def versions_def seq_bound_def replica_def)
  moreover have "same_map db rss db [out]"
    using c(2,3) by (simp add: same_map_def db_map_def fun_eq_iff)
  ultimately show ?thesis by blast
qed

text \<open>What the environment provides: the filter sizes; and the size of the data.\<close>

definition env_ok :: "env \<Rightarrow> DB \<Rightarrow> Record list list \<Rightarrow> bool" where
  "env_ok env db rss \<longleftrightarrow> good_sizing (eSizing env) \<and> weight (versions db rss) \<le> 2 ^ 43"

lemma Compact_opens:
  assumes "db_rep db rss" "env_ok env db rss" "dbReaders db \<noteq> []"
  obtains out where "compacted True rss out"
    "Compact (eSizing env) d (dbReaders db) path True =
       (if out = [] then (d, Inr 0)
        else case sstable_Write (eSizing env) d path out of
               (d, Inl e) \<Rightarrow> (d, Inl e) | (d, Inr _) \<Rightarrow> (d, Inr (length out)))"
    "\<And>d'. out \<noteq> [] \<Longrightarrow> sstable_Write (eSizing env) d path out = (d', Inr ()) \<Longrightarrow>
       \<exists>r. sstable_Open d' path = Inr r \<and> reads_table r out \<and> rdPath r = path"
proof -
  have rd: "list_all2 reads_table (dbReaders db) rss" and nt: "no_ties (concat rss)"
    using assms(1) layered_no_ties by (auto simp: db_rep_def)
  obtain out where out: "compacted True rss out"
    "Compact (eSizing env) d (dbReaders db) path True =
       (if out = [] then (d, Inr 0)
        else case sstable_Write (eSizing env) d path out of
               (d, Inl e) \<Rightarrow> (d, Inl e) | (d, Inr _) \<Rightarrow> (d, Inr (length out)))"
    using Compact_cases [OF rd assms(3) nt] by blast
  have run: "sorted_run out" and sub: "set out \<subseteq> set (concat rss)" using out(1) by (simp_all add: compacted_def)
  have "weight out \<le> 2 ^ 43"
    using mset_sub_weight [OF sorted_run_distinct_list [OF run] sub] assms(2)
    by (simp add: env_ok_def versions_def)
  moreover have "\<forall>x \<in> set out. fits x"
    using sub assms(1) by (auto simp: db_rep_def versions_def rec_ok_def)
  ultimately show ?thesis
    using that [OF out] Write_reads_table [OF _ _ _ run] assms(2) by (simp add: env_ok_def)
qed

lemma db_compact_map:
  assumes "db_rep db rss" "env_ok env db rss" "db_compact env d db = (d', db', res)"
  shows "\<exists>rss'. db_rep db' rss' \<and> same_map db rss db' rss'"
proof (cases "dbReaders db = []")
  case True
  then show ?thesis using assms by (auto simp: db_compact_def)
next
  case False
  define path where "path = sst_name (dbNextSST db + 1)"
  obtain out where out: "compacted True rss out"
    "Compact (eSizing env) d (dbReaders db) path True =
       (if out = [] then (d, Inr 0)
        else case sstable_Write (eSizing env) d path out of
               (d, Inl e) \<Rightarrow> (d, Inl e) | (d, Inr _) \<Rightarrow> (d, Inr (length out)))"
    "\<And>d'. out \<noteq> [] \<Longrightarrow> sstable_Write (eSizing env) d path out = (d', Inr ()) \<Longrightarrow>
       \<exists>r. sstable_Open d' path = Inr r \<and> reads_table r out \<and> rdPath r = path"
    using Compact_opens [OF assms(1,2) False] by blast
  have keep: "db_rep db rss \<and> same_map db rss db rss" using assms(1) by simp
  have fin: "\<exists>rss'. db_rep (db\<lparr>dbNextSST := n, dbReaders := rs, dbManifest := s, dbCompactions := c\<rparr>) rss' \<and>
      same_map db rss (db\<lparr>dbNextSST := n, dbReaders := rs, dbManifest := s, dbCompactions := c\<rparr>) rss'"
    if "if out = [] then rs = [] else \<exists>r. rs = [r] \<and> reads_table r out" for n rs s c
    using rep_compacted [of "db\<lparr>dbNextSST := n\<rparr>" rss out rs] assms(1) out(1) that by (simp add: same_map_def)
  show ?thesis
  proof (cases "out = []")
    case True
    then show ?thesis using assms(3) False out(2) fin [of "[]"] keep
      by (auto simp: db_compact_def Let_def after_failure_def path_def split: prod.splits sum.splits failure.splits)
  next
    case ne: False
    obtain d1 r1 where w: "sstable_Write (eSizing env) d path out = (d1, r1)" by fastforce
    show ?thesis
    proof (cases r1)
      case (Inl e)
      then show ?thesis using assms(3) False out(2) ne w keep
        by (auto simp: db_compact_def Let_def after_failure_def path_def same_map_def db_map_def
            split: failure.splits)
    next
      case (Inr u)
      then obtain r where r: "sstable_Open d1 path = Inr r" "reads_table r out" using out(3) [OF ne] w by auto
      have "if out = [] then [r] = [] else \<exists>r'. [r] = [r'] \<and> reads_table r' out" using ne r by simp
      note fin [OF this]
      then show ?thesis using assms(3) False out(2) ne w Inr r keep
        by (auto simp: db_compact_def Let_def path_def split: prod.splits sum.splits)
    qed
  qed
qed

lemma env_ok_same: "env_ok env db rss \<Longrightarrow> same_map db rss db' rss' \<Longrightarrow> env_ok env db' rss'"
  by (simp add: env_ok_def same_map_def)

lemma maybeCompact_map:
  assumes "db_rep db rss" "env_ok env db rss" "maybeCompact env d db = (d', db', res)"
  shows "\<exists>rss'. db_rep db' rss' \<and> same_map db rss db' rss'"
proof (cases "int (length (dbReaders db)) < compactionThreshold (dbOpts db)")
  case True
  then have "db' = db" using assms(3) by (simp add: maybeCompact_def)
  with assms(1) show ?thesis by auto
next
  case False
  then have "db_compact env d db = (d', db', res)" using assms(3) by (simp add: maybeCompact_def)
  with assms(1,2) show ?thesis by (rule db_compact_map)
qed

lemma flush_finish_map:
  assumes "db_rep db rss" "env_ok env db rss" "flush_finish env d db = (d', db', res)"
  shows "\<exists>rss'. db_rep db' rss' \<and> same_map db rss db' rss'"
proof -
  have comp: "\<exists>rss'. db_rep db' rss' \<and> same_map db rss db' rss'"
    if "maybeCompact env d1 (db\<lparr>dbLog := w, dbFlushes := f\<rparr>) = (d', db', res)" for d1 w f
  proof -
    have "env_ok env (db\<lparr>dbLog := w, dbFlushes := f\<rparr>) rss" using assms(2) by (simp add: env_ok_def)
    from maybeCompact_map [OF _ this that] assms(1) show ?thesis by (simp add: same_map_def)
  qed
  have comp': "\<exists>rss'. db_rep db' rss' \<and> same_map db rss db' rss'"
    if "maybeCompact env d1 (db\<lparr>dbFlushes := f\<rparr>) = (d', db', res)" for d1 f
    using comp [where w = "dbLog db"] that by simp
  show ?thesis
    using assms comp comp'
    by (auto simp: flush_finish_def same_map_def split: option.splits prod.splits sum.splits)
qed

text \<open>The memtable as the newest table.\<close>

lemma SortedEntries_New [simp]: "SortedEntries (NewWithSeq s) = []"
  by (simp add: SortedEntries_def NewWithSeq_def)

lemma rep_flushed:
  assumes "db_rep db rss" "reads_table r (SortedEntries (dbMem db))"
  shows "db_rep (db\<lparr>dbReaders := r # dbReaders db, dbMem := NewWithSeq (NextSeq (dbMem db))\<rparr>)
      (SortedEntries (dbMem db) # rss)"
    "same_map db rss (db\<lparr>dbReaders := r # dbReaders db, dbMem := NewWithSeq (NextSeq (dbMem db))\<rparr>)
      (SortedEntries (dbMem db) # rss)"
proof -
  have "nextSeq (NewWithSeq s) = s" for s by (simp add: NewWithSeq_def)
  then show "db_rep (db\<lparr>dbReaders := r # dbReaders db, dbMem := NewWithSeq (NextSeq (dbMem db))\<rparr>)
      (SortedEntries (dbMem db) # rss)"
    using assms by (auto simp: db_rep_def versions_def seq_bound_def replica_def NextSeq_def)
  show "same_map db rss (db\<lparr>dbReaders := r # dbReaders db, dbMem := NewWithSeq (NextSeq (dbMem db))\<rparr>)
      (SortedEntries (dbMem db) # rss)"
    by (simp add: same_map_def db_map_def versions_def fun_eq_iff)
qed

lemma flush_table:
  assumes "db_rep db rss" "env_ok env db rss" "SortedEntries (dbMem db) \<noteq> []"
    and "sstable_Write (eSizing env) d path (SortedEntries (dbMem db)) = (d', Inr ())"
  shows "\<exists>r. sstable_Open d' path = Inr r \<and> reads_table r (SortedEntries (dbMem db)) \<and> rdPath r = path"
  using assms by (intro Write_reads_table) (auto simp: env_ok_def db_rep_def versions_def rec_ok_def)

lemma db_flush_map:
  assumes "db_rep db rss" "env_ok env db rss" "db_flush env d db = (d', db', res)"
  shows "\<exists>rss'. db_rep db' rss' \<and> same_map db rss db' rss'"
proof -
  define recs where "recs = SortedEntries (dbMem db)"
  have keep: "db_rep db rss \<and> same_map db rss db rss" using assms(1) by simp
  consider "recs = []" | "recs \<noteq> []" "dbPath db = ''''" | "recs \<noteq> []" "dbPath db \<noteq> ''''" by blast
  then show ?thesis
  proof cases
    case 1
    then show ?thesis using assms(1,3)
      by (auto simp: db_flush_def flush_index_def Let_def recs_def same_map_def split: if_splits prod.splits sum.splits)
  next
    case 2
    then show ?thesis using assms(3) keep by (auto simp: db_flush_def Let_def recs_def)
  next
    case 3
    define path where "path = sst_name (dbNextSST db + 1)"
    obtain d1 r1 where w: "sstable_Write (eSizing env) d path recs = (d1, r1)" by fastforce
    show ?thesis
    proof (cases r1)
      case (Inl e)
      then show ?thesis using assms(3) 3 w keep
        by (auto simp: db_flush_def Let_def recs_def [symmetric] path_def [symmetric] after_failure_def
            same_map_def split: failure.splits)
    next
      case (Inr u)
      then obtain r where r: "sstable_Open d1 path = Inr r" "reads_table r recs"
        using flush_table [OF assms(1,2), of d path d1] 3 w by (auto simp: recs_def)
      note rf = rep_flushed [OF assms(1) r(2) [unfolded recs_def]]
      have fin: "\<exists>rss'. db_rep db' rss' \<and> same_map db rss db' rss'"
        if "flush_finish env d2 (db\<lparr>dbNextSST := n, dbReaders := r # dbReaders db,
            dbMem := NewWithSeq (NextSeq (dbMem db)), dbManifest := s, dbDurable := x\<rparr>) = (d', db', res)" for d2 n s x
      proof -
        let ?b = "db\<lparr>dbNextSST := n, dbReaders := r # dbReaders db,
            dbMem := NewWithSeq (NextSeq (dbMem db)), dbManifest := s, dbDurable := x\<rparr>"
        have b: "db_rep ?b (recs # rss)" "same_map db rss ?b (recs # rss)"
          using rep_flushed [of "db\<lparr>dbNextSST := n\<rparr>" rss r] assms(1) r(2)
          by (simp_all add: same_map_def recs_def)
        from flush_finish_map [OF b(1) env_ok_same [OF assms(2) b(2)] that] b(2)
        show ?thesis using same_map_trans by blast
      qed
      show ?thesis using assms(3) 3 w Inr r keep fin
        by (auto simp: db_flush_def Let_def recs_def [symmetric] path_def [symmetric] same_map_def
            split: option.splits prod.splits sum.splits)
    qed
  qed
qed

lemma maybeFlush_map:
  assumes "db_rep db rss" "env_ok env db rss" "maybeFlush env d db = (d', db', res)"
  shows "\<exists>rss'. db_rep db' rss' \<and> same_map db rss db' rss'"
proof (cases "dbPath db = '''' \<or> int (memtable_Size (dbMem db)) < flushThreshold (dbOpts db)")
  case True
  then have "db' = db" using assms(3) by (auto simp: maybeFlush_def split: if_splits)
  with assms(1) show ?thesis by auto
next
  case False
  then have "db_flush env d db = (d', db', res)" using assms(3) by (simp add: maybeFlush_def)
  with assms(1,2) show ?thesis by (rule db_flush_map)
qed

section \<open>Writes update the map\<close>

lemma set_SortedEntries_SetRaw: "set (SortedEntries (SetRaw m r)) \<subseteq> insert r (set (SortedEntries m))"
  using set_keep_newest_subset [of "entries m" r] by (auto simp: set_SortedEntries SetRaw_entries image_iff)

lemma set_SortedEntries_SetAll:
  "set (SortedEntries (foldl SetRaw m rs)) \<subseteq> set rs \<union> set (SortedEntries m)"
proof (induction rs arbitrary: m)
  case (Cons r rs)
  from Cons [of "SetRaw m r"] set_SortedEntries_SetRaw [of m r] show ?case by auto
qed simp

lemma foldl_pick_same_seq:
  assumes "\<forall>r \<in> set rs. rSeqNum r = s" "\<forall>x. e = Some x \<longrightarrow> rSeqNum x < s"
  shows "foldl pick e rs = (case rs of [] \<Rightarrow> e | r # _ \<Rightarrow> Some r)"
proof (cases rs)
  case (Cons r rs')
  have "foldl pick (Some r) l = Some r" if "\<forall>x \<in> set l. rSeqNum x = rSeqNum r" for l
    using that by (induction l) (simp_all add: pick_def)
  moreover have "pick e r = Some r" using assms Cons by (cases e) (simp_all add: pick_def)
  ultimately show ?thesis using assms(1) Cons by simp
qed simp

lemma find_filter: "find P xs = (case filter P xs of [] \<Rightarrow> None | x # _ \<Rightarrow> Some x)"
  by (induction xs) auto

text \<open>
  Records of one sequence number that is newer than everything, set in the memtable: the first of
  each key becomes the value of the key.
\<close>

lemma rep_SetAll:
  assumes "db_rep db rss" "\<forall>r \<in> set rs. rec_ok r \<and> rSeqNum r = s"
    and "\<forall>x \<in> set (versions db rss). rSeqNum x < s"
    and "dbMem db' = foldl SetRaw (dbMem db) rs" "dbReaders db' = dbReaders db"
    and "\<forall>x \<in> set rs \<union> set (versions db rss). seq_bound db' x"
  shows "db_rep db' rss"
    "db_map db' rss k = (case find (\<lambda>r. rKey r = k) rs of None \<Rightarrow> db_map db rss k | Some r \<Rightarrow> live (Some r))"
    "weight (versions db' rss) \<le> weight rs + weight (versions db rss)"
proof -
  let ?m = "foldl SetRaw (dbMem db) rs"
  have wf0: "mt_wf (dbMem db)" using assms(1) by (simp add: db_rep_def)
  then have wf: "mt_wf ?m" by (rule mt.replay_inv)
  note sub = set_SortedEntries_SetAll [of "dbMem db" rs]
  have "newer_layer (SortedEntries (dbMem db)) (concat rss)"
    "\<forall>r \<in> set rs. \<forall>y \<in> set (concat rss). rSeqNum y < rSeqNum r"
    using assms(1-3) by (auto simp: db_rep_def versions_def)
  then have "newer_layer (SortedEntries ?m) (concat rss)" using sub unfolding newer_layer_def by blast
  moreover have "\<forall>x \<in> set (versions db' rss). rec_ok x \<and> seq_bound db' x"
    using assms(1,2,4,6) sub by (auto simp: db_rep_def versions_def)
  ultimately show rep: "db_rep db' rss"
    using assms(1,4,5) wf sorted_run_SortedEntries [OF wf] by (simp add: db_rep_def)
  have "rSeqNum x < s" if "GetRecord (dbMem db) k = Some x" for x
    using that assms(3) wf0 by (force simp: versions_def set_SortedEntries GetRecord_in_entries)
  then have "foldl pick (GetRecord (dbMem db) k) (filter (\<lambda>r. rKey r = k) rs) =
      (case filter (\<lambda>r. rKey r = k) rs of [] \<Rightarrow> GetRecord (dbMem db) k | r # _ \<Rightarrow> Some r)"
    using assms(2) by (intro foldl_pick_same_seq) auto
  then have "GetRecord ?m k = (case find (\<lambda>r. rKey r = k) rs of None \<Rightarrow> GetRecord (dbMem db) k | Some r \<Rightarrow> Some r)"
    unfolding mt.replay_lookup [OF wf0] find_filter by (simp split: list.split)
  then show "db_map db' rss k = (case find (\<lambda>r. rKey r = k) rs of None \<Rightarrow> db_map db rss k | Some r \<Rightarrow> live (Some r))"
    using assms(4) by (simp add: db_map_layers [OF rep] db_map_layers [OF assms(1)] split: option.split)
  show "weight (versions db' rss) \<le> weight rs + weight (versions db rss)"
    using mset_sub_weight [OF sorted_run_distinct_list [OF sorted_run_SortedEntries [OF wf]],
        of "rs @ SortedEntries (dbMem db)"] sub assms(4)
    by (simp add: versions_def)
qed

lemma rep_SetRaw:
  assumes "db_rep db rss" "rec_ok r" "\<forall>x \<in> set (versions db rss). rSeqNum x < rSeqNum r"
    and "dbMem db' = SetRaw (dbMem db) r" "dbReaders db' = dbReaders db"
    and "\<forall>x \<in> set (r # versions db rss). seq_bound db' x"
  shows "db_rep db' rss" "db_map db' rss = (db_map db rss)(rKey r := live (Some r))"
    "weight (versions db' rss) \<le> record_size r + weight (versions db rss)"
  using rep_SetAll [of db rss "[r]" "rSeqNum r" db'] assms by (auto simp: fun_eq_iff)

lemma append_log_map:
  assumes "append_log d db w = (d', db', res)" "db_rep db rss"
  shows "db_rep db' rss" "versions db' rss = versions db rss" "db_map db' rss = db_map db rss"
    "dbMem db' = dbMem db" "replica db' = replica db" "dbReaders db' = dbReaders db"
  using assms by (auto simp: append_log_def replica_def split: option.splits prod.splits)

text \<open>\<open>Set\<close> and \<open>Delete\<close> are the same operation on a record; this is its effect on the map.\<close>

definition db_write :: "env \<Rightarrow> disk \<Rightarrow> DB \<Rightarrow> byte \<Rightarrow> Record \<Rightarrow> disk \<times> DB \<times> unit result" where
  "db_write env d db t r =
     (case append_log d (db\<lparr>dbMem := snd (AllocSeq (dbMem db))\<rparr>)
         \<lparr>wType = t, wSeqNum = rSeqNum r, wKey = rKey r, wValue = rValue r\<rparr> of
        (d, db, Inl e) \<Rightarrow> (d, db, Inl e)
      | (d, db, Inr _) \<Rightarrow> maybeFlush env d (db\<lparr>dbMem := SetRaw (dbMem db) r\<rparr>))"

definition put_record :: "DB \<Rightarrow> bytes \<Rightarrow> bytes \<Rightarrow> Record" where
  "put_record db key value =
     \<lparr>rKey = key, rValue = value, rSeqNum = nextSeq (dbMem db), rType = RecordTypePut\<rparr>"

definition del_record :: "DB \<Rightarrow> bytes \<Rightarrow> Record" where
  "del_record db key = \<lparr>rKey = key, rValue = [], rSeqNum = nextSeq (dbMem db), rType = RecordTypeDelete\<rparr>"

lemma db_Set_write: "\<not> replica db \<Longrightarrow> db_Set env d db key value = db_write env d db TypePut (put_record db key value)"
  by (simp add: db_Set_def db_write_def put_record_def AllocSeq_def Let_def)

lemma db_Delete_write: "\<not> replica db \<Longrightarrow> db_Delete env d db key = db_write env d db TypeDelete (del_record db key)"
  by (simp add: db_Delete_def db_write_def del_record_def AllocSeq_def Let_def)

lemma rep_AllocSeq:
  assumes "db_rep db rss" "\<not> replica db" "unat (nextSeq (dbMem db)) < 2 ^ 64 - 1"
  shows "db_rep (db\<lparr>dbMem := snd (AllocSeq (dbMem db))\<rparr>) rss"
    "versions (db\<lparr>dbMem := snd (AllocSeq (dbMem db))\<rparr>) rss = versions db rss"
proof -
  have same: "SortedEntries (snd (AllocSeq (dbMem db))) = SortedEntries (dbMem db)"
    "mt_wf (snd (AllocSeq (dbMem db))) = mt_wf (dbMem db)"
    by (simp_all add: AllocSeq_def SortedEntries_def mt_wf_def)
  have "x < nextSeq (dbMem db) \<Longrightarrow> x < nextSeq (dbMem db) + 1" for x
    using assms(3) by (auto simp: u64_less_inc)
  then show "db_rep (db\<lparr>dbMem := snd (AllocSeq (dbMem db))\<rparr>) rss"
    using assms(1,2) same by (auto simp: db_rep_def versions_def seq_bound_def replica_def AllocSeq_def)
  show "versions (db\<lparr>dbMem := snd (AllocSeq (dbMem db))\<rparr>) rss = versions db rss"
    using same by (simp add: versions_def)
qed

lemma db_write_map:
  assumes "db_rep db rss" "\<not> replica db" "unat (nextSeq (dbMem db)) < 2 ^ 64 - 1"
    and "rec_ok r" "rSeqNum r = nextSeq (dbMem db)"
    and "good_sizing (eSizing env)" "record_size r + weight (versions db rss) \<le> 2 ^ 43"
    and "db_write env d db t r = (d', db', res)"
  shows "\<exists>rss'. db_rep db' rss' \<and>
    (db_map db' rss' = (db_map db rss)(rKey r := live (Some r)) \<or>
     db_map db' rss' = db_map db rss \<and> res \<noteq> Inr ()) \<and>
    weight (versions db' rss') \<le> record_size r + weight (versions db rss) \<and>
    nextSeq (dbMem db') = nextSeq (dbMem db) + 1 \<and> \<not> replica db'"
proof -
  define db0 where "db0 = db\<lparr>dbMem := snd (AllocSeq (dbMem db))\<rparr>"
  have r0: "db_rep db0 rss" "versions db0 rss = versions db rss"
    using rep_AllocSeq [OF assms(1-3)] by (simp_all add: db0_def)
  have map0: "db_map db0 rss = db_map db rss" using r0(2) by (simp add: db_map_def fun_eq_iff)
  obtain d1 db1 res1 where al: "append_log d db0 \<lparr>wType = t, wSeqNum = rSeqNum r, wKey = rKey r, wValue = rValue r\<rparr>
      = (d1, db1, res1)" by (metis prod_cases3)
  note a = append_log_map [OF al r0(1)]
  have next0: "nextSeq (dbMem db1) = nextSeq (dbMem db) + 1" using a(4) by (simp add: db0_def AllocSeq_def)
  have nr1: "\<not> replica db1" using a(5) assms(2) by (simp add: db0_def)
  show ?thesis
  proof (cases res1)
    case (Inl e)
    then have "db' = db1" "res = Inl e" using assms(8) al by (simp_all add: db_write_def db0_def)
    with a map0 next0 nr1 r0(2) show ?thesis by auto
  next
    case (Inr u)
    define db2 where "db2 = db1\<lparr>dbMem := SetRaw (dbMem db1) r\<rparr>"
    have mf: "maybeFlush env d1 db2 = (d', db', res)" using assms(8) al Inr by (simp add: db_write_def db0_def db2_def)
    have vs: "versions db1 rss = versions db rss" using a(2) r0(2) by simp
    have lt: "\<forall>x \<in> set (versions db rss). rSeqNum x < rSeqNum r"
      using assms(1,2,5) by (auto simp: db_rep_def seq_bound_def)
    have inc: "nextSeq (dbMem db) < nextSeq (dbMem db) + 1" using assms(3) by (simp add: u64_less_inc)
    have nr: "\<not> replica db2" using nr1 by (simp add: db2_def)
    have next2: "nextSeq (dbMem db2) = nextSeq (dbMem db) + 1"
      using next0 inc assms(5) by (simp add: db2_def SetRaw_nextSeq)
    from this have sb: "\<forall>x \<in> set (r # versions db1 rss). seq_bound db2 x"
      using nr lt inc assms(5) vs by (auto simp: seq_bound_def u64_less_inc assms(3) less_imp_le)
    have r2: "db_rep db2 rss" "db_map db2 rss = (db_map db rss)(rKey r := live (Some r))"
      "weight (versions db2 rss) \<le> record_size r + weight (versions db rss)"
      using rep_SetRaw [OF a(1) assms(4) _ _ _ sb] lt vs a(3) map0 by (simp_all add: db2_def)
    have "env_ok env db2 rss" using r2(3) assms(6,7) by (simp add: env_ok_def)
    from maybeFlush_map [OF r2(1) this mf] r2(2,3) next2 nr show ?thesis
      by (auto simp: same_map_def intro: order_trans)
  qed
qed

section \<open>Replica batches and snapshots\<close>

definition mutation_effect :: "Mutation \<Rightarrow> bytes option" where
  "mutation_effect m = (if mutType m = MutationDelete then None else Some (mutValue m))"

definition batch_map :: "(bytes \<Rightarrow> bytes option) \<Rightarrow> Mutation list \<Rightarrow> bytes \<Rightarrow> bytes option" where
  "batch_map M ms k = (case find (\<lambda>m. mutKey m = k) ms of None \<Rightarrow> M k | Some m \<Rightarrow> mutation_effect m)"

lemma mutation_record_simps [simp]:
  "rKey (mutation_record i m) = mutKey m" "rSeqNum (mutation_record i m) = i"
  "rValue (mutation_record i m) = mutValue m"
  "rType (mutation_record i m) = RecordTypeDelete \<longleftrightarrow> mutType m = MutationDelete"
  by (simp_all add: mutation_record_def RecordTypePut_def RecordTypeDelete_def)

lemma find_map: "find P (map f xs) = map_option f (find (\<lambda>x. P (f x)) xs)"
  by (induction xs) auto

lemma check_mutations_ok: "check_mutations ms = Inr () \<Longrightarrow> m \<in> set ms \<Longrightarrow>
    mutKey m \<noteq> [] \<and> (mutType m = MutationPut \<or> mutType m = MutationDelete)"
  by (induction ms) (auto split: if_splits)

lemma check_mutations_Err: "check_mutations ms = Inl f \<Longrightarrow> \<exists>e. f = Err e"
  by (induction ms) (auto split: if_splits)

lemma ApplyBatch_rejects:
  assumes "replica db"
    and "index = 0 \<or> dbApplied db < index \<and> (index \<noteq> dbApplied db + 1 \<or> check_mutations ms \<noteq> Inr ())"
  shows "\<exists>e. ApplyBatch env d db index ms = (d, db, Inl (Err e))"
proof -
  consider "index = 0" | "index \<noteq> 0" "dbApplied db < index" "index \<noteq> dbApplied db + 1"
    | e where "index = dbApplied db + 1" "index \<noteq> 0" "dbApplied db < index" "check_mutations ms = Inl (Err e)"
    using assms(2) check_mutations_Err [of ms] by (cases "check_mutations ms") auto
  then show ?thesis using assms(1) by cases (auto simp: ApplyBatch_def)
qed

lemma ApplyBatch_map:
  assumes "db_rep db rss" "replica db" "index = dbApplied db + 1" "index \<noteq> 0"
    and "check_mutations ms = Inr ()" "\<forall>m \<in> set ms. fits (mutation_record index m)"
    and "good_sizing (eSizing env)" "weight (map (mutation_record index) ms) + weight (versions db rss) \<le> 2 ^ 43"
    and "ApplyBatch env d db index ms = (d', db', res)"
  shows "\<exists>rss'. db_rep db' rss' \<and> db_map db' rss' = batch_map (db_map db rss) ms \<and> dbApplied db' = index \<and> replica db' \<and>
    weight (versions db' rss') \<le> weight (map (mutation_record index) ms) + weight (versions db rss)"
proof -
  let ?rs = "map (mutation_record index) ms"
  define db1 where "db1 = db\<lparr>dbMem := foldl SetRaw (dbMem db) ?rs, dbApplied := index\<rparr>"
  have lt: "dbApplied db < index" using assms(3,4) by (simp add: u64_inc_nonzero)
  then have ngt: "\<not> index \<le> dbApplied db" by simp
  have mf: "maybeFlush env d db1 = (d', db', res)"
    using assms(2-5,9) ngt by (simp add: ApplyBatch_def db1_def foldl_map)
  have old: "\<forall>x \<in> set (versions db rss). rSeqNum x < index"
    using assms(1,2) lt by (auto simp: db_rep_def seq_bound_def)
  have recs: "\<forall>r \<in> set ?rs. rec_ok r \<and> rSeqNum r = index"
    using assms(6) by (auto simp: rec_ok_def mutation_record_def)
  have sb: "\<forall>x \<in> set ?rs \<union> set (versions db rss). seq_bound db1 x"
    using old assms(2) by (auto simp: seq_bound_def db1_def replica_def less_imp_le)
  have r: "db_rep db1 rss" "weight (versions db1 rss) \<le> weight ?rs + weight (versions db rss)"
    and "\<And>k. db_map db1 rss k = (case find (\<lambda>r. rKey r = k) ?rs of None \<Rightarrow> db_map db rss k | Some r \<Rightarrow> live (Some r))"
    using rep_SetAll [OF assms(1) recs old _ _ sb] by (simp_all add: db1_def)
  then have m: "db_map db1 rss = batch_map (db_map db rss) ms"
    unfolding fun_eq_iff batch_map_def find_map by (simp add: comp_def mutation_effect_def split: option.split)
  have "env_ok env db1 rss" using r(2) assms(7,8) by (simp add: env_ok_def)
  moreover have "replica db1" using assms(2) by (simp add: db1_def replica_def)
  ultimately show ?thesis using maybeFlush_map [OF r(1) _ mf] m r(2) by (fastforce simp: same_map_def db1_def)
qed

lemma snapshot_record_simps [simp]:
  "rKey (snapshot_record i p) = fst p" "rSeqNum (snapshot_record i p) = i"
  "rValue (snapshot_record i p) = snd p" "rType (snapshot_record i p) = RecordTypePut"
  by (simp_all add: snapshot_record_def)

lemma check_pairs_sorted:
  "check_pairs prev ps = Inr () \<Longrightarrow> sorted_wrt (<) (map fst ps) \<and> (\<forall>p. prev = Some p \<longrightarrow> (\<forall>k \<in> set (map fst ps). p < k))"
proof (induction prev ps rule: check_pairs.induct)
  case (2 prev k v ps)
  then have ih: "sorted_wrt (<) (map fst ps)" "\<forall>x \<in> set (map fst ps). k < x"
    and prev: "\<forall>p. prev = Some p \<longrightarrow> p < k"
    by (auto split: if_splits option.splits)
  then show ?case by fastforce
qed simp

lemma check_pairs_complete:
  "sorted_wrt (<) (map fst ps) \<Longrightarrow> [] \<notin> fst ` set ps \<Longrightarrow> \<forall>p. prev = Some p \<longrightarrow> (\<forall>k \<in> set (map fst ps). p < k) \<Longrightarrow>
    check_pairs prev ps = Inr ()"
  by (induction prev ps rule: check_pairs.induct) (auto split: option.split simp: not_le)

lemma sorted_pairs_unique:
  assumes "sorted_wrt (<) (map fst qs)" "map_of qs = map_of ps" "sorted_wrt (<) (map fst ps)"
  shows "qs = (ps :: (bytes \<times> bytes) list)"
proof -
  have d: "distinct (map fst qs)" "distinct (map fst ps)" "sorted (map fst qs)" "sorted (map fst ps)"
    using assms(1,3) by (simp_all add: strict_sorted_iff)
  have keys: "map fst qs = map fst ps"
    using d arg_cong [OF assms(2), of dom] by (intro sorted_distinct_set_unique) (simp_all add: dom_map_of_conv_image_fst)
  have "zip (map fst ps) (map snd qs) = qs" "zip (map fst ps) (map snd ps) = ps"
    using zip_map_fst_snd [of qs] keys by (simp_all add: zip_map_fst_snd)
  then have "map snd qs = map snd ps"
    using assms(2) d(2) arg_cong [OF keys, of length] by (intro map_of_zip_inject [of _ "map fst ps"]) simp_all
  then show ?thesis using keys by (metis zip_map_fst_snd)
qed

lemma snapshot_run:
  assumes "sorted_wrt (<) (map fst ps)"
  shows "sorted_run (map (snapshot_record i) ps)"
    "run_lookup (map (snapshot_record i) ps) k = map_option (\<lambda>v. snapshot_record i (k, v)) (map_of ps k)"
proof -
  show "sorted_run (map (snapshot_record i) ps)" using assms by (simp add: sorted_run_def comp_def)
  show "run_lookup (map (snapshot_record i) ps) k = map_option (\<lambda>v. snapshot_record i (k, v)) (map_of ps k)"
    by (induction ps) (auto simp: run_lookup_def)
qed

text \<open>A handle whose whole state is one snapshot.\<close>

lemma rep_snapshot:
  assumes "sorted_wrt (<) (map fst ps)" "\<forall>p \<in> set ps. fits (snapshot_record i p)"
    and "dbMem db = NewWithSeq s" "dbApplied db = i" "replica db"
    and "if ps = [] then dbReaders db = [] \<and> rss = []
         else \<exists>r. dbReaders db = [r] \<and> reads_table r (map (snapshot_record i) ps) \<and> rss = [map (snapshot_record i) ps]"
  shows "db_rep db rss" "db_map db rss = map_of ps"
proof -
  have concat: "concat rss = map (snapshot_record i) ps" using assms(6) by (auto split: if_splits)
  then have v: "versions db rss = map (snapshot_record i) ps" using assms(3) by (simp add: versions_def)
  show "db_map db rss = map_of ps"
    by (simp add: fun_eq_iff db_map_def v sorted_run_newest snapshot_run [OF assms(1)] live_def
        RecordTypePut_def RecordTypeDelete_def split: option.split)
  show "db_rep db rss"
    using assms snapshot_run(1) [OF assms(1), of i]
    by (auto simp: db_rep_def v seq_bound_def rec_ok_def split: if_splits)
qed

lemma publish_snapshot_cases:
  assumes "publish_snapshot d db index n new = (d', db', res)"
  obtains e where "res = Inl e" "db' = db"
  | "res = Inr ()" "dbReaders db' = (case new of None \<Rightarrow> [] | Some (_, r) \<Rightarrow> [r])"
    "dbMem db' = NewWithSeq (index + 1)" "dbApplied db' = index" "replica db' = replica db"
  using assms by (auto simp: publish_snapshot_def Let_def replica_def split: prod.splits sum.splits)

lemma ReplaceReplicaState_map:
  assumes "db_rep db rss" "good_sizing (eSizing env)"
    and "\<forall>p \<in> set ps. fits (snapshot_record index p)" "weight (map (snapshot_record index) ps) \<le> 2 ^ 43"
    and "ReplaceReplicaState env d db index ps = (d', db', res)"
  shows "if res = Inr () then
      (\<exists>rss'. db_rep db' rss' \<and> db_map db' rss' = map_of ps) \<and> dbApplied db' = index \<and> replica db'
    else db' = db"
proof -
  have pub: ?thesis
    if ps: "sorted_wrt (<) (map fst ps)" and "replica db"
      and "publish_snapshot d1 db index n new = (d', db', res)"
      and new: "if ps = [] then new = None else \<exists>r. new = Some (nm, r) \<and> reads_table r (map (snapshot_record index) ps)"
    for d1 n new nm
    using that(3)
  proof (cases rule: publish_snapshot_cases)
    case 2
    define rss' where "rss' = (if ps = [] then [] else [map (snapshot_record index) ps])"
    have "db_rep db' rss'" "db_map db' rss' = map_of ps"
      using rep_snapshot [OF ps assms(3) 2(3) 2(4), of rss'] 2 that(2) new
      by (auto simp: rss'_def split: if_splits)
    then show ?thesis using 2 that(2) by auto
  qed simp
  show ?thesis
  proof (cases "replica db \<and> index \<noteq> 0 \<and> \<not> index < dbApplied db \<and> check_pairs None ps = Inr ()")
    case False
    then show ?thesis using assms(5)
      by (auto simp: ReplaceReplicaState_def split: if_splits sum.splits)
  next
    case True
    then have ps: "sorted_wrt (<) (map fst ps)" using check_pairs_sorted by blast
    show ?thesis
    proof (cases "ps = []")
      case True
      then show ?thesis using pub [OF ps, of d "dbNextSST db + 1" None] assms(5) \<open>replica db \<and> _\<close>
        by (simp add: ReplaceReplicaState_def)
    next
      case False
      obtain d1 r1 where w: "sstable_Write (eSizing env) d (sst_name (dbNextSST db + 1)) (map (snapshot_record index) ps) = (d1, r1)"
        by fastforce
      show ?thesis
      proof (cases r1)
        case (Inl e)
        then show ?thesis using assms(5) True False w by (auto simp: ReplaceReplicaState_def)
      next
        case (Inr u)
        then obtain r where "sstable_Open d1 (sst_name (dbNextSST db + 1)) = Inr r"
          "reads_table r (map (snapshot_record index) ps)"
          using Write_reads_table [OF _ _ _ snapshot_run(1) [OF ps], of "eSizing env" d _ index d1]
            assms(2-4) w False by auto
        then show ?thesis
          using assms(5) True False w Inr
          by (intro pub [OF ps, of d1 "dbNextSST db + 1" "Some (sst_name (dbNextSST db + 1), r)"])
            (simp_all add: ReplaceReplicaState_def Let_def)
      qed
    qed
  qed
qed

section \<open>Sequences of operations\<close>

text \<open>
  The embedded engine against its specification. A client runs operations one after the other; the
  map it may observe at the end is what the operations that returned without an error did, an
  operation that returned an error having taken effect or not.
\<close>

datatype Op = OpSet bytes bytes | OpDelete bytes | OpFlush | OpCompact | OpGet bytes

fun db_op :: "env \<Rightarrow> disk \<Rightarrow> DB \<Rightarrow> Op \<Rightarrow> disk \<times> DB \<times> unit result" where
  "db_op env d db (OpSet k v) = db_Set env d db k v"
| "db_op env d db (OpDelete k) = db_Delete env d db k"
| "db_op env d db OpFlush = ForceFlush env d db"
| "db_op env d db OpCompact = ForceCompact env d db"
| "db_op env d db (OpGet k) = (case db_Get db k of (db, res) \<Rightarrow> (d, db, rbind res (\<lambda>_. Inr ())))"

fun db_ops :: "env \<Rightarrow> disk \<Rightarrow> DB \<Rightarrow> Op list \<Rightarrow> disk \<times> DB \<times> unit result list" where
  "db_ops env d db [] = (d, db, [])"
| "db_ops env d db (x # xs) =
     (case db_op env d db x of (d, db, r) \<Rightarrow> case db_ops env d db xs of (d, db, rs) \<Rightarrow> (d, db, r # rs))"

fun op_map :: "Op \<Rightarrow> (bytes \<Rightarrow> bytes option) \<Rightarrow> bytes \<Rightarrow> bytes option" where
  "op_map (OpSet k v) M = M(k := Some v)"
| "op_map (OpDelete k) M = M(k := None)"
| "op_map _ M = M"

inductive explains :: "(bytes \<Rightarrow> bytes option) \<Rightarrow> (Op \<times> unit result) list \<Rightarrow> (bytes \<Rightarrow> bytes option) \<Rightarrow> bool" where
  explains_Nil: "explains M [] M"
| explains_done: "explains (op_map x M) xs M' \<Longrightarrow> explains M ((x, r) # xs) M'"
| explains_failed: "r \<noteq> Inr () \<Longrightarrow> explains M xs M' \<Longrightarrow> explains M ((x, r) # xs) M'"

inductive_cases explains_ConsE: "explains M (y # xs) M'"

lemma explains_all_ok:
  "explains M xs M' \<Longrightarrow> \<forall>(x, r) \<in> set xs. r = Inr () \<Longrightarrow> M' = fold op_map (map fst xs) M"
  by (induction rule: explains.induct) auto

fun op_cost :: "Op \<Rightarrow> nat" where
  "op_cost (OpSet k v) = 17 + length k + length v"
| "op_cost (OpDelete k) = 17 + length k"
| "op_cost _ = 0"

fun op_fits :: "Op \<Rightarrow> bool" where
  "op_fits (OpSet k v) \<longleftrightarrow> length k < 2 ^ 32 \<and> length v < 2 ^ 32"
| "op_fits (OpDelete k) \<longleftrightarrow> length k < 2 ^ 32"
| "op_fits _ \<longleftrightarrow> True"

lemma db_Get_keeps:
  "nextSeq (dbMem (fst (db_Get db k))) = nextSeq (dbMem db)" "replica (fst (db_Get db k)) = replica db"
  "versions (fst (db_Get db k)) rss = versions db rss" "dbApplied (fst (db_Get db k)) = dbApplied db"
  by (auto simp: db_Get_def split: option.splits prod.splits)

definition op_outcome :: "DB \<Rightarrow> Record list list \<Rightarrow> Op \<Rightarrow> DB \<Rightarrow> Record list list \<Rightarrow> unit result \<Rightarrow> bool" where
  "op_outcome db rss x db' rss' res \<longleftrightarrow> db_rep db' rss' \<and> \<not> replica db' \<and>
     (db_map db' rss' = op_map x (db_map db rss) \<or> db_map db' rss' = db_map db rss \<and> res \<noteq> Inr ()) \<and>
     weight (versions db' rss') \<le> op_cost x + weight (versions db rss) \<and>
     unat (nextSeq (dbMem db')) \<le> Suc (unat (nextSeq (dbMem db)))"

lemma same_map_outcome:
  assumes "\<exists>rss'. db_rep db' rss' \<and> same_map db rss db' rss'" "\<not> replica db" "op_map x = id"
  shows "\<exists>rss'. op_outcome db rss x db' rss' res"
  using assms by (fastforce simp: op_outcome_def same_map_def)

lemma write_outcome:
  assumes "\<exists>rss'. db_rep db' rss' \<and>
      (db_map db' rss' = (db_map db rss)(rKey r := live (Some r)) \<or> db_map db' rss' = db_map db rss \<and> res \<noteq> Inr ()) \<and>
      weight (versions db' rss') \<le> record_size r + weight (versions db rss) \<and>
      nextSeq (dbMem db') = nextSeq (dbMem db) + 1 \<and> \<not> replica db'"
    and "op_map x (db_map db rss) = (db_map db rss)(rKey r := live (Some r))" "record_size r = op_cost x"
    and "unat (nextSeq (dbMem db)) < 2 ^ 64 - 1"
  shows "\<exists>rss'. op_outcome db rss x db' rss' res"
  using assms unat_inc_u64 [OF assms(4)] by (auto simp: op_outcome_def)

lemma db_op_map:
  assumes "db_rep db rss" "\<not> replica db" "unat (nextSeq (dbMem db)) < 2 ^ 64 - 1" "op_fits x"
    and "good_sizing (eSizing env)" "op_cost x + weight (versions db rss) \<le> 2 ^ 43"
    and "db_op env d db x = (d', db', res)"
  shows "\<exists>rss'. op_outcome db rss x db' rss' res"
proof (cases x)
  case (OpSet k v)
  let ?r = "put_record db k v"
  have "\<exists>rss'. db_rep db' rss' \<and>
      (db_map db' rss' = (db_map db rss)(rKey ?r := live (Some ?r)) \<or> db_map db' rss' = db_map db rss \<and> res \<noteq> Inr ()) \<and>
      weight (versions db' rss') \<le> record_size ?r + weight (versions db rss) \<and>
      nextSeq (dbMem db') = nextSeq (dbMem db) + 1 \<and> \<not> replica db'"
    using assms OpSet by (intro db_write_map [OF assms(1-3)])
      (auto simp: rec_ok_def fits_def put_record_def record_size_def recordHeaderSize_def db_Set_write)
  from write_outcome [OF this _ _ assms(3)] show ?thesis
    using OpSet by (simp add: put_record_def record_size_def recordHeaderSize_def RecordTypePut_def RecordTypeDelete_def)
next
  case (OpDelete k)
  let ?r = "del_record db k"
  have "\<exists>rss'. db_rep db' rss' \<and>
      (db_map db' rss' = (db_map db rss)(rKey ?r := live (Some ?r)) \<or> db_map db' rss' = db_map db rss \<and> res \<noteq> Inr ()) \<and>
      weight (versions db' rss') \<le> record_size ?r + weight (versions db rss) \<and>
      nextSeq (dbMem db') = nextSeq (dbMem db) + 1 \<and> \<not> replica db'"
    using assms OpDelete by (intro db_write_map [OF assms(1-3)])
      (auto simp: rec_ok_def fits_def del_record_def record_size_def recordHeaderSize_def db_Delete_write)
  from write_outcome [OF this _ _ assms(3)] show ?thesis
    using OpDelete by (simp add: del_record_def record_size_def recordHeaderSize_def)
next
  case OpFlush
  have "env_ok env db rss" using assms(5,6) by (simp add: env_ok_def)
  from db_flush_map [OF assms(1) this] assms(7) OpFlush show ?thesis
    by (intro same_map_outcome assms(2)) (auto simp: ForceFlush_def)
next
  case OpCompact
  have "env_ok env db rss" using assms(5,6) by (simp add: env_ok_def)
  from db_compact_map [OF assms(1) this] assms(7) OpCompact show ?thesis
    by (intro same_map_outcome assms(2)) (auto simp: ForceCompact_def)
next
  case (OpGet k)
  then have g: "fst (db_Get db k) = db'" using assms(7) by (auto split: prod.splits)
  from db_Get_map [OF assms(1), of k] db_Get_keeps [of db k] g OpGet show ?thesis
    by (intro same_map_outcome assms(2) exI [of _ rss]) (auto simp: same_map_def)
qed

lemma db_ops_map:
  assumes "db_rep db rss" "\<not> replica db" "unat (nextSeq (dbMem db)) + length xs < 2 ^ 64 - 1" "\<forall>x \<in> set xs. op_fits x"
    and "good_sizing (eSizing env)" "sum_list (map op_cost xs) + weight (versions db rss) \<le> 2 ^ 43"
    and "db_ops env d db xs = (d', db', rs)"
  shows "\<exists>rss'. db_rep db' rss' \<and> explains (db_map db rss) (zip xs rs) (db_map db' rss')"
  using assms
proof (induction xs arbitrary: d db rss rs)
  case Nil
  then show ?case by (auto intro: explains_Nil)
next
  case (Cons x xs)
  obtain d1 db1 r where o1: "db_op env d db x = (d1, db1, r)" by (metis prod_cases3)
  obtain rs' where o2: "db_ops env d1 db1 xs = (d', db', rs')" "rs = r # rs'"
    using Cons.prems(7) o1 by (auto split: prod.splits)
  obtain rss1 where oc: "op_outcome db rss x db1 rss1 r"
    using db_op_map [OF Cons.prems(1,2) _ _ Cons.prems(5) _ o1] Cons.prems by auto
  then obtain rss' where "db_rep db' rss'" "explains (db_map db1 rss1) (zip xs rs') (db_map db' rss')"
    using Cons.IH [of db1 rss1 d1 rs'] Cons.prems o2 by (auto simp: op_outcome_def)
  moreover from this(2) have "explains (db_map db rss) (zip (x # xs) rs) (db_map db' rss')"
    using oc o2(2) by (auto simp: op_outcome_def intro: explains_done explains_failed)
  ultimately show ?case by blast
qed

section \<open>Correctness\<close>

text \<open>The handle that \<open>Open\<close> makes for a new directory, without its log.\<close>

definition fresh_db :: "DurabilityMode \<Rightarrow> DB" where
  "fresh_db mode = \<lparr>dbMem = NewWithSeq 1, dbLog = None, dbPath = ''data'', dbReaders = [], dbNextSST = 0,
     dbOpts = DefaultOptions\<lparr>optDurability := mode\<rparr>,
     dbManifest = \<lparr>mVersion = 1, mSSTables = [], mNextSST = 0, mAppliedIndex = 0, mLastSeq = 0\<rparr>,
     dbApplied = 0, dbDurable = 0, dbClosed = False, dbFlushes = 0, dbCompactions = 0\<rparr>"

definition env10 :: env where
  "env10 = \<lparr>eSizing = sizing10, eCrash = (\<lambda>_. None)\<rparr>"

lemma fresh_db_rep [simp]: "db_rep (fresh_db mode) []" "db_map (fresh_db mode) [] = Map.empty"
  "versions (fresh_db mode) [] = []" "good_sizing (eSizing env10)"
  "nextSeq (dbMem (fresh_db mode)) = 1" "replica (fresh_db mode) \<longleftrightarrow> mode = DurabilityReplica"
  "dbApplied (fresh_db mode) = 0"
  by (simp_all add: db_rep_def versions_def db_map_def fresh_db_def env10_def fun_eq_iff good_sizing10
      replica_def DefaultOptions_def)

text \<open>
  C1: the engine refines a finite map. After any sequence of \<open>Set\<close>, \<open>Delete\<close>, flush, compaction and \<open>Get\<close> calls on
  a directory whose file operations fail at any point, \<open>Get\<close> answers from one map: the map before, updated by
  every call that returned without an error and possibly by calls that returned one.
\<close>

theorem db_ops_refine_map:
  assumes "db_rep db rss" "\<not> replica db" "unat (nextSeq (dbMem db)) + length xs < 2 ^ 64 - 1"
    and "\<forall>x \<in> set xs. op_fits x" "good_sizing (eSizing env)"
    and "sum_list (map op_cost xs) + weight (versions db rss) \<le> 2 ^ 43"
  shows "case db_ops env d db xs of (d', db', rs) \<Rightarrow>
    \<exists>M. explains (db_map db rss) (zip xs rs) M \<and> (\<forall>k. snd (db_Get db' k) = Inr (M k))"
proof -
  obtain d' db' rs where run: "db_ops env d db xs = (d', db', rs)" by (metis prod_cases3)
  from db_ops_map [OF assms run] obtain rss' where "db_rep db' rss'"
    "explains (db_map db rss) (zip xs rs) (db_map db' rss')" by blast
  with run db_Get_map(1) show ?thesis by auto
qed

theorem db_ops_refine_map_witness:
  "case db_ops env10 (empty_disk\<lparr>dFaults := [Fine, Fail 3, Crash 0]\<rparr>) (fresh_db DurabilityEmbedded)
      [OpSet [1] [2], OpFlush, OpDelete [1], OpCompact, OpGet [1]] of (d', db', rs) \<Rightarrow>
    \<exists>M. explains Map.empty (zip [OpSet [1] [2], OpFlush, OpDelete [1], OpCompact, OpGet [1]] rs) M \<and>
      (\<forall>k. snd (db_Get db' k) = Inr (M k))"
  using db_ops_refine_map [of "fresh_db DurabilityEmbedded" "[]"
      "[OpSet [1] [2], OpFlush, OpDelete [1], OpCompact, OpGet [1]]" env10 "empty_disk\<lparr>dFaults := [Fine, Fail 3, Crash 0]\<rparr>"]
  by (simp del: db_ops.simps)

text \<open>
  C15: \<open>Scan\<close> returns, in strictly ascending key order, exactly the live pairs of the map between the bounds.
\<close>

theorem db_Scan_correct:
  assumes "db_rep db rss"
  shows "\<exists>ps. db_Scan db lo hi = Inr ps \<and> sorted_wrt (<) (map fst ps) \<and>
    (\<forall>k. map_of ps k = (if lo \<le> k \<and> k \<le> hi then db_map db rss k else None))"
  by (rule db_Scan_map [OF assms])

theorem db_Scan_correct_witness:
  "\<exists>ps. db_Scan (fresh_db DurabilityEmbedded) [1] [5] = Inr ps \<and> sorted_wrt (<) (map fst ps) \<and>
    (\<forall>k. map_of ps k = (if [1] \<le> k \<and> k \<le> [5] then db_map (fresh_db DurabilityEmbedded) [] k else None))"
  by (rule db_Scan_correct [OF fresh_db_rep(1)])

text \<open>
  C21: a replica applies each index of its log once. An accepted batch makes the first mutation of each key the
  key's value, whatever the flush that follows it returns; an index at or below the applied one changes
  nothing, and one that skips ahead is refused.
\<close>

theorem ApplyBatch_exact:
  assumes "db_rep db rss" "replica db" "\<forall>m \<in> set ms. fits (mutation_record index m)" "good_sizing (eSizing env)"
    and "weight (map (mutation_record index) ms) + weight (versions db rss) \<le> 2 ^ 43"
  shows "case ApplyBatch env d db index ms of (d', db', res) \<Rightarrow>
    \<exists>rss'. db_rep db' rss' \<and>
      (if index = 0 \<or> dbApplied db < index \<and> (index \<noteq> dbApplied db + 1 \<or> check_mutations ms \<noteq> Inr ())
       then db' = db \<and> d' = d \<and> (\<exists>e. res = Inl (Err e))
       else if index \<le> dbApplied db then db' = db \<and> d' = d \<and> res = Inr ()
       else db_map db' rss' = batch_map (db_map db rss) ms \<and> dbApplied db' = index)"
proof -
  obtain d' db' res where run: "ApplyBatch env d db index ms = (d', db', res)" by (metis prod_cases3)
  consider "index = 0 \<or> dbApplied db < index \<and> (index \<noteq> dbApplied db + 1 \<or> check_mutations ms \<noteq> Inr ())"
    | "index \<noteq> 0" "index \<le> dbApplied db"
    | "index \<noteq> 0" "dbApplied db < index" "index = dbApplied db + 1" "check_mutations ms = Inr ()"
    by fastforce
  then show ?thesis
  proof cases
    case 1
    then obtain e where "d' = d" "db' = db" "res = Inl (Err e)"
      using ApplyBatch_rejects [OF assms(2) 1, of env d] run by auto
    then show ?thesis using assms(1) run 1 by auto
  next
    case 2
    then show ?thesis using assms(1,2) run by (auto simp: ApplyBatch_def)
  next
    case 3
    then have "\<not> index \<le> dbApplied db" by simp
    with ApplyBatch_map [OF assms(1,2) 3(3,1,4) assms(3-5) run] 3(1,3,4) run show ?thesis by auto
  qed
qed


theorem ApplyBatch_exact_witness:
  "case ApplyBatch env10 empty_disk (fresh_db DurabilityReplica) 1 [\<lparr>mutType = MutationPut, mutKey = [7], mutValue = [1]\<rparr>,
       \<lparr>mutType = MutationDelete, mutKey = [7], mutValue = []\<rparr>] of (d', db', res) \<Rightarrow>
    \<exists>rss'. db_rep db' rss' \<and> db_map db' rss' [7] = Some [1]"
proof -
  let ?ms = "[\<lparr>mutType = MutationPut, mutKey = [7], mutValue = [1]\<rparr>, \<lparr>mutType = MutationDelete, mutKey = [7], mutValue = []\<rparr>]"
  have "\<forall>m \<in> set ?ms. fits (mutation_record 1 m)" "weight (map (mutation_record 1) ?ms) \<le> 2 ^ 43"
    by (simp_all add: fits_def mutation_record_def record_size_def recordHeaderSize_def)
  from ApplyBatch_exact [OF fresh_db_rep(1) _ this(1) fresh_db_rep(4), of DurabilityReplica empty_disk] this(2)
  show ?thesis by (auto simp: batch_map_def mutation_effect_def MutationPut_def MutationDelete_def split: prod.splits)
qed

text \<open>
  Snapshot transfer is lossless. The pairs that one replica exports, installed at another one at an index
  it has not passed, are what that one exports from then on, and every key has the value it had at the first; an
  installation that returns an error leaves the handle as it was.
\<close>

lemma snapshot_transfer:
  assumes "db_rep db rss" "replica db" "db_rep db2 rss2" "good_sizing (eSizing env)"
    and "ExportReplicaState db = Inr ps"
    and "\<forall>p \<in> set ps. fits (snapshot_record index p)" "weight (map (snapshot_record index) ps) \<le> 2 ^ 43"
  shows "case ReplaceReplicaState env d db2 index ps of (d', db', res) \<Rightarrow>
    if res = Inr () then ExportReplicaState db' = Inr ps \<and> (\<forall>k. snd (db_Get db' k) = snd (db_Get db k)) \<and> dbApplied db' = index
    else db' = db2"
proof -
  obtain d' db' res where run: "ReplaceReplicaState env d db2 index ps = (d', db', res)" by (metis prod_cases3)
  have ps: "sorted_wrt (<) (map fst ps)" "map_of ps = db_map db rss"
    using ExportReplicaState_map [OF assms(1,2)] assms(5) by auto
  show ?thesis
  proof (cases "res = Inr ()")
    case True
    then obtain rss' where r: "db_rep db' rss'" "db_map db' rss' = map_of ps" "dbApplied db' = index" "replica db'"
      using ReplaceReplicaState_map [OF assms(3,4,6,7) run] by auto
    then obtain qs where qs: "ExportReplicaState db' = Inr qs" "sorted_wrt (<) (map fst qs)" "map_of qs = map_of ps"
      using ExportReplicaState_map [OF r(1,4)] by auto
    have "qs = ps" using qs(2,3) ps(1) by (rule sorted_pairs_unique)
    with qs r ps(2) run True show ?thesis using db_Get_map(1) [OF r(1)] db_Get_map(1) [OF assms(1)] by simp
  next
    case False
    then show ?thesis using ReplaceReplicaState_map [OF assms(3,4,6,7) run] run by auto
  qed
qed

end
