(* ===== verification/Db_Snapshot.thy ===== *)
theory Db_Snapshot
  imports Db_Map Stream_Writer
begin

text \<open>
  Package \<open>db\<close>, \<open>replica_snapshot.go\<close>: the logical image of a replica, streamed out by a heap merge of
  the memtable and the table iterators and streamed in through the streaming table writer. The heap of
  record sources is a second instance of \<open>merge_queue\<close>, which gives what the merge visits.
\<close>

section \<open>Record sources\<close>

definition replicaSnapshotMagic :: bytes where
  "replicaSnapshotMagic = asc ''LSMSNAP'' @ [1]"

definition maxReplicaSnapshotField :: nat where
  "maxReplicaSnapshotField = 64 * 2 ^ 20"

datatype recordSource = sliceRecordSource "Record list" nat | iteratorRecordSource Iterator

fun source_Next :: "recordSource \<Rightarrow> recordSource \<times> Record option result" where
  "source_Next (sliceRecordSource records index) =
     (if index \<ge> length records then (sliceRecordSource records index, Inr None)
      else (sliceRecordSource records (index + 1), Inr (Some (records ! index))))"
| "source_Next (iteratorRecordSource it) = (case iterator_Next it of (it, r) \<Rightarrow> (iteratorRecordSource it, r))"

text \<open>How much a source has left: the termination measure of the loops.\<close>

fun source_left :: "recordSource \<Rightarrow> nat" where
  "source_left (sliceRecordSource records index) = length records - index"
| "source_left (iteratorRecordSource (r, pos)) = nat (metaOffset r - pos)"

lemma source_Next_left: "source_Next s = (s', Inr (Some r)) \<Longrightarrow> source_left s' < source_left s"
proof (cases s)
  case (iteratorRecordSource it)
  assume a: "source_Next s = (s', Inr (Some r))"
  obtain rd pos where it: "it = (rd, pos)" by fastforce
  obtain it' where n: "iterator_Next (rd, pos) = (it', Inr (Some r))" "s' = iteratorRecordSource it'"
    using a iteratorRecordSource it by (auto split: prod.splits)
  from iterator_Next_pos [OF n(1)] show ?thesis using n(2) iteratorRecordSource it by (cases it') auto
qed (auto split: if_splits)

lemma source_Next_None: "source_Next s = (s', Inr None) \<Longrightarrow> s' = s"
  by (cases s) (auto simp: iterator_Next_def split: if_splits prod.splits sum.splits)

section \<open>The merge\<close>

record snapshotHeapEntry =
  shRec :: Record
  shSource :: nat

definition snapshotHeap_Less :: "snapshotHeapEntry \<Rightarrow> snapshotHeapEntry \<Rightarrow> bool" where
  "snapshotHeap_Less a b = version_less (shRec a) (shRec b)"

type_synonym snap_queue = "snapshotHeapEntry list \<times> recordSource list"

text \<open>Reading the next record of a source into the heap.\<close>

definition push_next :: "snap_queue \<Rightarrow> nat \<Rightarrow> snap_queue result" where
  "push_next q i =
     (if i \<ge> length (snd q) then Inl Panic
      else case source_Next (snd q ! i) of
             (s, Inl e) \<Rightarrow> Inl e
           | (s, Inr None) \<Rightarrow> Inr (fst q, (snd q)[i := s])
           | (s, Inr (Some r)) \<Rightarrow> Inr (heap_Push snapshotHeap_Less (fst q) \<lparr>shRec = r, shSource = i\<rparr>, (snd q)[i := s]))"

definition pop_next :: "snap_queue \<Rightarrow> snap_queue result" where
  "pop_next q = (case heap_Pop snapshotHeap_Less (fst q) of (e, h) \<Rightarrow> push_next (h, snd q) (shSource e))"

definition queue_load :: "snap_queue \<Rightarrow> nat" where
  "queue_load q = length (fst q) + sum_list (map source_left (snd q))"

lemma sum_list_update_less:
  "i < length xs \<Longrightarrow> f y < f (xs ! i) \<Longrightarrow> sum_list (map f (xs[i := y])) < (sum_list (map f xs) :: nat)"
proof (induction xs arbitrary: i)
  case (Cons x xs)
  then show ?case by (cases i) (simp_all add: add_less_le_mono)
qed simp

lemma length_Pop: "h \<noteq> [] \<Longrightarrow> heap_Pop lt h = (x, g) \<Longrightarrow> length h = Suc (length g)"
  using arg_cong [OF mset_Pop [of h lt x g], of size] by simp

lemma length_Push [simp]: "length (heap_Push lt h x) = Suc (length h)"
  using arg_cong [OF mset_Push [of lt h x], of size] by simp

lemma pop_next_load:
  assumes "fst q \<noteq> []" "pop_next q = Inr q'"
  shows "queue_load q' < queue_load q"
proof -
  obtain e h where p: "heap_Pop snapshotHeap_Less (fst q) = (e, h)" by fastforce
  have len: "length (fst q) = Suc (length h)" by (rule length_Pop [OF assms(1) p])
  have i: "shSource e < length (snd q)" using assms(2) by (auto simp: pop_next_def p push_next_def split: if_splits)
  obtain s r where n: "source_Next (snd q ! shSource e) = (s, r)" by fastforce
  show ?thesis
  proof (cases r)
    case (Inl x)
    then show ?thesis using assms(2) i n by (simp add: pop_next_def p push_next_def)
  next
    case (Inr o')
    show ?thesis
    proof (cases o')
      case None
      then have "s = snd q ! shSource e" using source_Next_None n Inr by simp
      then show ?thesis using assms(2) i n Inr None len by (auto simp: pop_next_def p push_next_def queue_load_def)
    next
      case (Some y)
      then have "source_left s < source_left (snd q ! shSource e)" using source_Next_left n Inr by simp
      from sum_list_update_less [where f = source_left, OF i this] show ?thesis
        using assms(2) i n Inr Some len by (auto simp: pop_next_def p push_next_def queue_load_def)
    qed
  qed
qed

function drop_duplicates :: "bytes \<Rightarrow> snap_queue \<Rightarrow> snap_queue result" where
  "drop_duplicates key q =
     (if fst q \<noteq> [] \<and> rKey (shRec (fst q ! 0)) = key
      then (case pop_next q of Inl e \<Rightarrow> Inl e | Inr q' \<Rightarrow> drop_duplicates key q') else Inr q)"
  by pat_completeness auto
termination
  by (relation "measure (\<lambda>(key, q). queue_load q)") (auto simp: pop_next_load)

declare drop_duplicates.simps [simp del]

lemma drop_duplicates_load: "drop_duplicates key q = Inr q' \<Longrightarrow> queue_load q' \<le> queue_load q"
proof (induction key q arbitrary: q' rule: drop_duplicates.induct)
  case (1 key q)
  show ?case
  proof (cases "fst q \<noteq> [] \<and> rKey (shRec (fst q ! 0)) = key")
    case True
    then obtain q1 where q1: "pop_next q = Inr q1" "drop_duplicates key q1 = Inr q'"
      using "1.prems" by (auto simp: drop_duplicates.simps [of key q] split: sum.splits)
    from "1.IH" [OF True q1] pop_next_load [OF _ q1(1)] True show ?thesis by simp
  next
    case False
    then show ?thesis using "1.prems" by (auto simp: drop_duplicates.simps [of key q])
  qed
qed

text \<open>The loop hands every live winner to the callback, which may fail.\<close>

function visit_loop :: "('a \<Rightarrow> Record \<Rightarrow> 'a \<times> unit result) \<Rightarrow> 'a \<Rightarrow> snap_queue \<Rightarrow> 'a \<times> unit result" where
  "visit_loop visit acc q =
     (if fst q = [] then (acc, Inr ())
      else let winner = shRec (fst (heap_Pop snapshotHeap_Less (fst q)))
           in case pop_next q of
                Inl e \<Rightarrow> (acc, Inl e)
              | Inr q1 \<Rightarrow>
                  (case drop_duplicates (rKey winner) q1 of
                     Inl e \<Rightarrow> (acc, Inl e)
                   | Inr q2 \<Rightarrow>
                       if rType winner = RecordTypePut
                       then (case visit acc winner of
                               (acc', Inl e) \<Rightarrow> (acc', Inl e)
                             | (acc', Inr _) \<Rightarrow> visit_loop visit acc' q2)
                       else visit_loop visit acc q2))"
  by pat_completeness auto
termination
  by (relation "measure (\<lambda>(visit, acc, q). queue_load q)")
    (auto intro: le_less_trans [OF drop_duplicates_load pop_next_load])

declare visit_loop.simps [simp del]

fun seed_queue :: "snap_queue \<Rightarrow> nat list \<Rightarrow> snap_queue result" where
  "seed_queue q [] = Inr q"
| "seed_queue q (i # is) = rbind (push_next q i) (\<lambda>q. seed_queue q is)"

definition replica_sources :: "DB \<Rightarrow> recordSource list" where
  "replica_sources db = sliceRecordSource (SortedEntries (dbMem db)) 0 # map (\<lambda>r. iteratorRecordSource (reader_Iterator r)) (dbReaders db)"

definition visitReplicaStateLocked :: "DB \<Rightarrow> ('a \<Rightarrow> Record \<Rightarrow> 'a \<times> unit result) \<Rightarrow> 'a \<Rightarrow> 'a \<times> unit result" where
  "visitReplicaStateLocked db visit acc =
     (let sources = replica_sources db
      in case seed_queue (heap_Init snapshotHeap_Less [], sources) [0..<length sources] of
           Inl e \<Rightarrow> (acc, Inl e)
         | Inr q \<Rightarrow> visit_loop visit acc q)"

section \<open>Writing the image\<close>

definition count_visit :: "u64 \<Rightarrow> Record \<Rightarrow> u64 \<times> unit result" where
  "count_visit cnt r = (cnt + 1, Inr ())"

definition write_visit :: "bytes list \<Rightarrow> Record \<Rightarrow> bytes list \<times> unit result" where
  "write_visit chunks r =
     (if length (rKey r) > 2 ^ 32 - 1 \<or> length (rValue r) > 2 ^ 32 - 1 then (chunks, Inl (Err ''snapshot record is too large''))
      else (chunks @ [putUint32 (word_of_nat (length (rKey r))), putUint32 (word_of_nat (length (rValue r))), rKey r, rValue r], Inr ()))"

text \<open>The chunks handed to the writer, and what the call returns when every write succeeds.\<close>

definition WriteReplicaSnapshot :: "DB \<Rightarrow> bytes list \<times> u64 result" where
  "WriteReplicaSnapshot db =
     (if \<not> replica db then ([], Inl (Err ''replica state export requires replica durability mode''))
      else if dbApplied db = 0 then ([], Inl (Err ''cannot snapshot an unapplied replica''))
      else case visitReplicaStateLocked db count_visit 0 of
             (_, Inl e) \<Rightarrow> ([], Inl e)
           | (cnt, Inr _) \<Rightarrow>
               (case visitReplicaStateLocked db write_visit [replicaSnapshotMagic, putUint64 cnt] of
                  (chunks, res) \<Rightarrow> (chunks, rbind res (\<lambda>_. Inr (dbApplied db)))))"

section \<open>Reading the image\<close>

text \<open>The loop over the records of an image: every record is decoded, checked and added to the table.\<close>

fun image_loop :: "nat \<Rightarrow> u64 \<Rightarrow> disk \<Rightarrow> StreamWriter \<Rightarrow> bytes \<Rightarrow> bytes \<Rightarrow> disk \<times> StreamWriter \<times> bytes result" where
  "image_loop 0 index d w rest previous = (d, w, Inr rest)"
| "image_loop (Suc n) index d w rest previous =
     (case readFull rest 4 of
        Full keyLen rest \<Rightarrow>
          (case readFull rest 4 of
             Full valueLen rest \<Rightarrow>
               (let keyLen = unat (getUint32 keyLen); valueLen = unat (getUint32 valueLen)
                in if keyLen = 0 \<or> keyLen > maxReplicaSnapshotField \<or> valueLen > maxReplicaSnapshotField
                   then (d, w, Inl (Err ''invalid state snapshot record size''))
                   else (case readFull rest keyLen of
                           Full key rest \<Rightarrow>
                             (case readFull rest valueLen of
                                Full value rest \<Rightarrow>
                                  if key \<le> previous then (d, w, Inl (Err ''snapshot keys must be non-empty and strictly sorted''))
                                  else (case stream_Add d w \<lparr>rKey = key, rValue = value, rSeqNum = index, rType = RecordTypePut\<rparr> of
                                          (d, w, Inl e) \<Rightarrow> (d, w, Inl e)
                                        | (d, w, Inr _) \<Rightarrow> image_loop n index d w rest key)
                              | _ \<Rightarrow> (d, w, Inl (Err ''truncated state snapshot record'')))
                         | _ \<Rightarrow> (d, w, Inl (Err ''truncated state snapshot record''))))
           | _ \<Rightarrow> (d, w, Inl (Err ''decode snapshot value length'')))
      | _ \<Rightarrow> (d, w, Inl (Err ''decode snapshot key length'')))"

text \<open>The deferred abort of the table of a call that does not get as far as finishing it.\<close>

definition abort_stream :: "disk \<Rightarrow> DB \<Rightarrow> StreamWriter \<Rightarrow> failure \<Rightarrow> disk \<times> DB \<times> unit result" where
  "abort_stream d db w e = (fst (stream_Abort d w), db, Inl e)"

definition image_table :: "env \<Rightarrow> disk \<Rightarrow> DB \<Rightarrow> u64 \<Rightarrow> u64 \<Rightarrow> bytes \<Rightarrow> disk \<times> DB \<times> unit result" where
  "image_table env d db index cnt rest =
     (let n = dbNextSST db + 1; path = sst_name n
      in case NewStreamWriter (eSizing env) d path (sint cnt) of
           (d, Inl e) \<Rightarrow> (d, db, Inl e)
         | (d, Inr w) \<Rightarrow>
             (case image_loop (unat cnt) index d w rest [] of
                (d, w, Inl e) \<Rightarrow> abort_stream d db w e
              | (d, w, Inr trailing) \<Rightarrow>
                  if trailing \<noteq> [] then abort_stream d db w (Err ''state snapshot has trailing data'')
                  else (case stream_Finish d w of
                          (d, w, Inl e) \<Rightarrow> abort_stream d db w e
                        | (d, w, Inr _) \<Rightarrow>
                            (case sstable_Open d path of
                               Inl Panic \<Rightarrow> (d, db, Inl Panic)
                             | Inl (Err m) \<Rightarrow> (fst (os_remove d path), db, Inl (Err m))
                             | Inr r \<Rightarrow> publish_snapshot d db index n (Some (path, r))))))"

definition ReplaceReplicaSnapshot :: "env \<Rightarrow> disk \<Rightarrow> DB \<Rightarrow> u64 \<Rightarrow> u64 \<Rightarrow> bytes \<Rightarrow> disk \<times> DB \<times> unit result" where
  "ReplaceReplicaSnapshot env d db index sz reader =
     (if \<not> replica db then (d, db, Inl (Err ''replica state replacement requires replica durability mode''))
      else if index = 0 then (d, db, Inl (Err ''snapshot index must be positive''))
      else if index < dbApplied db then (d, db, Inl (Err ''snapshot index is older than applied index''))
      else if sz < 16 then (d, db, Inl (Err ''state snapshot is truncated''))
      else case readFull reader 8 of
             Full magic rest \<Rightarrow>
               if magic \<noteq> replicaSnapshotMagic then (d, db, Inl (Err ''invalid state snapshot magic''))
               else (case readFull rest 8 of
                       Full c rest \<Rightarrow>
                         (let cnt = getUint64 c
                          in if cnt > (sz - 16) div 8 \<or> cnt > 2 ^ 63 - 1
                             then (d, db, Inl (Err ''invalid state snapshot record count''))
                             else if cnt = 0
                             then (if rest \<noteq> [] then (d, db, Inl (Err ''state snapshot has trailing data''))
                                   else publish_snapshot d db index (dbNextSST db + 1) None)
                             else image_table env d db index cnt rest)
                     | _ \<Rightarrow> (d, db, Inl (Err ''decode snapshot count'')))
           | _ \<Rightarrow> (d, db, Inl (Err ''invalid state snapshot magic'')))"


section \<open>The queue of sources\<close>

interpretation sh: heap_order snapshotHeap_Less
  by unfold_locales
    (auto simp: snapshotHeap_Less_def dest: version_less_asym version_not_less_trans)

text \<open>What a source still has, and that reading it meets no error.\<close>

function source_rest :: "recordSource \<Rightarrow> Record list" where
  "source_rest s = (case source_Next s of (s', Inr (Some r)) \<Rightarrow> r # source_rest s' | _ \<Rightarrow> [])"
  by pat_completeness auto
termination
  by (relation "measure source_left") (auto dest!: sym [where t = "source_Next _"] source_Next_left)

function source_sound :: "recordSource \<Rightarrow> bool" where
  "source_sound s = (case source_Next s of (s', Inr (Some r)) \<Rightarrow> source_sound s' | (_, Inr None) \<Rightarrow> True | (_, Inl _) \<Rightarrow> False)"
  by pat_completeness auto
termination
  by (relation "measure source_left") (auto dest!: sym [where t = "source_Next _"] source_Next_left)

declare source_rest.simps [simp del] source_sound.simps [simp del]

lemma source_step:
  assumes "source_Next s = (s', Inr (Some r))"
  shows "source_rest s = r # source_rest s'" "source_sound s = source_sound s'"
  by (simp_all add: source_rest.simps [of s] source_sound.simps [of s] assms)

lemma source_end:
  assumes "source_Next s = (s', Inr None)"
  shows "source_rest s = []" "source_sound s"
  by (simp_all add: source_rest.simps [of s] source_sound.simps [of s] assms)

lemma source_slice: "source_rest (sliceRecordSource rs i) = drop i rs \<and> source_sound (sliceRecordSource rs i)"
proof (induction "length rs - i" arbitrary: i)
  case 0
  then show ?case using source_end [of "sliceRecordSource rs i"] by simp
next
  case (Suc n)
  then have i: "i < length rs" by simp
  then have "source_Next (sliceRecordSource rs i) = (sliceRecordSource rs (Suc i), Inr (Some (rs ! i)))" by simp
  from source_step [OF this] Suc.hyps(1) [of "Suc i"] Suc.hyps(2) i show ?case by (simp add: Cons_nth_drop_Suc)
qed

lemma source_table:
  assumes "reads_table r rs"
  shows "source_rest (iteratorRecordSource (reader_Iterator r)) = rs \<and> source_sound (iteratorRecordSource (reader_Iterator r))"
proof -
  from assms obtain path bf skips where
    r: "r = table_reader path bf rs\<lparr>bloomSkips := skips\<rparr>" and ok: "table_ok bf rs"
    by (auto simp: reads_table_def)
  have fields: "metaOffset r = int (length (data_bytes rs))"
    "rdFile r = data_bytes rs @ table_meta rs @ bloom_Encode bf @ index_section rs @ footer_bytes (table_footer bf rs)"
    by (simp_all add: r table_reader_def table_sections)
  have fit: "\<forall>x \<in> set rs. fits x" using ok by (simp add: table_ok_def)
  have "source_rest (iteratorRecordSource (r, int (off_of rs i))) = drop i rs \<and> source_sound (iteratorRecordSource (r, int (off_of rs i)))"
    if "i \<le> length rs" for i
    using that
  proof (induction "length rs - i" arbitrary: i)
    case 0
    then have "source_Next (iteratorRecordSource (r, int (off_of rs i))) = (iteratorRecordSource (r, int (off_of rs i)), Inr None)"
      by (simp add: iterator_Next_def fields(1) off_of_length)
    from source_end [OF this] 0 show ?case by simp
  next
    case (Suc n)
    then have i: "i < length rs" by simp
    have "source_Next (iteratorRecordSource (r, int (off_of rs i))) = (iteratorRecordSource (r, int (off_of rs (Suc i))), Inr (Some (rs ! i)))"
      using section_step [OF fit i fields(2)] by (simp add: iterator_Next_def fields(1))
    from source_step [OF this] Suc.hyps(1) [of "Suc i"] Suc.hyps(2) i show ?case by (simp add: Cons_nth_drop_Suc)
  qed
  from this [of 0] show ?thesis by (simp add: reader_Iterator_def)
qed

definition snap_top :: "snap_queue \<Rightarrow> Record option" where
  "snap_top q = (if fst q = [] then None else Some (shRec (fst q ! 0)))"

definition snap_pop :: "snap_queue \<Rightarrow> snap_queue" where
  "snap_pop q = (case pop_next q of Inl _ \<Rightarrow> q | Inr q' \<Rightarrow> q')"

definition snap_rest :: "recordSource list \<Rightarrow> snapshotHeapEntry \<Rightarrow> Record list" where
  "snap_rest srcs e = shRec e # source_rest (srcs ! shSource e)"

definition snap_pending :: "snap_queue \<Rightarrow> Record list" where
  "snap_pending q = concat (map (snap_rest (snd q)) (fst q))"

definition snap_inv :: "snap_queue \<Rightarrow> bool" where
  "snap_inv q \<longleftrightarrow> is_heap snapshotHeap_Less (fst q) \<and> distinct (map shSource (fst q)) \<and>
     (\<forall>e \<in> set (fst q). shSource e < length (snd q) \<and> sorted_run (snap_rest (snd q) e)) \<and> (\<forall>s \<in> set (snd q). source_sound s)"

lemma mset_snap_pending: "mset (snap_pending (h, srcs)) = (\<Sum>e \<in># mset h. mset (snap_rest srcs e))"
  by (induction h) (simp_all add: snap_pending_def)

lemma snap_rest_other: "shSource e \<noteq> i \<Longrightarrow> snap_rest (srcs[i := s]) e = snap_rest srcs e"
  by (simp add: snap_rest_def)


text \<open>Adding the next record of a source that is not in the heap.\<close>

lemma push_next_spec:
  assumes "is_heap snapshotHeap_Less h" "distinct (map shSource h)" "i < length srcs" "i \<notin> shSource ` set h"
    and "\<forall>e \<in> set h. shSource e < length srcs \<and> sorted_run (snap_rest srcs e)" "\<forall>s \<in> set srcs. source_sound s"
    and "sorted_run (source_rest (srcs ! i))"
  shows "\<exists>q'. push_next (h, srcs) i = Inr q' \<and> snap_inv q' \<and> length (snd q') = length srcs \<and>
    (\<forall>j. j \<noteq> i \<longrightarrow> snd q' ! j = srcs ! j) \<and> shSource ` set (fst q') \<subseteq> insert i (shSource ` set h) \<and>
    mset (snap_pending q') = mset (snap_pending (h, srcs)) + mset (source_rest (srcs ! i))"
proof -
  obtain s' r where n: "source_Next (srcs ! i) = (s', r)" by fastforce
  have sound: "source_sound (srcs ! i)" using assms(3,6) by simp
  have other: "snap_rest (srcs[i := s]) e = snap_rest srcs e" if "e \<in> set h" for e s
    using that assms(4) by (intro snap_rest_other) auto
  show ?thesis
  proof (cases r)
    case (Inl e)
    then show ?thesis using sound n by (simp add: source_sound.simps [of "srcs ! i"])
  next
    case (Inr o')
    show ?thesis
    proof (cases o')
      case None
      then have s': "s' = srcs ! i" "source_rest (srcs ! i) = []"
        using source_Next_None source_end(1) n Inr by auto
      have "snap_inv (h, srcs)" using assms by (simp add: snap_inv_def)
      then show ?thesis using assms(3) n Inr None s' by (auto simp: push_next_def)
    next
      case (Some y)
      let ?e = "\<lparr>shRec = y, shSource = i\<rparr>"
      note st = source_step [OF n [unfolded Inr Some]]
      have q': "push_next (h, srcs) i = Inr (heap_Push snapshotHeap_Less h ?e, srcs[i := s'])"
        using assms(3) n Inr Some by (simp add: push_next_def)
      have set: "set (heap_Push snapshotHeap_Less h ?e) = insert ?e (set h)" by (rule set_Push)
      have new: "snap_rest (srcs[i := s']) ?e = source_rest (srcs ! i)" using assms(3) st(1) by (simp add: snap_rest_def)
      have "mset (map shSource (heap_Push snapshotHeap_Less h ?e)) = add_mset i (mset (map shSource h))"
        by (simp add: mset_Push)
      then have dist: "distinct (map shSource (heap_Push snapshotHeap_Less h ?e))"
        using assms(2,4) mset_eq_imp_distinct_iff [of _ "i # map shSource h"] by simp
      have ok: "source_sound x" if "x \<in> set (srcs[i := s'])" for x
        using that set_update_subset_insert [of srcs i s'] assms(6) sound st(2) by auto
      have "snap_inv (heap_Push snapshotHeap_Less h ?e, srcs[i := s'])"
        using sh.Push_spec(1) [OF assms(1)] dist assms(3,5,7) new other ok
        by (auto simp: snap_inv_def set)
      moreover have "{#mset (snap_rest (srcs[i := s']) e). e \<in># mset h#} = {#mset (snap_rest srcs e). e \<in># mset h#}"
        by (rule image_mset_cong) (simp add: other)
      then have "mset (snap_pending (heap_Push snapshotHeap_Less h ?e, srcs[i := s'])) =
          mset (snap_pending (h, srcs)) + mset (source_rest (srcs ! i))"
        by (simp add: mset_snap_pending mset_Push new)
      ultimately show ?thesis using q' set by (auto simp del: insert_subset)
    qed
  qed
qed

lemma snap_pop_spec:
  assumes "snap_inv q" "fst q \<noteq> []"
  shows "pop_next q = Inr (snap_pop q)" "snap_inv (snap_pop q)"
    "mset (snap_pending q) = add_mset (shRec (fst q ! 0)) (mset (snap_pending (snap_pop q)))"
    "fst (heap_Pop snapshotHeap_Less (fst q)) = fst q ! 0"
proof -
  obtain h srcs where q: "q = (h, srcs)" by fastforce
  have inv: "is_heap snapshotHeap_Less h" "h \<noteq> []" "distinct (map shSource h)"
    "\<forall>e \<in> set h. shSource e < length srcs \<and> sorted_run (snap_rest srcs e)" "\<forall>s \<in> set srcs. source_sound s"
    using assms by (simp_all add: q snap_inv_def)
  note ps = sh.Pop_spec [OF inv(1,2)]
  define g where "g = snd (heap_Pop snapshotHeap_Less h)"
  define e where "e = h ! 0"
  have ms: "mset h = add_mset e (mset g)" using ps(3) by (simp add: g_def e_def)
  have sets: "set h = insert e (set g)" using arg_cong [OF ms, of set_mset] by simp
  have "mset (map shSource h) = mset (map shSource (e # g))" using ms by simp
  then have "distinct (map shSource (e # g))" using inv(3) mset_eq_imp_distinct_iff by blast
  then have d: "shSource e \<notin> shSource ` set g" "distinct (map shSource g)" by auto
  have g: "is_heap snapshotHeap_Less g" using ps(2) by (simp add: g_def)
  have "sorted_run (snap_rest srcs e)" "shSource e < length srcs" using inv(4) sets by auto
  then have e: "sorted_run (source_rest (srcs ! shSource e))" "shSource e < length srcs"
    by (simp_all add: snap_rest_def sorted_run_Cons)
  have gs: "\<forall>x \<in> set g. shSource x < length srcs \<and> sorted_run (snap_rest srcs x)" using inv(4) sets by auto
  obtain q' where q': "push_next (g, srcs) (shSource e) = Inr q'" "snap_inv q'"
    "mset (snap_pending q') = mset (snap_pending (g, srcs)) + mset (source_rest (srcs ! shSource e))"
    using push_next_spec [OF g d(2) e(2) d(1) gs inv(5) e(1)] by blast
  have pop: "heap_Pop snapshotHeap_Less h = (e, g)" using ps(1) by (simp add: g_def e_def prod_eq_iff)
  then have pn: "pop_next q = Inr q'" using q'(1) by (simp add: pop_next_def q)
  then show "pop_next q = Inr (snap_pop q)" by (simp add: snap_pop_def)
  from pn have sp: "snap_pop q = q'" by (simp add: snap_pop_def)
  show "snap_inv (snap_pop q)" by (simp add: sp q'(2))
  have "mset (snap_pending (h, srcs)) = mset (snap_rest srcs e) + mset (snap_pending (g, srcs))"
    by (simp add: mset_snap_pending ms)
  then show "mset (snap_pending q) = add_mset (shRec (fst q ! 0)) (mset (snap_pending (snap_pop q)))"
    by (simp add: sp q'(3)) (simp add: q snap_rest_def e_def)
  show "fst (heap_Pop snapshotHeap_Less (fst q)) = fst q ! 0" using pop by (simp add: q e_def)
qed

interpretation sq: merge_queue snap_top snap_pop snap_pending snap_inv
proof
  fix q r
  assume inv: "snap_inv q" and top: "snap_top q = Some r"
  then have ne: "fst q \<noteq> []" "r = shRec (fst q ! 0)" by (auto simp: snap_top_def split: if_splits)
  show "snap_inv (snap_pop q)" by (rule snap_pop_spec(2) [OF inv ne(1)])
  show "mset (snap_pending q) = add_mset r (mset (snap_pending (snap_pop q)))" unfolding ne(2) by (rule snap_pop_spec(3) [OF inv ne(1)])
  show "\<not> version_less x r" if "x \<in> set (snap_pending q)" for x
  proof -
    from that obtain e where e: "e \<in> set (fst q)" "x \<in> set (snap_rest (snd q) e)" by (auto simp: snap_pending_def)
    have "is_heap snapshotHeap_Less (fst q)" "sorted_run (snap_rest (snd q) e)" using inv e(1) by (auto simp: snap_inv_def)
    moreover obtain k where "k < length (fst q)" "e = fst q ! k" using e(1) by (auto simp: in_set_conv_nth)
    ultimately have "\<not> version_less (shRec e) r" using sh.root_least [of "fst q" k] by (simp add: snapshotHeap_Less_def ne(2))
    moreover have "\<not> version_less x (shRec e)"
      using e(2) \<open>sorted_run (snap_rest (snd q) e)\<close> by (auto simp: snap_rest_def sorted_run_Cons version_not_less_iff)
    ultimately show ?thesis using version_not_less_trans by blast
  qed
next
  fix q
  assume "snap_inv q" "snap_top q = None"
  then show "snap_pending q = []" by (simp add: snap_top_def snap_pending_def split: if_splits)
qed


section \<open>What the merge visits\<close>

fun visit_all :: "('a \<Rightarrow> Record \<Rightarrow> 'a \<times> unit result) \<Rightarrow> 'a \<Rightarrow> Record list \<Rightarrow> 'a \<times> unit result" where
  "visit_all visit acc [] = (acc, Inr ())"
| "visit_all visit acc (r # rs) =
     (case visit acc r of (acc, Inl e) \<Rightarrow> (acc, Inl e) | (acc, Inr _) \<Rightarrow> visit_all visit acc rs)"

lemma drop_duplicates_drains:
  "snap_inv q \<Longrightarrow> \<exists>q'. drop_duplicates key q = Inr q' \<and> drains snap_top snap_pop key q q'"
proof (induction key q rule: drop_duplicates.induct)
  case (1 key q)
  show ?case
  proof (cases "fst q \<noteq> [] \<and> rKey (shRec (fst q ! 0)) = key")
    case True
    note sp = snap_pop_spec [OF "1.prems"]
    have "pop_next q = Inr (snap_pop q)" "snap_inv (snap_pop q)" using sp(1,2) True by simp_all
    with "1.IH" [OF True] obtain q' where q': "drop_duplicates key (snap_pop q) = Inr q'" "drains snap_top snap_pop key (snap_pop q) q'"
      by blast
    have "drains snap_top snap_pop key q q'"
      using True q'(2) by (intro drains.drain [of snap_top q "shRec (fst q ! 0)"]) (simp_all add: snap_top_def)
    then show ?thesis using True q'(1) \<open>pop_next q = Inr (snap_pop q)\<close> by (auto simp: drop_duplicates.simps [of key q])
  next
    case False
    then have "drains snap_top snap_pop key q q" by (intro drains.drained) (auto simp: snap_top_def split: if_splits)
    moreover have "drop_duplicates key q = Inr q" using False by (auto simp: drop_duplicates.simps [of key q])
    ultimately show ?thesis by blast
  qed
qed

lemma visit_loop_merges:
  assumes "snap_inv q"
  shows "\<exists>out. merges snap_top snap_pop q out \<and>
    (\<forall>(visit :: 'a \<Rightarrow> Record \<Rightarrow> 'a \<times> unit result) acc. visit_loop visit acc q = visit_all visit acc (filter (\<lambda>r. rType r = RecordTypePut) out))"
  using assms
proof (induction "queue_load q" arbitrary: q rule: less_induct)
  case less
  show ?case
  proof (cases "fst q = []")
    case True
    then show ?thesis
      by (intro exI [of _ "[]"]) (auto simp: visit_loop.simps [of _ _ q] snap_top_def intro: merges.merged)
  next
    case False
    note sp = snap_pop_spec [OF less.prems False]
    define w where "w = shRec (fst q ! 0)"
    have top: "snap_top q = Some w" using False by (simp add: snap_top_def w_def)
    obtain q2 where q2: "drop_duplicates (rKey w) (snap_pop q) = Inr q2" "drains snap_top snap_pop (rKey w) (snap_pop q) q2"
      using drop_duplicates_drains [OF sp(2)] by blast
    have "snap_inv q2" using sq.drains_spec [OF q2(2) sp(2) sq.pop_keys [OF less.prems top]] by blast
    moreover have "queue_load q2 < queue_load q"
      using drop_duplicates_load [OF q2(1)] pop_next_load [OF False sp(1)] by simp
    ultimately obtain out where out: "merges snap_top snap_pop q2 out"
      "\<And>(visit :: 'a \<Rightarrow> Record \<Rightarrow> 'a \<times> unit result) acc. visit_loop visit acc q2 = visit_all visit acc (filter (\<lambda>r. rType r = RecordTypePut) out)"
      using less.hyps by blast
    have "visit_loop visit acc q = visit_all visit acc (filter (\<lambda>r. rType r = RecordTypePut) (w # out))"
      for visit :: "'a \<Rightarrow> Record \<Rightarrow> 'a \<times> unit result" and acc
      using False sp(4) by (simp add: visit_loop.simps [of _ _ q] Let_def sp(1) w_def [symmetric] q2(1) out(2))
    then show ?thesis using merges.round [where top = snap_top, OF top q2(2) out(1)] by blast
  qed
qed

lemma seed_queue_spec:
  assumes "snap_inv q" "length (snd q) = length srcs" "i \<le> length srcs" "\<forall>j. i \<le> j \<longrightarrow> snd q ! j = srcs ! j"
    and "shSource ` set (fst q) \<subseteq> {..<i}" "\<forall>s \<in> set srcs. sorted_run (source_rest s)"
  shows "\<exists>q'. seed_queue q [i..<length srcs] = Inr q' \<and> snap_inv q' \<and>
    mset (snap_pending q') = mset (snap_pending q) + mset (concat (map source_rest (drop i srcs)))"
  using assms(1-5)
proof (induction "length srcs - i" arbitrary: i q)
  case 0
  then show ?case by simp
next
  case (Suc n)
  then have i: "i < length srcs" by simp
  obtain h ss where q: "q = (h, ss)" by fastforce
  have inv: "is_heap snapshotHeap_Less h" "distinct (map shSource h)"
    "\<forall>e \<in> set h. shSource e < length ss \<and> sorted_run (snap_rest ss e)" "\<forall>s \<in> set ss. source_sound s"
    using Suc.prems(1) by (simp_all add: q snap_inv_def)
  have si: "ss ! i = srcs ! i" "i < length ss" using Suc.prems(2,4) i by (simp_all add: q)
  have "sorted_run (source_rest (ss ! i))" using si(1) i assms(6) by simp
  moreover have "i \<notin> shSource ` set h" using Suc.prems(5) by (auto simp: q)
  ultimately obtain q1 where q1: "push_next (h, ss) i = Inr q1" "snap_inv q1" "length (snd q1) = length ss"
    "\<forall>j. j \<noteq> i \<longrightarrow> snd q1 ! j = ss ! j" "shSource ` set (fst q1) \<subseteq> insert i (shSource ` set h)"
    "mset (snap_pending q1) = mset (snap_pending (h, ss)) + mset (source_rest (ss ! i))"
    using push_next_spec [OF inv(1,2) si(2) _ inv(3,4)] by blast
  have "insert i (shSource ` set h) \<subseteq> {..<Suc i}" using Suc.prems(5) by (auto simp: q)
  with q1(5) have used: "shSource ` set (fst q1) \<subseteq> {..<Suc i}" by (rule subset_trans)
  have "\<exists>q'. seed_queue q1 [Suc i..<length srcs] = Inr q' \<and> snap_inv q' \<and>
      mset (snap_pending q') = mset (snap_pending q1) + mset (concat (map source_rest (drop (Suc i) srcs)))"
    using Suc.hyps(2) Suc.prems(2,4) i q1(2-4) used by (intro Suc.hyps(1)) (auto simp: q)
  then obtain q' where "seed_queue q1 [Suc i..<length srcs] = Inr q'" "snap_inv q'"
    "mset (snap_pending q') = mset (snap_pending q1) + mset (concat (map source_rest (drop (Suc i) srcs)))" by blast
  moreover have "drop i srcs = srcs ! i # drop (Suc i) srcs" using i by (simp add: Cons_nth_drop_Suc)
  ultimately show ?case using i q1(1,6) si(1) by (simp add: upt_conv_Cons q)
qed

text \<open>The live records of an engine in key order.\<close>

lemma replica_sources_rest:
  assumes "db_rep db rss"
  shows "map source_rest (replica_sources db) = SortedEntries (dbMem db) # rss" "\<forall>s \<in> set (replica_sources db). source_sound s"
    "\<forall>s \<in> set (replica_sources db). sorted_run (source_rest s)"
proof -
  have rd: "list_all2 reads_table (dbReaders db) rss" "mt_wf (dbMem db)" using assms by (simp_all add: db_rep_def)
  have "map source_rest (map (\<lambda>r. iteratorRecordSource (reader_Iterator r)) rs) = ls \<and>
      (\<forall>s \<in> set (map (\<lambda>r. iteratorRecordSource (reader_Iterator r)) rs). source_sound s)"
    if "list_all2 reads_table rs ls" for rs ls
    using that by (induction rs ls rule: list_all2_induct) (auto simp: source_table)
  note this [OF rd(1)]
  then show *: "map source_rest (replica_sources db) = SortedEntries (dbMem db) # rss" "\<forall>s \<in> set (replica_sources db). source_sound s"
    using source_slice [of _ 0] by (auto simp: replica_sources_def)
  have "\<forall>l \<in> set (SortedEntries (dbMem db) # rss). sorted_run l"
    using assms by (auto simp: db_rep_def layered_def)
  then show "\<forall>s \<in> set (replica_sources db). sorted_run (source_rest s)"
    unfolding *(1) [symmetric] by simp
qed


lemma run_pairs:
  assumes "sorted_run rs"
  shows "sorted_wrt (<) (map fst (map (\<lambda>r. (rKey r, rValue r)) rs))"
    "map_of (map (\<lambda>r. (rKey r, rValue r)) rs) k = map_option rValue (run_lookup rs k)"
proof -
  show "sorted_wrt (<) (map fst (map (\<lambda>r. (rKey r, rValue r)) rs))" using assms by (simp add: sorted_run_def comp_def)
  show "map_of (map (\<lambda>r. (rKey r, rValue r)) rs) k = map_option rValue (run_lookup rs k)"
    by (induction rs) (auto simp: run_lookup_def)
qed

lemma visit_live:
  assumes "db_rep db rss" "sorted_wrt (<) (map fst ps)" "map_of ps = db_map db rss"
  shows "\<exists>recs. map (\<lambda>r. (rKey r, rValue r)) recs = ps \<and> (\<forall>r \<in> set recs. fits r) \<and>
    (\<forall>(visit :: 'a \<Rightarrow> Record \<Rightarrow> 'a \<times> unit result) acc. visitReplicaStateLocked db visit acc = visit_all visit acc recs)"
proof -
  note src = replica_sources_rest [OF assms(1)]
  have init: "snap_inv ([], replica_sources db)" using src(2) by (simp add: snap_inv_def is_heap_def heap_below_def)
  obtain q where q: "seed_queue ([], replica_sources db) [0..<length (replica_sources db)] = Inr q" "snap_inv q"
    "mset (snap_pending q) = mset (concat (map source_rest (replica_sources db)))"
    using seed_queue_spec [OF init, of "replica_sources db" 0] src(3) by (auto simp: snap_pending_def)
  have pend: "set (snap_pending q) = set (versions db rss)"
    using arg_cong [OF q(3), of set_mset] by (simp add: src(1) versions_def)
  have nt: "no_ties (versions db rss)" "no_ties (snap_pending q)"
    using assms(1) layered_no_ties [of "SortedEntries (dbMem db) # rss"] pend
    by (auto simp: db_rep_def versions_def intro: no_ties_subset)
  obtain out where out: "merges snap_top snap_pop q out"
    "\<And>(visit :: 'a \<Rightarrow> Record \<Rightarrow> 'a \<times> unit result) acc. visit_loop visit acc q = visit_all visit acc (filter (\<lambda>r. rType r = RecordTypePut) out)"
    using visit_loop_merges [OF q(2)] by blast
  have new: "newest (snap_pending q) k = newest (versions db rss) k" for k
    by (rule newest_cong [OF nt(2,1)]) (simp add: pend)
  have spec: "sorted_run out" "set out \<subseteq> set (versions db rss)" "run_lookup out k = newest (versions db rss) k" for k
    using sq.merges_spec [OF out(1) q(2) nt(2)] by (simp_all add: pend new)
  define recs where "recs = filter (\<lambda>r. rType r = RecordTypePut) out"
  have run: "sorted_run recs" using spec(1) by (simp add: recs_def sorted_run_filter)
  have "map_option rValue (run_lookup recs k) = db_map db rss k" for k
    using newest_rec_ok [OF assms(1), of k] unfolding db_map_def
    by (subst put_live [symmetric]) (auto simp: recs_def run_lookup_filter [OF spec(1)] spec(3) split: option.split)
  then have "map_of (map (\<lambda>r. (rKey r, rValue r)) recs) = map_of ps"
    unfolding assms(3) by (simp add: fun_eq_iff run_pairs(2) [OF run])
  then have "map (\<lambda>r. (rKey r, rValue r)) recs = ps"
    by (rule sorted_pairs_unique [OF run_pairs(1) [OF run] _ assms(2)])
  moreover have "\<forall>r \<in> set recs. fits r" using spec(2) assms(1) by (auto simp: recs_def db_rep_def rec_ok_def)
  moreover have "visitReplicaStateLocked db visit acc = visit_all visit acc recs" for visit :: "'a \<Rightarrow> Record \<Rightarrow> 'a \<times> unit result" and acc
    by (simp add: visitReplicaStateLocked_def Let_def heap_Init_def q(1) out(2) recs_def)
  ultimately show ?thesis by blast
qed

section \<open>The image\<close>

definition image_record :: "KVPair \<Rightarrow> bytes" where
  "image_record p = putUint32 (word_of_nat (length (fst p))) @ putUint32 (word_of_nat (length (snd p))) @ fst p @ snd p"

definition replica_image :: "KVPair list \<Rightarrow> bytes" where
  "replica_image ps = replicaSnapshotMagic @ putUint64 (word_of_nat (length ps)) @ concat (map image_record ps)"

lemma visit_count: "visit_all count_visit c rs = (c + word_of_nat (length rs), Inr ())"
  by (induction rs arbitrary: c) (simp_all add: count_visit_def add.assoc)

lemma visit_write:
  assumes "\<forall>r \<in> set rs. fits r"
  shows "\<exists>cs. visit_all write_visit chunks rs = (chunks @ cs, Inr ()) \<and> concat cs = concat (map image_record (map (\<lambda>r. (rKey r, rValue r)) rs))"
  using assms
proof (induction rs arbitrary: chunks)
  case (Cons r rs)
  let ?c = "[putUint32 (word_of_nat (length (rKey r))), putUint32 (word_of_nat (length (rValue r))), rKey r, rValue r]"
  have "write_visit chunks r = (chunks @ ?c, Inr ())" using Cons.prems by (auto simp: write_visit_def fits_def)
  moreover obtain cs where "visit_all write_visit (chunks @ ?c) rs = ((chunks @ ?c) @ cs, Inr ())"
    "concat cs = concat (map image_record (map (\<lambda>r. (rKey r, rValue r)) rs))"
    using Cons.IH [of "chunks @ ?c"] Cons.prems by auto
  ultimately show ?case by (intro exI [of _ "?c @ cs"]) (simp add: image_record_def [of "(rKey r, rValue r)"])
qed simp

lemma WriteReplicaSnapshot_image:
  assumes "db_rep db rss" "replica db" "dbApplied db \<noteq> 0"
  shows "\<exists>ps chunks. WriteReplicaSnapshot db = (chunks, Inr (dbApplied db)) \<and> concat chunks = replica_image ps \<and>
    sorted_wrt (<) (map fst ps) \<and> map_of ps = db_map db rss"
proof -
  obtain ps where ps: "sorted_wrt (<) (map fst ps)" "map_of ps = db_map db rss"
    using ExportReplicaState_map [OF assms(1,2)] by blast
  obtain r1 where r1: "map (\<lambda>r. (rKey r, rValue r)) r1 = ps"
    "\<And>visit acc. visitReplicaStateLocked db visit (acc :: u64) = visit_all visit acc r1"
    using visit_live [OF assms(1) ps] by blast
  obtain r2 where r2: "map (\<lambda>r. (rKey r, rValue r)) r2 = ps" "\<forall>r \<in> set r2. fits r"
    "\<And>visit acc. visitReplicaStateLocked db visit (acc :: bytes list) = visit_all visit acc r2"
    using visit_live [OF assms(1) ps] by blast
  have len: "length r1 = length ps" using arg_cong [OF r1(1), of length] by simp
  obtain cs where cs: "visit_all write_visit [replicaSnapshotMagic, putUint64 (word_of_nat (length ps))] r2 =
      ([replicaSnapshotMagic, putUint64 (word_of_nat (length ps))] @ cs, Inr ())" "concat cs = concat (map image_record ps)"
    using visit_write [OF r2(2)] unfolding r2(1) by blast
  have "WriteReplicaSnapshot db = ([replicaSnapshotMagic, putUint64 (word_of_nat (length ps))] @ cs, Inr (dbApplied db))"
    using assms(2,3) cs(1) by (simp add: WriteReplicaSnapshot_def r1(2) visit_count len r2(3))
  moreover have "concat ([replicaSnapshotMagic, putUint64 (word_of_nat (length ps))] @ cs) = replica_image ps"
    by (simp add: replica_image_def cs(2))
  ultimately show ?thesis using ps by blast
qed


section \<open>Reading the image back\<close>

definition field_ok :: "KVPair \<Rightarrow> bool" where
  "field_ok p \<longleftrightarrow> fst p \<noteq> [] \<and> length (fst p) \<le> maxReplicaSnapshotField \<and> length (snd p) \<le> maxReplicaSnapshotField"

lemma image_loop_step:
  assumes "field_ok p" "previous < fst p"
  shows "image_loop (Suc n) index d w (image_record p @ rest) previous =
    (case stream_Add d w (snapshot_record index p) of
       (d, w, Inl e) \<Rightarrow> (d, w, Inl e)
     | (d, w, Inr _) \<Rightarrow> image_loop n index d w rest (fst p))"
proof -
  obtain k v where p: "p = (k, v)" by fastforce
  have len: "unat (word_of_nat (length k) :: u32) = length k" "unat (word_of_nat (length v) :: u32) = length v"
    using assms(1) by (simp_all add: field_ok_def p maxReplicaSnapshotField_def unat_of_nat_u32)
  have r: "readFull (image_record p @ rest) 4 = Full (putUint32 (word_of_nat (length k))) (putUint32 (word_of_nat (length v)) @ k @ v @ rest)"
    "readFull (putUint32 (word_of_nat (length v)) @ k @ v @ rest) 4 = Full (putUint32 (word_of_nat (length v))) (k @ v @ rest)"
    "readFull (k @ v @ rest) (length k) = Full k (v @ rest)" "readFull (v @ rest) (length v) = Full v rest"
    using readFull_append [of "putUint32 (word_of_nat (length k))"] readFull_append [of "putUint32 (word_of_nat (length v))"]
    by (simp_all add: image_record_def p readFull_append)
  have c: "\<not> (length k = 0 \<or> length k > maxReplicaSnapshotField \<or> length v > maxReplicaSnapshotField)" "\<not> k \<le> previous"
    using assms by (auto simp: field_ok_def p)
  have rec: "\<lparr>rKey = k, rValue = v, rSeqNum = index, rType = RecordTypePut\<rparr> = snapshot_record index p"
    by (simp add: snapshot_record_def p)
  show ?thesis
    unfolding p fst_conv image_loop.simps r(1,2) [unfolded p] read_outcome.case getUint_put_end len Let_def if_not_P [OF c(1)] r(3,4) if_not_P [OF c(2)]
      rec [unfolded p]
    by (rule refl)
qed

lemma image_loop_records:
  assumes "\<forall>p \<in> set ps. field_ok p" "sorted_wrt (<) (map fst ps)" "\<forall>p \<in> set ps. previous < fst p"
  shows "image_loop (length ps) index d w (concat (map image_record ps) @ rest) previous =
    (case stream_adds d w (map (snapshot_record index) ps) of
       (d, w, Inl e) \<Rightarrow> (d, w, Inl e) | (d, w, Inr _) \<Rightarrow> (d, w, Inr rest))"
  using assms
proof (induction ps arbitrary: d w previous)
  case (Cons p ps)
  show ?case
  proof (cases "stream_Add d w (snapshot_record index p)")
    case (fields d1 w1 r1)
    have "image_loop (length ps) index d1 w1 (concat (map image_record ps) @ rest) (fst p) =
      (case stream_adds d1 w1 (map (snapshot_record index) ps) of
         (d, w, Inl e) \<Rightarrow> (d, w, Inl e) | (d, w, Inr _) \<Rightarrow> (d, w, Inr rest))"
      using Cons.prems by (intro Cons.IH) auto
    then show ?thesis
      using image_loop_step [of p previous "length ps" index d w "concat (map image_record ps) @ rest"] Cons.prems fields
      by (cases r1) simp_all
  qed
qed simp

lemma Nil_less: "k \<noteq> [] \<Longrightarrow> [] < (k :: bytes)"
  by (cases k) simp_all

lemma length_image_record: "length (image_record p) = 8 + length (fst p) + length (snd p)"
  by (simp add: image_record_def)

lemma length_replica_image: "length (replica_image ps) = 16 + length (concat (map image_record ps))"
  by (simp add: replica_image_def replicaSnapshotMagic_def asc_def)

lemma image_count_bound: "8 * length ps \<le> length (concat (map image_record ps))"
  by (induction ps) (simp_all add: length_image_record)

text \<open>Installing an image: the pairs become the whole state, or the engine stays as it was.\<close>

lemma ReplaceReplicaSnapshot_map:
  assumes "good_sizing (eSizing env)" "\<forall>p \<in> set ps. field_ok p" "sorted_wrt (<) (map fst ps)"
    and "weight (map (snapshot_record index) ps) \<le> 2 ^ 43" "length (replica_image ps) < 2 ^ 62"
    and "ReplaceReplicaSnapshot env d db index (word_of_nat (length (replica_image ps))) (replica_image ps) = (d', db', res)"
  shows "if res = Inr () then
      (\<exists>rss'. db_rep db' rss' \<and> db_map db' rss' = map_of ps) \<and> dbApplied db' = index \<and> replica db'
    else db' = db"
proof (cases "replica db \<and> index \<noteq> 0 \<and> \<not> index < dbApplied db")
  case False
  then show ?thesis using assms(6) by (auto simp: ReplaceReplicaSnapshot_def split: if_splits)
next
  case True
  define body where "body = concat (map image_record ps)"
  define sz where "sz = (word_of_nat (length (replica_image ps)) :: u64)"
  define cnt where "cnt = (word_of_nat (length ps) :: u64)"
  have bound: "length ps * 8 \<le> length body" using image_count_bound [of ps] by (simp add: body_def)
  have "unat sz = length (replica_image ps)" using assms(5) by (simp add: sz_def unat_of_nat_u64)
  then have szn: "unat sz = 16 + length body" by (simp add: length_replica_image body_def)
  have cn: "unat cnt = length ps" "length ps < 2 ^ 62" using bound assms(5) by (simp_all add: cnt_def length_replica_image body_def unat_of_nat_u64)
  have fit: "\<forall>p \<in> set ps. fits (snapshot_record index p)" using assms(2) by (auto simp: field_ok_def fits_def maxReplicaSnapshotField_def)
  have len8: "length replicaSnapshotMagic = 8" by (simp add: replicaSnapshotMagic_def asc_def)
  have img: "replica_image ps = replicaSnapshotMagic @ putUint64 cnt @ body" by (simp add: replica_image_def cnt_def body_def)
  have r: "readFull (replica_image ps) 8 = Full replicaSnapshotMagic (putUint64 cnt @ body)" "readFull (putUint64 cnt @ body) 8 = Full (putUint64 cnt) body"
    using readFull_append [of replicaSnapshotMagic] readFull_append [of "putUint64 cnt"] len8 by (simp_all add: img)
  have c1: "\<not> sz < 16" using szn by (simp add: word_less_nat_alt)
  have "unat ((sz - 16) div 8) = length body div 8"
    using szn by (simp add: unat_div unat_sub_u64 word_le_nat_alt)
  then have c2: "\<not> (cnt > (sz - 16) div 8 \<or> cnt > 2 ^ 63 - 1)"
    using cn bound by (simp add: word_less_nat_alt)
  have run: "ReplaceReplicaSnapshot env d db index sz (replica_image ps) =
      (if cnt = 0 then (if body \<noteq> [] then (d, db, Inl (Err ''state snapshot has trailing data'')) else publish_snapshot d db index (dbNextSST db + 1) None)
       else image_table env d db index cnt body)"
    unfolding ReplaceReplicaSnapshot_def r read_outcome.case getUint_put_end Let_def if_not_P [OF c2] if_not_P [OF c1]
    using True by simp
  have pub: ?thesis
    if "publish_snapshot d1 db index n new = (d', db', res)"
      and new: "if ps = [] then new = None else \<exists>nm r. new = Some (nm, r) \<and> reads_table r (map (snapshot_record index) ps)"
    for d1 n new
    using that(1)
  proof (cases rule: publish_snapshot_cases)
    case 2
    define rss' where "rss' = (if ps = [] then [] else [map (snapshot_record index) ps])"
    have "db_rep db' rss'" "db_map db' rss' = map_of ps"
      using rep_snapshot [OF assms(3) fit 2(3) 2(4), of rss'] 2 True new by (auto simp: rss'_def split: if_splits)
    then show ?thesis using 2 True by auto
  qed simp
  show ?thesis
  proof (cases "ps = []")
    case True
    then have "cnt = 0" "body = []" by (simp_all add: cnt_def body_def)
    then show ?thesis using run assms(6) True by (intro pub [of d "dbNextSST db + 1" None]) (simp_all add: sz_def)
  next
    case False
    have nz: "cnt \<noteq> 0" using cn(1) False by (metis unat_0 length_0_conv)
    have sc: "sint cnt = int (length ps)" using cn(2) by (simp add: cnt_def sint_of_nat_u64)
    have it: "image_table env d db index cnt body = (d', db', res)" using run nz assms(6) by (simp add: sz_def)
    define path where "path = sst_name (dbNextSST db + 1)"
    define recs where "recs = map (snapshot_record index) ps"
    obtain d1 r1 where w: "NewStreamWriter (eSizing env) d path (int (length ps)) = (d1, r1)" by fastforce
    show ?thesis
    proof (cases r1)
      case (Inl e)
      then show ?thesis using it w by (auto simp: image_table_def Let_def sc path_def)
    next
      case (Inr sw)
      have prev: "\<forall>p \<in> set ps. [] < fst p" using assms(2) by (auto simp: field_ok_def intro: Nil_less)
      have loop: "image_loop (unat cnt) index d1 sw body [] =
          (case stream_adds d1 sw recs of (d, w, Inl e) \<Rightarrow> (d, w, Inl e) | (d, w, Inr _) \<Rightarrow> (d, w, Inr []))"
        using image_loop_records [OF assms(2,3) prev, of index d1 sw "[]"] by (simp add: cn(1) body_def recs_def)
      obtain d2 w2 r2 where a: "stream_adds d1 sw recs = (d2, w2, r2)" by (metis prod_cases3)
      show ?thesis
      proof (cases r2)
        case (Inl e)
        then show ?thesis using it w \<open>r1 = Inr sw\<close> loop a by (auto simp: image_table_def Let_def sc path_def abort_stream_def)
      next
        case (Inr u2)
        obtain d3 w3 r3 where f: "stream_Finish d2 w2 = (d3, w3, r3)" by (metis prod_cases3)
        show ?thesis
        proof (cases r3)
          case (Inl e)
          then show ?thesis using it w \<open>r1 = Inr sw\<close> loop a f \<open>r2 = Inr u2\<close> by (auto simp: image_table_def Let_def sc path_def abort_stream_def)
        next
          case (Inr u3)
          have ne: "recs \<noteq> []" using False by (simp add: recs_def)
          have keys: "\<forall>r \<in> set recs. rKey r \<noteq> [] \<and> fits r" using assms(2) fit by (auto simp: recs_def field_ok_def)
          have srt: "sorted_run recs" using snapshot_run(1) [OF assms(3)] by (simp add: recs_def)
          have "stream_run (eSizing env) d path recs = (d3, Inr ())"
            using w \<open>r1 = Inr sw\<close> a f \<open>r2 = Inr u2\<close> Inr by (simp add: stream_run_def recs_def)
          moreover have "length recs < 2 ^ 63" using cn(2) by (simp add: recs_def)
          moreover have "weight recs \<le> 2 ^ 43" using assms(4) by (simp add: recs_def)
          ultimately have sw: "sstable_Write (eSizing env) d path recs = (d3, Inr ())"
            using stream_run_Write [OF ne srt keys _ good_sizing_sized(1) [OF assms(1) ne]] by simp
          obtain rd where rd: "sstable_Open d3 path = Inr rd" "reads_table rd recs"
            using Write_reads_table [OF sw ne assms(1) srt] keys assms(4) by (auto simp: recs_def)
          have "publish_snapshot d3 db index (dbNextSST db + 1) (Some (path, rd)) = (d', db', res)"
            using it w \<open>r1 = Inr sw\<close> loop a f \<open>r2 = Inr u2\<close> Inr rd(1) by (simp add: image_table_def Let_def sc path_def)
          then show ?thesis using rd(2) False by (intro pub) (auto simp: recs_def)
        qed
      qed
    qed
  qed
qed


subsection \<open>From one replica to another\<close>

lemma weight_replica_image: "weight (map (snapshot_record index) ps) \<le> 3 * length (replica_image ps)"
  by (induction ps) (auto simp: length_replica_image length_image_record snapshot_record_def record_size_def recordHeaderSize_def)

definition sample_replica :: DB where
  "sample_replica = (fresh_db DurabilityReplica)\<lparr>dbApplied := 9\<rparr>"

lemma sample_replica_rep: "db_rep sample_replica []" "replica sample_replica" "dbApplied sample_replica = 9"
  "db_map sample_replica [] = Map.empty"
  by (simp_all add: db_rep_def versions_def db_map_def sample_replica_def fresh_db_def fun_eq_iff replica_def DefaultOptions_def)



end
