(* ===== verification/Membership.thy ===== *)
theory Membership
  imports Json
begin

text \<open>
  Voter configurations of the consensus core (\<open>internal/raft/membership.go\<close>, and \<open>applyMembership\<close> and
  \<open>equalVoters\<close> of \<open>node.go\<close>): the configuration at a log position, the log entries that change it, and
  the quorum predicates. A configuration with joint voters needs a majority of both voter sets.
\<close>

section \<open>Configurations and commands\<close>

record Membership =
  Voters :: "u64 list"
  JointVoters :: "u64 list"
  mbIndex :: u64

record membershipCommand =
  cPhase :: bytes
  cOld :: "u64 list"
  cNew :: "u64 list"

definition membershipPrefix :: bytes where
  "membershipPrefix = 0 # asc ''lsmdb-member-'' @ [1]"

definition configJoint :: bytes where
  "configJoint = asc ''joint''"

definition configFinal :: bytes where
  "configFinal = asc ''final''"

definition voters_json :: "u64 list \<Rightarrow> json" where
  "voters_json vs = (if vs = [] then JNull else JArr (map (\<lambda>v. num (unat v)) vs))"

definition command_json :: "membershipCommand \<Rightarrow> json" where
  "command_json c =
     JObj ([(asc ''phase'', JStr (cPhase c))] @
           (if cOld c = [] then [] else [(asc ''old'', voters_json (cOld c))]) @
           [(asc ''new'', voters_json (cNew c))])"

definition command_field :: "membershipCommand \<Rightarrow> bytes \<times> json \<Rightarrow> membershipCommand option" where
  "command_field c m =
     (case m of (k, v) \<Rightarrow>
        if key_is ''phase'' k then map_option (\<lambda>x. c\<lparr>cPhase := x\<rparr>) (get_string (cPhase c) v)
        else if key_is ''old'' k then map_option (\<lambda>x. c\<lparr>cOld := x\<rparr>) (get_slice (get_uint64 0) v)
        else if key_is ''new'' k then map_option (\<lambda>x. c\<lparr>cNew := x\<rparr>) (get_slice (get_uint64 0) v)
        else Some c)"

fun command_fields :: "membershipCommand \<Rightarrow> (bytes \<times> json) list \<Rightarrow> membershipCommand option" where
  "command_fields c [] = Some c"
| "command_fields c (m # ms) = (case command_field c m of None \<Rightarrow> None | Some c \<Rightarrow> command_fields c ms)"

definition zero_command :: membershipCommand where
  "zero_command = \<lparr>cPhase = [], cOld = [], cNew = []\<rparr>"

definition command_Unmarshal :: "bytes \<Rightarrow> membershipCommand option" where
  "command_Unmarshal data =
     (case json_parse data of
        Some (JObj ms) \<Rightarrow> command_fields zero_command ms
      | Some JNull \<Rightarrow> Some zero_command
      | _ \<Rightarrow> None)"

definition encodeMembership :: "membershipCommand \<Rightarrow> bytes" where
  "encodeMembership c = membershipPrefix @ json_Marshal (command_json c)"

definition hasMembershipPrefix :: "bytes \<Rightarrow> bool" where
  "hasMembershipPrefix data \<longleftrightarrow> take (length membershipPrefix) data = membershipPrefix"

section \<open>Voter sets\<close>

text \<open>The loop of \<open>normalizeVoters\<close> over the sorted copy.\<close>

fun check_voters :: "u64 option \<Rightarrow> u64 list \<Rightarrow> unit result" where
  "check_voters prev [] = Inr ()"
| "check_voters prev (v # vs) =
     (if v = 0 then Inl (Err ''voter ID must be non-zero'')
      else if prev = Some v then Inl (Err ''duplicate voter'')
      else check_voters (Some v) vs)"

definition normalizeVoters :: "u64 list \<Rightarrow> u64 list result" where
  "normalizeVoters vs =
     (if vs = [] then Inl (Err ''voter set must not be empty'')
      else let r = sort vs in rbind (check_voters None r) (\<lambda>_. Inr r))"

definition equalVoters :: "u64 list \<Rightarrow> u64 list \<Rightarrow> bool" where
  "equalVoters a b \<longleftrightarrow> length a = length b \<and> list_all (\<lambda>i. a ! i = b ! i) [0..<length a]"

definition validateMembership :: "Membership \<Rightarrow> unit result" where
  "validateMembership m =
     rbind (normalizeVoters (Voters m)) (\<lambda>vs.
       if \<not> equalVoters vs (Voters m) then Inl (Err ''membership voters must be sorted'')
       else if JointVoters m \<noteq> []
       then rbind (normalizeVoters (JointVoters m)) (\<lambda>js.
              if \<not> equalVoters js (JointVoters m) then Inl (Err ''joint voters must be sorted'') else Inr ())
       else Inr ())"

text \<open>
  The three outcomes of \<open>decodeMembership\<close>: not a configuration entry, a valid command, or a
  configuration entry that is not valid.
\<close>

definition decodeMembership :: "bytes \<Rightarrow> membershipCommand option result" where
  "decodeMembership data =
     (if \<not> hasMembershipPrefix data then Inr None
      else case command_Unmarshal (drop (length membershipPrefix) data) of
             None \<Rightarrow> Inl (Err ''decode membership entry'')
           | Some c \<Rightarrow>
               if cPhase c \<noteq> configJoint \<and> cPhase c \<noteq> configFinal
               then Inl (Err ''invalid membership phase'')
               else rbind (normalizeVoters (cNew c)) (\<lambda>new.
                 let c = c\<lparr>cNew := new\<rparr>
                 in if cPhase c = configJoint
                    then rbind (normalizeVoters (cOld c)) (\<lambda>old. Inr (Some (c\<lparr>cOld := old\<rparr>)))
                    else Inr (Some c)))"

definition IsMembershipEntry :: "bytes \<Rightarrow> bool \<times> failure option" where
  "IsMembershipEntry data =
     (case decodeMembership data of
        Inl e \<Rightarrow> (True, Some e) | Inr None \<Rightarrow> (False, None) | Inr (Some _) \<Rightarrow> (True, None))"

definition containsVoter :: "u64 list \<Rightarrow> u64 \<Rightarrow> bool" where
  "containsVoter vs x =
     (let i = sort_Search (length vs) (\<lambda>i. vs ! i \<ge> x) in i < length vs \<and> vs ! i = x)"

definition majority :: "u64 list \<Rightarrow> nat" where
  "majority vs = length vs div 2 + 1"

definition unionVoters :: "Membership \<Rightarrow> u64 list" where
  "unionVoters m = sort (remdups (Voters m @ JointVoters m))"

definition hasSetQuorum :: "u64 list \<Rightarrow> (u64 \<Rightarrow> bool) \<Rightarrow> bool" where
  "hasSetQuorum vs acknowledged \<longleftrightarrow> foldl (\<lambda>c v. if acknowledged v then c + 1 else c) 0 vs \<ge> majority vs"

definition hasQuorum :: "Membership \<Rightarrow> (u64 \<Rightarrow> bool) \<Rightarrow> bool" where
  "hasQuorum m acknowledged \<longleftrightarrow>
     (if \<not> hasSetQuorum (Voters m) acknowledged then False
      else JointVoters m = [] \<or> hasSetQuorum (JointVoters m) acknowledged)"

definition voteLost :: "Membership \<Rightarrow> (u64 \<Rightarrow> bool) \<Rightarrow> bool" where
  "voteLost m rejected \<longleftrightarrow>
     (if hasSetQuorum (Voters m) rejected then True
      else JointVoters m \<noteq> [] \<and> hasSetQuorum (JointVoters m) rejected)"

definition applyMembership :: "Membership \<Rightarrow> membershipCommand \<Rightarrow> u64 \<Rightarrow> Membership result" where
  "applyMembership cur c index =
     (if cPhase c = configJoint
      then (if JointVoters cur \<noteq> [] \<or> \<not> equalVoters (Voters cur) (cOld c)
            then Inl (Err ''joint configuration does not match current voters'')
            else Inr \<lparr>Voters = cOld c, JointVoters = cNew c, mbIndex = index\<rparr>)
      else if cPhase c = configFinal
      then (if JointVoters cur = [] \<or> \<not> equalVoters (JointVoters cur) (cNew c)
            then Inl (Err ''final configuration has no matching joint configuration'')
            else Inr \<lparr>Voters = cNew c, JointVoters = [], mbIndex = index\<rparr>)
      else Inl (Err ''unknown membership phase''))"

section \<open>Voter sets are finite sets\<close>

text \<open>What \<open>normalizeVoters\<close> returns: a non-empty strictly ascending list without zero.\<close>

definition voters_ok :: "u64 list \<Rightarrow> bool" where
  "voters_ok vs \<longleftrightarrow> vs \<noteq> [] \<and> sorted_wrt (<) vs \<and> 0 \<notin> set vs"

definition membership_ok :: "Membership \<Rightarrow> bool" where
  "membership_ok m \<longleftrightarrow> voters_ok (Voters m) \<and> (JointVoters m = [] \<or> voters_ok (JointVoters m))"

lemma equalVoters_iff [simp]: "equalVoters a b \<longleftrightarrow> a = b"
  by (simp add: equalVoters_def list_all_iff list_eq_iff_nth_eq [of a b] Ball_def)

lemma check_voters_iff:
  "sorted vs \<Longrightarrow> \<forall>p. prev = Some p \<longrightarrow> (\<forall>v \<in> set vs. p \<le> v) \<Longrightarrow>
   check_voters prev vs = Inr () \<longleftrightarrow> 0 \<notin> set vs \<and> distinct vs \<and> (\<forall>p. prev = Some p \<longrightarrow> p \<notin> set vs)"
proof (induction prev vs rule: check_voters.induct)
  case (2 prev v vs)
  have "check_voters (Some v) vs = Inr () \<longleftrightarrow> 0 \<notin> set vs \<and> distinct vs \<and> v \<notin> set vs"
    if "v \<noteq> 0" "prev \<noteq> Some v"
    using 2 that by auto
  moreover have "p \<notin> set vs" if "prev = Some p" "p \<noteq> v" for p
    using 2(2,3) that by fastforce
  ultimately show ?case by auto
qed simp

lemma normalizeVoters_iff:
  "normalizeVoters vs = Inr r \<longleftrightarrow> r = sort vs \<and> vs \<noteq> [] \<and> distinct vs \<and> 0 \<notin> set vs"
  using check_voters_iff [of "sort vs" None]
  by (cases "check_voters None (sort vs)") (auto simp: normalizeVoters_def Let_def)

lemma sort_eq_Nil [simp]: "sort xs = [] \<longleftrightarrow> xs = []"
  by (metis length_0_conv length_sort)

lemma normalizeVoters_ok: "normalizeVoters vs = Inr r \<Longrightarrow> voters_ok r \<and> set r = set vs"
  by (auto simp: normalizeVoters_iff voters_ok_def strict_sorted_iff)

lemma voters_ok_distinct: "voters_ok vs \<Longrightarrow> distinct vs \<and> sorted vs"
  by (simp add: voters_ok_def strict_sorted_iff)

lemma normalizeVoters_id: "voters_ok vs \<Longrightarrow> normalizeVoters vs = Inr vs"
  by (simp add: normalizeVoters_iff voters_ok_def strict_sorted_iff sorted_sort_id)

lemma normalizeVoters_fixed: "normalizeVoters vs = Inr vs \<longleftrightarrow> voters_ok vs"
  using normalizeVoters_id normalizeVoters_ok by blast

lemma validateMembership_iff: "validateMembership m = Inr () \<longleftrightarrow> membership_ok m"
proof -
  have *: "(\<exists>r. normalizeVoters vs = Inr r \<and> r = vs) \<longleftrightarrow> voters_ok vs" for vs
    using normalizeVoters_fixed by auto
  show ?thesis
    unfolding validateMembership_def membership_ok_def rbind_Inr_iff
    using * [of "Voters m"] * [of "JointVoters m"] by (auto simp: rbind_Inr_iff split: if_splits)
qed

lemma containsVoter_iff:
  assumes "sorted vs"
  shows "containsVoter vs x \<longleftrightarrow> x \<in> set vs"
proof -
  let ?f = "\<lambda>i. vs ! i \<ge> x"
  have mono: "monotone_below (length vs) ?f"
    unfolding monotone_below_def using assms sorted_nth_mono order_trans by blast
  note spec = sort_Search_spec [OF mono]
  have "vs ! sort_Search (length vs) ?f = x \<and> sort_Search (length vs) ?f < length vs" if "x \<in> set vs"
  proof -
    from that obtain j where j: "j < length vs" "vs ! j = x" by (auto simp: in_set_conv_nth)
    then have le: "sort_Search (length vs) ?f \<le> j" using spec(2) [of j] by (meson leI order_refl)
    then have "x \<le> vs ! sort_Search (length vs) ?f" using spec(3) [of "sort_Search (length vs) ?f"] j by simp
    moreover have "vs ! sort_Search (length vs) ?f \<le> x" using sorted_nth_mono [OF assms le] j by simp
    ultimately show ?thesis using le j by simp
  qed
  then show ?thesis by (auto simp: containsVoter_def Let_def in_set_conv_nth)
qed

lemma set_unionVoters [simp]: "set (unionVoters m) = set (Voters m) \<union> set (JointVoters m)"
  by (simp add: unionVoters_def)

lemma sorted_unionVoters [simp]: "sorted (unionVoters m)" "distinct (unionVoters m)"
  by (simp_all add: unionVoters_def)

lemma unionVoters_ok: "membership_ok m \<Longrightarrow> voters_ok (unionVoters m)"
  by (auto simp: voters_ok_def membership_ok_def strict_sorted_iff unionVoters_def)

section \<open>Quorums\<close>

lemma hasSetQuorum_iff: "hasSetQuorum vs P \<longleftrightarrow> length vs < 2 * length (filter P vs)"
proof -
  have "foldl (\<lambda>c v. if P v then c + 1 else c) n vs = n + length (filter P vs)" for n
    by (induction vs arbitrary: n) auto
  then show ?thesis by (auto simp: hasSetQuorum_def majority_def)
qed

lemma hasSetQuorum_mono: "hasSetQuorum vs P \<Longrightarrow> \<forall>v \<in> set vs. P v \<longrightarrow> Q v \<Longrightarrow> hasSetQuorum vs Q"
proof -
  assume "hasSetQuorum vs P" "\<forall>v \<in> set vs. P v \<longrightarrow> Q v"
  moreover from this(2) have "length (filter P vs) \<le> length (filter Q vs)" by (induction vs) auto
  ultimately show ?thesis by (simp add: hasSetQuorum_iff)
qed

lemma hasSetQuorum_meet:
  assumes "hasSetQuorum vs P" "hasSetQuorum vs Q"
  shows "\<exists>v \<in> set vs. P v \<and> Q v"
proof (rule ccontr)
  assume "\<not> ?thesis"
  then have "length (filter P vs) + length (filter Q vs) \<le> length vs" by (induction vs) auto
  with assms show False by (simp add: hasSetQuorum_iff)
qed

text \<open>
  What the consensus core asks of its quorums: acknowledgements of more nodes keep a quorum, any two
  quorums share a voter, and a lost vote excludes a quorum. The client's lemmas are about ballots.
\<close>

locale quorum_system =
  fixes valid :: "'c \<Rightarrow> bool" and members :: "'c \<Rightarrow> 'a set"
    and quorum lost :: "'c \<Rightarrow> ('a \<Rightarrow> bool) \<Rightarrow> bool"
  assumes quorum_mono: "quorum c P \<Longrightarrow> (\<And>x. x \<in> members c \<Longrightarrow> P x \<Longrightarrow> Q x) \<Longrightarrow> quorum c Q"
    and quorum_meet: "quorum c P \<Longrightarrow> quorum c Q \<Longrightarrow> \<exists>x \<in> members c. P x \<and> Q x"
    and lost_meet: "quorum c P \<Longrightarrow> lost c Q \<Longrightarrow> \<exists>x \<in> members c. P x \<and> Q x"
    and quorum_all: "valid c \<Longrightarrow> (\<And>x. x \<in> members c \<Longrightarrow> P x) \<Longrightarrow> quorum c P"
begin

text \<open>Nodes that vote once elect at most one candidate.\<close>

lemma one_winner: "quorum c (\<lambda>x. vote x = Some a) \<Longrightarrow> quorum c (\<lambda>x. vote x = Some b) \<Longrightarrow> a = b"
  using quorum_meet [of c "\<lambda>x. vote x = Some a" "\<lambda>x. vote x = Some b"] by auto

text \<open>A candidate that has lost cannot win any more, however the remaining voters decide.\<close>

lemma lost_stays_lost:
  "lost c (\<lambda>x. votes x = Some False) \<Longrightarrow> (\<And>x. votes x \<noteq> None \<Longrightarrow> votes' x = votes x) \<Longrightarrow>
   \<not> quorum c (\<lambda>x. votes' x = Some True)"
  using lost_meet [of c "\<lambda>x. votes' x = Some True" "\<lambda>x. votes x = Some False"] by force

lemma quorum_nonempty: "quorum c P \<Longrightarrow> \<exists>x \<in> members c. P x"
  using quorum_meet [of c P P] by blast

end

lemma hasQuorum_iff:
  "hasQuorum m P \<longleftrightarrow> hasSetQuorum (Voters m) P \<and> (JointVoters m = [] \<or> hasSetQuorum (JointVoters m) P)"
  by (simp add: hasQuorum_def)

lemma voteLost_iff:
  "voteLost m P \<longleftrightarrow> hasSetQuorum (Voters m) P \<or> JointVoters m \<noteq> [] \<and> hasSetQuorum (JointVoters m) P"
  by (simp add: voteLost_def)

interpretation mq: quorum_system membership_ok "\<lambda>m. set (unionVoters m)" hasQuorum voteLost
proof unfold_locales
  show "hasQuorum m Q" if "hasQuorum m P" "\<And>x. x \<in> set (unionVoters m) \<Longrightarrow> P x \<Longrightarrow> Q x" for m P Q
    using that hasSetQuorum_mono unfolding hasQuorum_iff set_unionVoters by blast
  show "\<exists>x \<in> set (unionVoters m). P x \<and> Q x" if "hasQuorum m P" "hasQuorum m Q" for m P Q
    using that hasSetQuorum_meet unfolding hasQuorum_iff set_unionVoters by blast
  show "\<exists>x \<in> set (unionVoters m). P x \<and> Q x" if "hasQuorum m P" "voteLost m Q" for m P Q
    using that hasSetQuorum_meet unfolding hasQuorum_iff voteLost_iff set_unionVoters by blast
  show "hasQuorum m P" if "membership_ok m" "\<And>x. x \<in> set (unionVoters m) \<Longrightarrow> P x" for m P
  proof -
    have "filter P (Voters m) = Voters m" "filter P (JointVoters m) = JointVoters m"
      using that(2) by (auto intro: filter_True)
    with that(1) show ?thesis
      by (simp add: hasQuorum_iff hasSetQuorum_iff membership_ok_def voters_ok_def)
  qed
qed

text \<open>
  The two steps of a change: every quorum of the joint configuration contains a quorum of the voters it
  leaves and one of the voters it moves to.
\<close>

lemma joint_quorum_covers:
  assumes "JointVoters m \<noteq> []" "hasQuorum m P"
  shows "hasQuorum \<lparr>Voters = Voters m, JointVoters = [], mbIndex = i\<rparr> P"
    "hasQuorum \<lparr>Voters = JointVoters m, JointVoters = [], mbIndex = j\<rparr> P"
  using assms by (simp_all add: hasQuorum_iff)

section \<open>Configuration entries\<close>

lemma command_keys [simp]:
  "key_is ''phase'' (asc ''phase'')" "key_is ''old'' (asc ''old'')" "key_is ''new'' (asc ''new'')"
  "\<not> key_is ''phase'' (asc ''old'')" "\<not> key_is ''phase'' (asc ''new'')" "\<not> key_is ''old'' (asc ''new'')"
  by code_simp+

lemma command_decode_encode:
  assumes "ascii (cPhase c)"
  shows "command_Unmarshal (json_Marshal (command_json c)) = Some c"
proof -
  have "ascii (asc ''phase'')" "ascii (asc ''old'')" "ascii (asc ''new'')"
    unfolding ascii_def by code_simp+
  then have "json_ok (command_json c)"
    using assms by (auto simp: command_json_def voters_json_def num_def)
  then have "json_parse (json_Marshal (command_json c)) = Some (command_json c)" by (rule json_parse_Marshal)
  moreover have "command_fields zero_command (case command_json c of JObj ms \<Rightarrow> ms) = Some c"
    by (simp add: command_json_def voters_json_def command_field_def zero_command_def get_slice_def get_string_def comp_def)
  ultimately show ?thesis by (simp add: command_Unmarshal_def command_json_def)
qed

lemma hasMembershipPrefix_encode [simp]: "hasMembershipPrefix (encodeMembership c)"
  by (simp add: hasMembershipPrefix_def encodeMembership_def)

lemma ascii_phases [simp]: "ascii configJoint" "ascii configFinal" "configJoint \<noteq> configFinal" "configFinal \<noteq> configJoint"
  unfolding configJoint_def configFinal_def ascii_def by code_simp+

definition command_ok :: "membershipCommand \<Rightarrow> bool" where
  "command_ok c \<longleftrightarrow> voters_ok (cNew c) \<and>
     (cPhase c = configJoint \<and> voters_ok (cOld c) \<or> cPhase c = configFinal)"

lemma decode_encode:
  assumes "command_ok c"
  shows "decodeMembership (encodeMembership c) = Inr (Some c)"
proof -
  have "ascii (cPhase c)" using assms by (auto simp: command_ok_def)
  note dec = command_decode_encode [OF this]
  have "drop (length membershipPrefix) (encodeMembership c) = json_Marshal (command_json c)"
    by (simp add: encodeMembership_def)
  then show ?thesis
    using assms dec by (auto simp: decodeMembership_def command_ok_def normalizeVoters_id)
qed

lemma decode_ok:
  assumes "decodeMembership data = Inr (Some c)"
  shows "command_ok c"
proof -
  have pre: "hasMembershipPrefix data" using assms by (auto simp: decodeMembership_def split: if_splits)
  then obtain x where x0: "command_Unmarshal (drop (length membershipPrefix) data) = Some x"
    using assms by (auto simp: decodeMembership_def split: option.splits)
  with assms pre have ph: "cPhase x = configJoint \<or> cPhase x = configFinal"
    by (auto simp: decodeMembership_def split: if_splits)
  have "decodeMembership data = rbind (normalizeVoters (cNew x)) (\<lambda>new. if cPhase x = configJoint
        then rbind (normalizeVoters (cOld x)) (\<lambda>old. Inr (Some (x\<lparr>cNew := new, cOld := old\<rparr>)))
        else Inr (Some (x\<lparr>cNew := new\<rparr>)))"
    using pre x0 ph by (auto simp: decodeMembership_def Let_def cong: if_cong)
  from iffD1 [OF rbind_Inr_iff this [symmetric, unfolded assms]] obtain new where x: "normalizeVoters (cNew x) = Inr new"
    and c: "(if cPhase x = configJoint
        then rbind (normalizeVoters (cOld x)) (\<lambda>old. Inr (Some (x\<lparr>cNew := new, cOld := old\<rparr>)))
        else Inr (Some (x\<lparr>cNew := new\<rparr>))) = Inr (Some c)"
    by blast
  show ?thesis
  proof (cases "cPhase x = configJoint")
    case True
    with c obtain old where "normalizeVoters (cOld x) = Inr old" "x\<lparr>cNew := new, cOld := old\<rparr> = c"
      by (auto simp: rbind_Inr_iff)
    with True normalizeVoters_ok [OF x] normalizeVoters_ok [of "cOld x"] show ?thesis by (fastforce simp: command_ok_def)
  next
    case False
    with c ph normalizeVoters_ok [OF x] show ?thesis by (fastforce simp: command_ok_def)
  qed
qed

lemma applyMembership_ok:
  assumes "applyMembership cur c i = Inr m" "membership_ok cur" "command_ok c"
  shows "membership_ok m" "mbIndex m = i"
  using assms by (auto simp: applyMembership_def membership_ok_def command_ok_def split: if_splits)

end
