(* ===== verification/Raft.thy ===== *)
theory Raft
  imports Membership
begin

text \<open>
  The deterministic consensus state machine (\<open>internal/raft/types.go\<close>, \<open>internal/raft/node.go\<close>). A node is a
  record; every method is a function from the node to the node and what the method returns. The outer
  result is \<open>Inl Panic\<close> where the Go code would panic: an index outside a slice, a write to a nil map,
  an empty timeout span, a negative capacity, and the explicit panic of \<open>maybeCommit\<close>. Methods that
  return an error carry it in an inner result, with the node as the method leaves it. Slices are
  copied wherever the code shares them between nodes, so values replace pointers.
\<close>

section \<open>Types\<close>

datatype Role = Follower | PreCandidate | Candidate | Leader

datatype MessageType =
  MsgPreVote | MsgPreVoteResponse | MsgVote | MsgVoteResponse
| MsgAppend | MsgAppendResponse | MsgSnapshot | MsgSnapshotResponse

datatype MessageOrigin =
  OriginOther | OriginHeartbeat | OriginProposal | OriginCommitAdvance | OriginAckResend

fun role_String :: "Role \<Rightarrow> string" where
  "role_String Follower = ''follower''"
| "role_String PreCandidate = ''pre-candidate''"
| "role_String Candidate = ''candidate''"
| "role_String Leader = ''leader''"

fun origin_String :: "MessageOrigin \<Rightarrow> string" where
  "origin_String OriginHeartbeat = ''heartbeat''"
| "origin_String OriginProposal = ''proposal''"
| "origin_String OriginCommitAdvance = ''commit_advance''"
| "origin_String OriginAckResend = ''ack_resend''"
| "origin_String OriginOther = ''other''"

record Entry =
  eIndex :: u64
  eTerm :: u64
  eData :: bytes

record HardState =
  hTerm :: u64
  hVotedFor :: u64

record Snapshot =
  sIndex :: u64
  sTerm :: u64
  sData :: bytes
  sMembership :: Membership

record Message =
  msgType :: MessageType
  msgFrom :: u64
  msgTo :: u64
  msgTerm :: u64
  msgLogIndex :: u64
  msgLogTerm :: u64
  msgEntries :: "Entry list"
  msgLeaderCommit :: u64
  msgReject :: bool
  msgRejectHint :: u64
  msgContext :: u64
  msgSnapshot :: "Snapshot option"
  msgOrigin :: MessageOrigin

record Update =
  uHard :: "HardState option"
  uTruncateFrom :: u64
  uEntries :: "Entry list"
  uMessages :: "Message list"
  uCommitted :: "Entry list"
  uRoleChanged :: bool
  uSnapshot :: "Snapshot option"
  uDropped :: string

definition zero_membership :: Membership where
  "zero_membership = \<lparr>Voters = [], JointVoters = [], mbIndex = 0\<rparr>"

definition zero_snapshot :: Snapshot where
  "zero_snapshot = \<lparr>sIndex = 0, sTerm = 0, sData = [], sMembership = zero_membership\<rparr>"

text \<open>The message with only type and addressing set.\<close>

definition message :: "MessageType \<Rightarrow> u64 \<Rightarrow> u64 \<Rightarrow> u64 \<Rightarrow> Message" where
  "message t from to term = \<lparr>msgType = t, msgFrom = from, msgTo = to, msgTerm = term, msgLogIndex = 0,
     msgLogTerm = 0, msgEntries = [], msgLeaderCommit = 0, msgReject = False, msgRejectHint = 0,
     msgContext = 0, msgSnapshot = None, msgOrigin = OriginOther\<rparr>"

definition no_update :: Update where
  "no_update = \<lparr>uHard = None, uTruncateFrom = 0, uEntries = [], uMessages = [], uCommitted = [],
     uRoleChanged = False, uSnapshot = None, uDropped = ''''\<rparr>"

definition merge :: "Update \<Rightarrow> Update \<Rightarrow> Update" where
  "merge u v =
     \<lparr>uHard = (case uHard v of None \<Rightarrow> uHard u | Some h \<Rightarrow> Some h),
      uTruncateFrom = (if uTruncateFrom v \<noteq> 0 then uTruncateFrom v else uTruncateFrom u),
      uEntries = uEntries u @ uEntries v,
      uMessages = uMessages u @ uMessages v,
      uCommitted = uCommitted u @ uCommitted v,
      uRoleChanged = (uRoleChanged u \<or> uRoleChanged v),
      uSnapshot = (case uSnapshot v of None \<Rightarrow> uSnapshot u | Some s \<Rightarrow> Some s),
      uDropped = (if uDropped v \<noteq> '''' then uDropped v else uDropped u)\<rparr>"

definition add_messages :: "Update \<Rightarrow> Message list \<Rightarrow> Update" where
  "add_messages u ms = u\<lparr>uMessages := uMessages u @ ms\<rparr>"

record Config =
  cfgID :: u64
  cfgPeers :: "u64 list"
  cfgElectionTickMin :: int
  cfgElectionTickMax :: int
  cfgHeartbeatTicks :: int
  cfgCheckQuorumTicks :: int
  cfgRandomSeed :: u64
  cfgAppliedIndex :: u64
  cfgMaxAppendBytes :: u64
  cfgInflightResendTicks :: int

fun check_peers :: "u64 list \<Rightarrow> u64 list \<Rightarrow> unit result" where
  "check_peers seen [] = Inr ()"
| "check_peers seen (p # ps) =
     (if p = 0 then Inl (Err ''raft peer ID must be non-zero'')
      else if p \<in> set seen then Inl (Err ''duplicate raft peer'')
      else check_peers (p # seen) ps)"

definition config_validate :: "Config \<Rightarrow> unit result" where
  "config_validate c =
     (if cfgID c = 0 then Inl (Err ''raft ID must be non-zero'')
      else if cfgPeers c = [] then Inl (Err ''raft peers must not be empty'')
      else rbind (check_peers [] (cfgPeers c)) (\<lambda>_.
        if cfgElectionTickMin c \<le> 0 \<or> cfgElectionTickMax c \<le> cfgElectionTickMin c
        then Inl (Err ''invalid election tick range'')
        else if cfgHeartbeatTicks c \<le> 0 \<or> cfgHeartbeatTicks c \<ge> cfgElectionTickMin c
        then Inl (Err ''heartbeat ticks must be positive and below election minimum'')
        else if cfgCheckQuorumTicks c \<le> 0 \<or> cfgCheckQuorumTicks c > cfgElectionTickMin c
        then Inl (Err ''check quorum ticks must be positive and at most election minimum'')
        else Inr ()))"

definition MaxEntryBytes :: nat where
  "MaxEntryBytes = 4 * 2 ^ 20 + 32 * 2 ^ 10"

definition EntryOverheadBytes :: nat where
  "EntryOverheadBytes = 32"

definition defaultMaxAppendBytes :: nat where
  "defaultMaxAppendBytes = 2 ^ 20"

definition defaultInflightResendTicks :: int where
  "defaultInflightResendTicks = 5"

definition ErrNotLeader :: failure where
  "ErrNotLeader = Err ''raft node is not leader''"

definition ErrReadNotReady :: failure where
  "ErrReadNotReady = Err ''raft leader is not ready for linearizable reads''"

definition ErrMembershipChangeInProgress :: failure where
  "ErrMembershipChangeInProgress = Err ''raft membership change is already in progress''"

definition ErrEntryTooLarge :: failure where
  "ErrEntryTooLarge = Err ''raft entry data exceeds 4227072 bytes''"

text \<open>Maps of the node; \<open>nOut\<close> and \<open>nOutAge\<close> are nil until the node first becomes leader.\<close>

record Node =
  nCfg :: Config
  nRole :: Role
  nTerm :: u64
  nVotedFor :: u64
  nLeader :: u64
  nSnap :: Snapshot
  nLog :: "Entry list"
  nCommit :: u64
  nInitial :: Membership
  nMembership :: Membership
  nElectionElapsed :: int
  nElectionTimeout :: int
  nHeartbeatElapsed :: int
  nQuorumElapsed :: int
  nRandom :: u64
  nVotes :: "u64 \<rightharpoonup> bool"
  nNext :: "u64 \<rightharpoonup> u64"
  nMatch :: "u64 \<rightharpoonup> u64"
  nActive :: "u64 \<rightharpoonup> bool"
  nOut :: "(u64 \<rightharpoonup> u64) option"
  nOutAge :: "(u64 \<rightharpoonup> int) option"
  nMalformed :: u64
  nIgnored :: u64

type_synonym 'a step = "(Node \<times> 'a) result"

section \<open>Log access\<close>

abbreviation nID :: "Node \<Rightarrow> u64" where
  "nID n \<equiv> cfgID (nCfg n)"

definition lastIndex :: "Node \<Rightarrow> u64" where
  "lastIndex n = sIndex (nSnap n) + word_of_nat (length (nLog n))"

definition termAt :: "Node \<Rightarrow> u64 \<Rightarrow> u64" where
  "termAt n index =
     (if index = 0 then 0
      else if index = sIndex (nSnap n) then sTerm (nSnap n)
      else if index \<le> sIndex (nSnap n) \<or> index > lastIndex n then 0
      else eTerm (nLog n ! unat (index - sIndex (nSnap n) - 1)))"

definition slice :: "'a list \<Rightarrow> u64 \<Rightarrow> u64 \<Rightarrow> 'a list result" where
  "slice xs i j =
     (if unat i \<le> unat j \<and> unat j \<le> length xs then Inr (drop (unat i) (take (unat j) xs)) else Inl Panic)"

definition entriesBetween :: "Node \<Rightarrow> u64 \<Rightarrow> u64 \<Rightarrow> Entry list result" where
  "entriesBetween n from to =
     (if from \<ge> to \<or> from \<le> sIndex (nSnap n) \<or> from > lastIndex n then Inr []
      else let to = min to (lastIndex n + 1)
           in slice (nLog n) (from - sIndex (nSnap n) - 1) (to - sIndex (nSnap n) - 1))"

definition raft_Entries :: "Node \<Rightarrow> Entry list" where
  "raft_Entries n = nLog n"

definition isUpToDate :: "Node \<Rightarrow> u64 \<Rightarrow> u64 \<Rightarrow> bool" where
  "isUpToDate n index term =
     (let localTerm = termAt n (lastIndex n)
      in term > localTerm \<or> term = localTerm \<and> index \<ge> lastIndex n)"

definition hardState :: "Node \<Rightarrow> HardState" where
  "hardState n = \<lparr>hTerm = nTerm n, hVotedFor = nVotedFor n\<rparr>"

section \<open>Configuration of the log\<close>

definition base_membership :: "Node \<Rightarrow> Membership" where
  "base_membership n =
     (if sIndex (nSnap n) > 0 \<and> Voters (sMembership (nSnap n)) \<noteq> [] then sMembership (nSnap n) else nInitial n)"

fun fold_membership :: "Membership \<Rightarrow> Entry list \<Rightarrow> Membership result" where
  "fold_membership m [] = Inr m"
| "fold_membership m (e # es) =
     (case decodeMembership (eData e) of
        Inl x \<Rightarrow> Inl x
      | Inr None \<Rightarrow> fold_membership m es
      | Inr (Some c) \<Rightarrow> rbind (applyMembership m c (eIndex e)) (\<lambda>m. fold_membership m es))"

definition rebuildMembership :: "Node \<Rightarrow> Node result" where
  "rebuildMembership n =
     rbind (fold_membership (base_membership n) (nLog n)) (\<lambda>m. Inr (n\<lparr>nMembership := m\<rparr>))"

definition membershipAt :: "Node \<Rightarrow> u64 \<Rightarrow> Membership result" where
  "membershipAt n index =
     fold_membership (base_membership n) (takeWhile (\<lambda>e. eIndex e \<le> index) (nLog n))"

definition peers :: "Node \<Rightarrow> u64 list" where
  "peers n = unionVoters (nMembership n)"

definition isVoter :: "Node \<Rightarrow> u64 \<Rightarrow> bool" where
  "isVoter n x = containsVoter (peers n) x"

definition replicationPeers :: "Node \<Rightarrow> u64 list" where
  "replicationPeers n =
     (if JointVoters (nMembership n) = [] \<and> mbIndex (nMembership n) > nCommit n
      then (case membershipAt n (mbIndex (nMembership n) - 1) of
              Inr prior \<Rightarrow> if JointVoters prior \<noteq> [] then unionVoters prior else peers n
            | Inl _ \<Rightarrow> peers n)
      else peers n)"

definition isCommunicationPeer :: "Node \<Rightarrow> u64 \<Rightarrow> bool" where
  "isCommunicationPeer n x = containsVoter (replicationPeers n) x"

definition raft_HasQuorum :: "Node \<Rightarrow> u64 set \<Rightarrow> bool" where
  "raft_HasQuorum n ids = hasQuorum (nMembership n) (\<lambda>x. x \<in> ids)"

definition compactLog :: "Node \<Rightarrow> Snapshot \<Rightarrow> Node result" where
  "compactLog n s =
     rbind (if sIndex s < lastIndex n \<and> termAt n (sIndex s) = sTerm s
            then entriesBetween n (sIndex s + 1) (lastIndex n + 1) else Inr []) (\<lambda>suffix.
       Inr (n\<lparr>nSnap := s, nLog := suffix\<rparr>))"

section \<open>Timers and roles\<close>

definition lcg :: "u64 \<Rightarrow> u64" where
  "lcg x = x * 6364136223846793005 + 1442695040888963407"

definition resetElectionTimer :: "Node \<Rightarrow> Node result" where
  "resetElectionTimer n =
     (let random = lcg (nRandom n);
          span = word_of_int (cfgElectionTickMax (nCfg n) - cfgElectionTickMin (nCfg n)) :: u64
      in if span = 0 then Inl Panic
         else Inr (n\<lparr>nElectionElapsed := 0, nRandom := random,
                     nElectionTimeout := cfgElectionTickMin (nCfg n) + sint (random mod span)\<rparr>))"

definition becomeFollower :: "Node \<Rightarrow> u64 \<Rightarrow> u64 \<Rightarrow> Update step" where
  "becomeFollower n term leader =
     (let changed = (nRole n \<noteq> Follower \<or> nTerm n \<noteq> term);
          hardChanged = (term \<noteq> nTerm n \<or> term > nTerm n \<and> nVotedFor n \<noteq> 0);
          n = (if term > nTerm n then n\<lparr>nTerm := term, nVotedFor := 0\<rparr> else n)
      in rbind (resetElectionTimer (n\<lparr>nRole := Follower, nLeader := leader, nVotes := Map.empty\<rparr>)) (\<lambda>n.
           Inr (n, no_update\<lparr>uRoleChanged := changed,
                     uHard := (if hardChanged then Some (hardState n) else None)\<rparr>)))"

text \<open>An update merged behind another one.\<close>

definition then_merge :: "Update \<Rightarrow> Update step \<Rightarrow> Update step" where
  "then_merge u r = rbind r (\<lambda>(n, v). Inr (n, merge u v))"

definition inLease :: "Node \<Rightarrow> bool" where
  "inLease n \<longleftrightarrow> nRole n = Leader \<or>
     nLeader n \<noteq> 0 \<and> nElectionElapsed n < cfgElectionTickMin (nCfg n)"

section \<open>Replication\<close>

definition mget :: "(u64 \<rightharpoonup> u64) \<Rightarrow> u64 \<Rightarrow> u64" where
  "mget m k = (case m k of None \<Rightarrow> 0 | Some v \<Rightarrow> v)"

definition outstanding :: "Node \<Rightarrow> u64 \<Rightarrow> u64" where
  "outstanding n p = (case nOut n of None \<Rightarrow> 0 | Some m \<Rightarrow> mget m p)"

definition set_outstanding :: "Node \<Rightarrow> u64 \<Rightarrow> u64 \<Rightarrow> Node result" where
  "set_outstanding n p i = (case nOut n of None \<Rightarrow> Inl Panic | Some m \<Rightarrow> Inr (n\<lparr>nOut := Some (m(p \<mapsto> i))\<rparr>))"

definition outstandingAge :: "Node \<Rightarrow> u64 \<Rightarrow> int" where
  "outstandingAge n p = (case nOutAge n of None \<Rightarrow> 0 | Some m \<Rightarrow> (case m p of None \<Rightarrow> 0 | Some a \<Rightarrow> a))"

definition set_age :: "Node \<Rightarrow> u64 \<Rightarrow> int \<Rightarrow> Node result" where
  "set_age n p a = (case nOutAge n of None \<Rightarrow> Inl Panic | Some m \<Rightarrow> Inr (n\<lparr>nOutAge := Some (m(p \<mapsto> a))\<rparr>))"

text \<open>
  The loop of \<open>cappedEntries\<close> over the entries from \<open>from\<close> on: how many fit; the first one always does.
\<close>

fun capped_count :: "u64 \<Rightarrow> u64 \<Rightarrow> bool \<Rightarrow> Entry list \<Rightarrow> nat" where
  "capped_count limit sz first [] = 0"
| "capped_count limit sz first (e # es) =
     (let entrySize = word_of_nat (length (eData e)) + word_of_nat EntryOverheadBytes
      in if \<not> first \<and> sz + entrySize > limit then 0
         else 1 + capped_count limit (sz + entrySize) False es)"

definition cappedEntries :: "Node \<Rightarrow> u64 \<Rightarrow> Entry list result" where
  "cappedEntries n from =
     (if from \<le> sIndex (nSnap n) \<or> from > lastIndex n then Inr []
      else let limit = (if cfgMaxAppendBytes (nCfg n) = 0 then word_of_nat defaultMaxAppendBytes
                        else cfgMaxAppendBytes (nCfg n));
               k = capped_count limit 0 True (drop (unat (from - sIndex (nSnap n) - 1)) (nLog n))
           in entriesBetween n from (from + word_of_nat k))"

definition appendMessage :: "Node \<Rightarrow> u64 \<Rightarrow> u64 \<Rightarrow> MessageOrigin \<Rightarrow> Message step" where
  "appendMessage n peer context origin =
     (let next = (if mget (nNext n) peer = 0 then lastIndex n + 1 else mget (nNext n) peer)
      in if next \<le> sIndex (nSnap n)
         then Inr (n, (message MsgSnapshot (nID n) peer (nTerm n))\<lparr>msgSnapshot := Some (nSnap n), msgOrigin := origin\<rparr>)
         else
           let m = (message MsgAppend (nID n) peer (nTerm n))\<lparr>msgLogIndex := next - 1,
                 msgLogTerm := termAt n (next - 1), msgLeaderCommit := nCommit n, msgContext := context,
                 msgOrigin := origin\<rparr>
           in if outstanding n peer \<noteq> 0 then Inr (n, m)
              else rbind (cappedEntries n next) (\<lambda>es.
                if es = [] then Inr (n, m)
                else rbind (set_outstanding n peer (eIndex (last es))) (\<lambda>n.
                     rbind (set_age n peer 0) (\<lambda>n. Inr (n, m\<lparr>msgEntries := es\<rparr>)))))"

fun append_messages :: "Node \<Rightarrow> u64 list \<Rightarrow> u64 \<Rightarrow> MessageOrigin \<Rightarrow> Message list step" where
  "append_messages n [] context origin = Inr (n, [])"
| "append_messages n (p # ps) context origin =
     rbind (appendMessage n p context origin) (\<lambda>(n, m).
       rbind (append_messages n ps context origin) (\<lambda>(n, ms). Inr (n, m # ms)))"

text \<open>
  The skip of \<open>broadcastAppend\<close> reads the outstanding append of one peer, which the messages to the
  other peers do not change, so the peers to send to are known before the loop.
\<close>

definition broadcastAppend :: "Node \<Rightarrow> MessageOrigin \<Rightarrow> Message list step" where
  "broadcastAppend n origin =
     (let ps = replicationPeers n
      in if ps = [] then Inl Panic
         else append_messages n
           (filter (\<lambda>p. p \<noteq> nID n \<and> \<not> (origin = OriginProposal \<and> outstanding n p \<noteq> 0)) ps) 0 origin)"

definition settleOutstanding :: "Node \<Rightarrow> u64 \<Rightarrow> Node result" where
  "settleOutstanding n peer =
     (if outstanding n peer \<noteq> 0 \<and> mget (nMatch n) peer \<ge> outstanding n peer
      then set_outstanding n peer 0 else Inr n)"

fun expire_loop :: "int \<Rightarrow> Node \<Rightarrow> u64 list \<Rightarrow> u64 list step" where
  "expire_loop limit n [] = Inr (n, [])"
| "expire_loop limit n (p # ps) =
     (if outstanding n p = 0 then expire_loop limit n ps
      else rbind (set_age n p (outstandingAge n p + 1)) (\<lambda>n.
        if outstandingAge n p \<ge> limit
        then rbind (set_outstanding n p 0) (\<lambda>n.
               rbind (expire_loop limit n ps) (\<lambda>(n, ex). Inr (n, p # ex)))
        else expire_loop limit n ps))"

definition expireOutstanding :: "Node \<Rightarrow> u64 list step" where
  "expireOutstanding n =
     (let limit = (if cfgInflightResendTicks (nCfg n) = 0 then defaultInflightResendTicks
                   else cfgInflightResendTicks (nCfg n))
      in expire_loop limit n (replicationPeers n))"

text \<open>The search of \<open>maybeCommit\<close>: downwards from the last index to the commit index.\<close>

function commit_candidate :: "Node \<Rightarrow> u64 \<Rightarrow> u64" where
  "commit_candidate n candidate =
     (if candidate > nCommit n
      then if termAt n candidate = nTerm n \<and>
              hasQuorum (nMembership n) (\<lambda>x. mget (nMatch n) x \<ge> candidate)
           then candidate else commit_candidate n (candidate - 1)
      else candidate)"
  by pat_completeness auto
termination
  by (relation "measure (\<lambda>(n, c). unat c)") (auto simp: word_less_nat_alt unat_sub_u64 word_le_nat_alt)

declare commit_candidate.simps [simp del]

definition final_entry :: "Node \<Rightarrow> Entry" where
  "final_entry n = \<lparr>eIndex = lastIndex n + 1, eTerm = nTerm n,
     eData = encodeMembership \<lparr>cPhase = configFinal, cOld = [], cNew = JointVoters (nMembership n)\<rparr>\<rparr>"

definition append_final :: "Node \<Rightarrow> Entry list step" where
  "append_final n =
     (if JointVoters (nMembership n) \<noteq> [] \<and> mbIndex (nMembership n) \<le> nCommit n
      then let final = final_entry n
           in case rebuildMembership (n\<lparr>nLog := nLog n @ [final]\<rparr>) of
                Inl _ \<Rightarrow> Inl Panic
              | Inr n \<Rightarrow> Inr (n\<lparr>nMatch := (nMatch n)(nID n \<mapsto> eIndex final),
                                nNext := (nNext n)(nID n \<mapsto> eIndex final + 1)\<rparr>, [final])
      else Inr (n, []))"

definition maybeCommit :: "Node \<Rightarrow> Update step" where
  "maybeCommit n =
     (let candidate = commit_candidate n (lastIndex n)
      in if candidate \<le> nCommit n then Inr (n, no_update)
         else
           let old = nCommit n; n = n\<lparr>nCommit := candidate\<rparr>
           in rbind (entriesBetween n (old + 1) (nCommit n + 1)) (\<lambda>committed.
              rbind (append_final n) (\<lambda>(n, final).
              rbind (broadcastAppend n OriginCommitAdvance) (\<lambda>(n, ms).
                let u = no_update\<lparr>uCommitted := committed, uEntries := final, uMessages := ms\<rparr>
                in if mbIndex (nMembership n) \<le> nCommit n \<and> \<not> isVoter n (nID n)
                   then then_merge u (becomeFollower n (nTerm n) 0)
                   else Inr (n, u)))))"

section \<open>Elections\<close>

definition becomeLeader :: "Node \<Rightarrow> Update step" where
  "becomeLeader n =
     (let lst = lastIndex n;
          noop = \<lparr>eIndex = lst + 1, eTerm = nTerm n, eData = []\<rparr>;
          n = n\<lparr>nRole := Leader, nLeader := nID n, nHeartbeatElapsed := 0, nQuorumElapsed := 0,
                nNext := (\<lambda>p. if p \<in> set (peers n) then Some (lst + 1) else None)(nID n \<mapsto> eIndex noop + 1),
                nMatch := [nID n \<mapsto> eIndex noop], nActive := Map.empty,
                nOut := Some Map.empty, nOutAge := Some Map.empty, nLog := nLog n @ [noop]\<rparr>
      in rbind (broadcastAppend n OriginOther) (\<lambda>(n, ms).
           then_merge (no_update\<lparr>uEntries := [noop], uRoleChanged := True, uMessages := ms\<rparr>) (maybeCommit n)))"

definition request_votes :: "MessageType \<Rightarrow> Node \<Rightarrow> u64 \<Rightarrow> Message list" where
  "request_votes t n term =
     map (\<lambda>p. (message t (nID n) p term)\<lparr>msgLogIndex := lastIndex n, msgLogTerm := termAt n (lastIndex n)\<rparr>)
       (filter (\<lambda>p. p \<noteq> nID n) (peers n))"

definition startElection :: "Node \<Rightarrow> Update step" where
  "startElection n =
     rbind (resetElectionTimer (n\<lparr>nRole := Candidate, nTerm := nTerm n + 1, nVotedFor := nID n, nLeader := 0,
              nVotes := [nID n \<mapsto> True]\<rparr>)) (\<lambda>n.
       let u = no_update\<lparr>uHard := Some (hardState n), uRoleChanged := True\<rparr>
       in if raft_HasQuorum n {nID n} then then_merge u (becomeLeader n)
          else Inr (n, add_messages u (request_votes MsgVote n (nTerm n))))"

definition startPreVote :: "Node \<Rightarrow> Update step" where
  "startPreVote n =
     (let changed = (nRole n \<noteq> PreCandidate)
      in rbind (resetElectionTimer (n\<lparr>nRole := PreCandidate, nLeader := 0, nVotes := [nID n \<mapsto> True]\<rparr>)) (\<lambda>n.
           let u = no_update\<lparr>uRoleChanged := changed\<rparr>
           in if raft_HasQuorum n {nID n} then startElection n
              else Inr (n, add_messages u (request_votes MsgPreVote n (nTerm n + 1)))))"

definition granted_by :: "Node \<Rightarrow> u64 \<Rightarrow> bool" where
  "granted_by n x \<longleftrightarrow> nVotes n x = Some True"

definition rejected_by :: "Node \<Rightarrow> u64 \<Rightarrow> bool" where
  "rejected_by n x \<longleftrightarrow> nVotes n x = Some False"

section \<open>Message handlers\<close>

definition handlePreVote :: "Node \<Rightarrow> Message \<Rightarrow> Message" where
  "handlePreVote n m =
     (let leaderIsRecent = (nLeader n \<noteq> 0 \<and> nElectionElapsed n < nElectionTimeout n);
          grant = (isVoter n (nID n) \<and> msgTerm m \<ge> nTerm n + 1 \<and> \<not> leaderIsRecent \<and>
                   isUpToDate n (msgLogIndex m) (msgLogTerm m))
      in (message MsgPreVoteResponse (nID n) (msgFrom m) (if grant then msgTerm m else nTerm n))\<lparr>msgReject := \<not> grant\<rparr>)"

definition handlePreVoteResponse :: "Node \<Rightarrow> Message \<Rightarrow> Update step" where
  "handlePreVoteResponse n m =
     (if msgReject m \<and> msgTerm m > nTerm n then becomeFollower n (msgTerm m) 0
      else
        let granted = (\<not> msgReject m \<and> msgTerm m = nTerm n + 1);
            rejected = (msgReject m \<and> msgTerm m \<le> nTerm n)
        in if nRole n \<noteq> PreCandidate \<or> \<not> granted \<and> \<not> rejected then Inr (n, no_update)
           else
             let n = n\<lparr>nVotes := (nVotes n)(msgFrom m \<mapsto> granted)\<rparr>
             in if hasQuorum (nMembership n) (granted_by n) then startElection n
                else if voteLost (nMembership n) (rejected_by n) then becomeFollower n (nTerm n) 0
                else Inr (n, no_update))"

definition handleVote :: "Node \<Rightarrow> Message \<Rightarrow> Update step" where
  "handleVote n m =
     (let canVote = (nVotedFor n = 0 \<or> nVotedFor n = msgFrom m);
          grant = (isVoter n (nID n) \<and> canVote \<and> isUpToDate n (msgLogIndex m) (msgLogTerm m))
      in rbind (if grant
                then rbind (resetElectionTimer (n\<lparr>nVotedFor := msgFrom m, nLeader := 0\<rparr>)) (\<lambda>n.
                       Inr (n, no_update\<lparr>uHard := Some (hardState n)\<rparr>))
                else Inr (n, no_update)) (\<lambda>(n, u).
           Inr (n, add_messages u
             [(message MsgVoteResponse (nID n) (msgFrom m) (nTerm n))\<lparr>msgReject := \<not> grant\<rparr>])))"

definition handleVoteResponse :: "Node \<Rightarrow> Message \<Rightarrow> Update step" where
  "handleVoteResponse n m =
     (if nRole n \<noteq> Candidate \<or> msgTerm m \<noteq> nTerm n then Inr (n, no_update)
      else
        let n = n\<lparr>nVotes := (nVotes n)(msgFrom m \<mapsto> \<not> msgReject m)\<rparr>
        in if hasQuorum (nMembership n) (granted_by n) then becomeLeader n
           else if voteLost (nMembership n) (rejected_by n) then becomeFollower n (nTerm n) 0
           else Inr (n, no_update))"

text \<open>Follow the sender of an append or a snapshot: the common first lines of both handlers.\<close>

definition follow :: "Node \<Rightarrow> u64 \<Rightarrow> Update step" where
  "follow n leader =
     rbind (if nRole n \<noteq> Follower \<or> nLeader n \<noteq> leader
            then then_merge no_update (becomeFollower n (nTerm n) leader) else Inr (n, no_update)) (\<lambda>(n, u).
       rbind (resetElectionTimer (n\<lparr>nLeader := leader\<rparr>)) (\<lambda>n. Inr (n, u)))"

function conflict_hint :: "Node \<Rightarrow> u64 \<Rightarrow> u64 \<Rightarrow> u64" where
  "conflict_hint n conflictTerm hint =
     (if hint > sIndex (nSnap n) + 1 \<and> termAt n (hint - 1) = conflictTerm
      then conflict_hint n conflictTerm (hint - 1) else hint)"
  by pat_completeness auto
termination
  by (relation "measure (\<lambda>(n, t, h). unat h)") (auto simp: word_less_nat_alt unat_sub_u64 word_le_nat_alt)

declare conflict_hint.simps [simp del]

definition append_response :: "Node \<Rightarrow> Message \<Rightarrow> Message" where
  "append_response n m = message MsgAppendResponse (nID n) (msgFrom m) (nTerm n)"

definition reject_append :: "Node \<Rightarrow> Message \<Rightarrow> u64 \<Rightarrow> Message" where
  "reject_append n m hint = (append_response n m)\<lparr>msgReject := True, msgRejectHint := hint\<rparr>"

text \<open>
  The loop of \<open>handleAppend\<close> skips the entries the log already has. It ends because all are there,
  because one conflicts with a committed entry, or at the entry from which the log is extended, after
  cutting the log at a conflicting index if there is one.
\<close>

datatype append_plan = Present | Conflict_Committed | Extend "u64 option" "Entry list"

fun plan_append :: "Node \<Rightarrow> Entry list \<Rightarrow> append_plan" where
  "plan_append n [] = Present"
| "plan_append n (e # es) =
     (if eIndex e \<le> lastIndex n
      then if termAt n (eIndex e) = eTerm e then plan_append n es
           else if eIndex e \<le> nCommit n then Conflict_Committed
           else Extend (Some (eIndex e)) (e # es)
      else Extend None (e # es))"

definition extend_log :: "Node \<Rightarrow> u64 option \<Rightarrow> Entry list \<Rightarrow> Node result" where
  "extend_log n cutAt es =
     (case cutAt of
        None \<Rightarrow> Inr (n\<lparr>nLog := nLog n @ es\<rparr>)
      | Some i \<Rightarrow> rbind (slice (nLog n) 0 (i - sIndex (nSnap n) - 1)) (\<lambda>keep. Inr (n\<lparr>nLog := keep @ es\<rparr>)))"

text \<open>The end of \<open>handleAppend\<close>: advance the commit index and acknowledge.\<close>

definition finish_append :: "Node \<Rightarrow> Message \<Rightarrow> Update \<Rightarrow> Update step" where
  "finish_append n m u =
     (let lastNew = min (msgLogIndex m + word_of_nat (length (msgEntries m))) (lastIndex n);
          commit = min (msgLeaderCommit m) lastNew
      in rbind (if commit > nCommit n
                then rbind (entriesBetween (n\<lparr>nCommit := commit\<rparr>) (nCommit n + 1) (commit + 1)) (\<lambda>es.
                       Inr (n\<lparr>nCommit := commit\<rparr>, u\<lparr>uCommitted := uCommitted u @ es\<rparr>))
                else Inr (n, u)) (\<lambda>(n, u).
           Inr (n, add_messages u [(append_response n m)\<lparr>msgLogIndex := lastNew, msgContext := msgContext m\<rparr>])))"

definition append_entries :: "Node \<Rightarrow> Message \<Rightarrow> Update \<Rightarrow> Update step" where
  "append_entries n m u =
     (case plan_append n (msgEntries m) of
        Present \<Rightarrow> finish_append n m u
      | Conflict_Committed \<Rightarrow> Inr (n, add_messages u [reject_append n m (nCommit n + 1)])
      | Extend cutAt es \<Rightarrow>
          rbind (extend_log n cutAt es) (\<lambda>n1.
            let u1 = u\<lparr>uTruncateFrom := (case cutAt of None \<Rightarrow> uTruncateFrom u | Some i \<Rightarrow> i),
                      uEntries := uEntries u @ es\<rparr>
            in if cutAt \<noteq> None \<or> list_ex (\<lambda>e. hasMembershipPrefix (eData e)) es
               then (case rebuildMembership n1 of
                       Inl _ \<Rightarrow> Inr (n, add_messages (u\<lparr>uTruncateFrom := 0, uEntries := []\<rparr>)
                                      [reject_append n m (lastIndex n + 1)])
                     | Inr n2 \<Rightarrow> finish_append n2 m u1)
               else finish_append n1 m u1))"

definition handleAppend :: "Node \<Rightarrow> Message \<Rightarrow> Update step" where
  "handleAppend n m =
     rbind (follow n (msgFrom m)) (\<lambda>(n, u).
       if msgLogIndex m > lastIndex n \<or> termAt n (msgLogIndex m) \<noteq> msgLogTerm m
       then
         let hint = (if msgLogIndex m \<le> lastIndex n
                     then conflict_hint n (termAt n (msgLogIndex m)) (msgLogIndex m)
                     else lastIndex n + 1)
         in Inr (n, add_messages u [reject_append n m hint])
       else append_entries n m u)"

text \<open>Why an append is malformed; the index of the loop is carried as \<open>i\<close>.\<close>

fun malformed_loop :: "Message \<Rightarrow> nat \<Rightarrow> u64 \<Rightarrow> Entry list \<Rightarrow> string" where
  "malformed_loop m i previous [] = ''''"
| "malformed_loop m i previous (e # es) =
     (let want = msgLogIndex m + word_of_nat i + 1;
          entry = ''entry '' @ show_nat i;
          pos = entry @ '' (index '' @ show_nat (unat (eIndex e)) @ '')''
      in if eIndex e \<noteq> want
         then entry @ '' has index '' @ show_nat (unat (eIndex e)) @ '', want '' @ show_nat (unat want)
         else if eTerm e = 0 then pos @ '' has term 0''
         else if length (eData e) > MaxEntryBytes
         then pos @ '' has '' @ show_nat (length (eData e)) @ '' bytes, over '' @ show_nat MaxEntryBytes
         else if eTerm e > msgTerm m
         then pos @ '' has term '' @ show_nat (unat (eTerm e)) @ '', above the message term '' @ show_nat (unat (msgTerm m))
         else if i = 0 \<and> eTerm e < previous
         then pos @ '' has term '' @ show_nat (unat (eTerm e)) @ '', below LogTerm '' @ show_nat (unat previous)
         else if eTerm e < previous
         then pos @ '' has term '' @ show_nat (unat (eTerm e)) @ '', below the previous entry'' @ [CHR 0x27] @ ''s '' @ show_nat (unat previous)
         else malformed_loop m (i + 1) (eTerm e) es)"

definition malformedAppend :: "Message \<Rightarrow> string" where
  "malformedAppend m = malformed_loop m 0 (msgLogTerm m) (msgEntries m)"

definition snapshot_response :: "Node \<Rightarrow> Message \<Rightarrow> Message" where
  "snapshot_response n m = message MsgSnapshotResponse (nID n) (msgFrom m) (nTerm n)"

definition reject_snapshot :: "Node \<Rightarrow> Message \<Rightarrow> Message" where
  "reject_snapshot n m = (snapshot_response n m)\<lparr>msgReject := True, msgRejectHint := lastIndex n + 1\<rparr>"

definition install_snapshot :: "Node \<Rightarrow> Message \<Rightarrow> Snapshot \<Rightarrow> Update \<Rightarrow> Update step" where
  "install_snapshot n m s u =
     (if sIndex s \<le> nCommit n \<and> termAt n (sIndex s) \<noteq> sTerm s
      then Inr (n, add_messages u [reject_snapshot n m])
      else rbind (compactLog n s) (\<lambda>n1.
        case rebuildMembership n1 of
          Inl _ \<Rightarrow> Inr (n, add_messages u [reject_snapshot n m])
        | Inr n2 \<Rightarrow>
            let n3 = (if nCommit n2 < sIndex s then n2\<lparr>nCommit := sIndex s\<rparr> else n2)
            in Inr (n3, add_messages (u\<lparr>uSnapshot := Some s\<rparr>)
                 [(snapshot_response n3 m)\<lparr>msgLogIndex := max (sIndex s) (sIndex (nSnap n3))\<rparr>])))"

definition handleSnapshot :: "Node \<Rightarrow> Message \<Rightarrow> Update step" where
  "handleSnapshot n m =
     (case msgSnapshot m of
        None \<Rightarrow> Inr (n, no_update\<lparr>uMessages := [reject_snapshot n m]\<rparr>)
      | Some s \<Rightarrow>
          if sIndex s = 0 \<or> sTerm s = 0 then Inr (n, no_update\<lparr>uMessages := [reject_snapshot n m]\<rparr>)
          else rbind (follow n (msgFrom m)) (\<lambda>(n, u).
            let s = (if Voters (sMembership s) = [] then s\<lparr>sMembership := nInitial n\<rparr> else s)
            in if validateMembership (sMembership s) \<noteq> Inr ()
               then Inr (n, add_messages u [reject_snapshot n m])
               else if mbIndex (sMembership s) > sIndex s
               then Inr (n, add_messages u [reject_snapshot n m])
               else if sIndex s > sIndex (nSnap n) then install_snapshot n m s u
               else Inr (n, add_messages u
                 [(snapshot_response n m)\<lparr>msgLogIndex := max (sIndex s) (sIndex (nSnap n))\<rparr>])))"

definition handleSnapshotResponse :: "Node \<Rightarrow> Message \<Rightarrow> Update step" where
  "handleSnapshotResponse n m =
     (if nRole n \<noteq> Leader \<or> msgTerm m \<noteq> nTerm n then Inr (n, no_update)
      else
        let p = msgFrom m; n = n\<lparr>nActive := (nActive n)(p \<mapsto> True)\<rparr>
        in if msgReject m
           then rbind (set_outstanding n p 0) (\<lambda>n.
                  rbind (appendMessage n p 0 OriginOther) (\<lambda>(n, a). Inr (n, no_update\<lparr>uMessages := [a]\<rparr>)))
           else
             let matched = min (msgLogIndex m) (lastIndex n);
                 n = (if matched > mget (nMatch n) p
                      then n\<lparr>nMatch := (nMatch n)(p \<mapsto> matched), nNext := (nNext n)(p \<mapsto> matched + 1)\<rparr> else n)
             in rbind (settleOutstanding n p) (\<lambda>n.
                rbind (maybeCommit n) (\<lambda>(n, u).
                  if mget (nNext n) p \<le> lastIndex n
                  then rbind (appendMessage n p 0 OriginOther) (\<lambda>(n, a). Inr (n, add_messages u [a]))
                  else Inr (n, u))))"

definition rejected_next :: "Node \<Rightarrow> Message \<Rightarrow> u64" where
  "rejected_next n m =
     (let next = mget (nNext n) (msgFrom m);
          next = (if msgRejectHint m > 0 \<and> msgRejectHint m < next then msgRejectHint m
                  else if next > 1 then next - 1 else next)
      in max 1 (max next (mget (nMatch n) (msgFrom m) + 1)))"

definition handleAppendResponse :: "Node \<Rightarrow> Message \<Rightarrow> Update step" where
  "handleAppendResponse n m =
     (if nRole n \<noteq> Leader \<or> msgTerm m \<noteq> nTerm n then Inr (n, no_update)
      else
        let p = msgFrom m; n = n\<lparr>nActive := (nActive n)(p \<mapsto> True)\<rparr>
        in if msgReject m
           then rbind (set_outstanding (n\<lparr>nNext := (nNext n)(p \<mapsto> rejected_next n m)\<rparr>) p 0) (\<lambda>n.
                  rbind (appendMessage n p (msgContext m) OriginAckResend) (\<lambda>(n, a).
                    Inr (n, no_update\<lparr>uMessages := [a]\<rparr>)))
           else
             let newer = (msgLogIndex m > mget (nMatch n) p);
                 matched = min (msgLogIndex m) (lastIndex n);
                 advanced = (newer \<and> matched > mget (nMatch n) p);
                 n = (if newer
                      then n\<lparr>nMatch := (nMatch n)(p \<mapsto> matched), nNext := (nNext n)(p \<mapsto> matched + 1)\<rparr> else n)
             in rbind (settleOutstanding n p) (\<lambda>n.
                rbind (maybeCommit n) (\<lambda>(n, u).
                  if advanced \<and> outstanding n p = 0 \<and> mget (nNext n) p \<le> lastIndex n
                  then rbind (appendMessage n p (msgContext m) OriginAckResend) (\<lambda>(n, a).
                         Inr (n, add_messages u [a]))
                  else Inr (n, u))))"

definition rejectStale :: "Node \<Rightarrow> Message \<Rightarrow> Message" where
  "rejectStale n m =
     (let r = (message (msgType m) (nID n) (msgFrom m) (nTerm n))\<lparr>msgReject := True\<rparr>
      in case msgType m of
           MsgVote \<Rightarrow> r\<lparr>msgType := MsgVoteResponse\<rparr>
         | MsgAppend \<Rightarrow> r\<lparr>msgType := MsgAppendResponse, msgRejectHint := lastIndex n + 1\<rparr>
         | MsgSnapshot \<Rightarrow> r\<lparr>msgType := MsgSnapshotResponse\<rparr>
         | _ \<Rightarrow> r)"

fun handle :: "MessageType \<Rightarrow> Node \<Rightarrow> Message \<Rightarrow> Update step" where
  "handle MsgPreVote n m = Inr (n, no_update\<lparr>uMessages := [handlePreVote n m]\<rparr>)"
| "handle MsgPreVoteResponse n m = handlePreVoteResponse n m"
| "handle MsgVote n m = handleVote n m"
| "handle MsgVoteResponse n m = handleVoteResponse n m"
| "handle MsgAppend n m = handleAppend n m"
| "handle MsgAppendResponse n m = handleAppendResponse n m"
| "handle MsgSnapshot n m = handleSnapshot n m"
| "handle MsgSnapshotResponse n m = handleSnapshotResponse n m"

section \<open>Interface\<close>

definition raft_Step :: "Node \<Rightarrow> Message \<Rightarrow> Update step" where
  "raft_Step n m =
     (if msgTo m \<noteq> 0 \<and> msgTo m \<noteq> nID n then Inr (n, no_update)
      else if \<not> isCommunicationPeer n (msgFrom m) \<or> msgFrom m = nID n then Inr (n, no_update)
      else if msgType m = MsgAppend \<and> malformedAppend m \<noteq> ''''
      then Inr (n\<lparr>nMalformed := nMalformed n + 1\<rparr>, no_update\<lparr>uDropped :=
             ''from '' @ show_nat (unat (msgFrom m)) @ '' at term '' @ show_nat (unat (msgTerm m)) @ '': '' @ malformedAppend m\<rparr>)
      else if msgType m = MsgVote \<and> msgTerm m > nTerm n \<and> inLease n
      then Inr (n\<lparr>nIgnored := nIgnored n + 1\<rparr>, no_update)
      else if msgType m \<noteq> MsgPreVote \<and> msgType m \<noteq> MsgPreVoteResponse \<and> msgTerm m < nTerm n
      then Inr (n, no_update\<lparr>uMessages := [rejectStale n m]\<rparr>)
      else
        rbind (if msgType m \<noteq> MsgPreVote \<and> msgType m \<noteq> MsgPreVoteResponse \<and> msgTerm m > nTerm n
               then then_merge no_update (becomeFollower n (msgTerm m) 0) else Inr (n, no_update)) (\<lambda>(n, u).
          then_merge u (handle (msgType m) n m)))"

definition check_quorum :: "Node \<Rightarrow> Update \<Rightarrow> Update step" where
  "check_quorum n u =
     (let n0 = n\<lparr>nQuorumElapsed := 0\<rparr>;
          active = (\<lambda>x. x = nID n0 \<and> isVoter n0 x \<or>
                        x \<in> set (peers n0) \<and> x \<noteq> nID n0 \<and> nActive n0 x = Some True);
          n1 = n0\<lparr>nActive := foldl (\<lambda>a p. a(p \<mapsto> False)) (nActive n0) (peers n0)\<rparr>
      in if \<not> hasQuorum (nMembership n1) active then then_merge u (becomeFollower n1 (nTerm n1) 0)
         else Inr (n1, u))"

definition raft_Tick :: "Node \<Rightarrow> Update step" where
  "raft_Tick n =
     (if nRole n = Leader
      then
        rbind (expireOutstanding (n\<lparr>nHeartbeatElapsed := nHeartbeatElapsed n + 1,
                                    nQuorumElapsed := nQuorumElapsed n + 1\<rparr>)) (\<lambda>(n, expired).
        rbind (if nHeartbeatElapsed n \<ge> cfgHeartbeatTicks (nCfg n)
               then broadcastAppend (n\<lparr>nHeartbeatElapsed := 0\<rparr>) OriginHeartbeat
               else append_messages n expired 0 OriginHeartbeat) (\<lambda>(n, ms).
          if nQuorumElapsed n \<ge> cfgCheckQuorumTicks (nCfg n)
          then check_quorum n (no_update\<lparr>uMessages := ms\<rparr>)
          else Inr (n, no_update\<lparr>uMessages := ms\<rparr>)))
      else if \<not> isVoter n (nID n) then Inr (n, no_update)
      else
        let n = n\<lparr>nElectionElapsed := nElectionElapsed n + 1\<rparr>
        in if nElectionElapsed n \<ge> nElectionTimeout n then then_merge no_update (startPreVote n)
           else Inr (n, no_update))"

definition raft_Compact :: "Node \<Rightarrow> Snapshot \<Rightarrow> Update result step" where
  "raft_Compact n s =
     (if sIndex s \<le> sIndex (nSnap n) then Inr (n, Inr no_update)
      else if sIndex s > nCommit n \<or> sTerm s = 0 \<or> termAt n (sIndex s) \<noteq> sTerm s
      then Inr (n, Inl (Err ''invalid snapshot boundary''))
      else case membershipAt n (sIndex s) of
             Inl e \<Rightarrow> Inr (n, Inl e)
           | Inr expected \<Rightarrow>
               let s = (if Voters (sMembership s) = [] then s\<lparr>sMembership := expected\<rparr> else s)
               in if mbIndex (sMembership s) > sIndex s
                  then Inr (n, Inl (Err ''snapshot membership index exceeds snapshot index''))
                  else if \<not> equalVoters (Voters (sMembership s)) (Voters expected) \<or>
                          \<not> equalVoters (JointVoters (sMembership s)) (JointVoters expected) \<or>
                          mbIndex (sMembership s) \<noteq> mbIndex expected
                  then Inr (n, Inl (Err ''snapshot membership does not match its log index''))
                  else rbind (compactLog n s) (\<lambda>n.
                    case rebuildMembership n of
                      Inl e \<Rightarrow> Inr (n, Inl e)
                    | Inr n \<Rightarrow> Inr (n, Inr (no_update\<lparr>uSnapshot := Some s\<rparr>))))"

definition raft_CreateSnapshot :: "Node \<Rightarrow> u64 \<Rightarrow> bytes \<Rightarrow> Update result step" where
  "raft_CreateSnapshot n index data =
     (case membershipAt n index of
        Inl e \<Rightarrow> Inr (n, Inl e)
      | Inr m \<Rightarrow> raft_Compact n \<lparr>sIndex = index, sTerm = termAt n index, sData = data, sMembership = m\<rparr>)"

definition raft_ProposeMembership :: "Node \<Rightarrow> u64 list \<Rightarrow> (u64 \<times> Update) result step" where
  "raft_ProposeMembership n voters =
     (if nRole n \<noteq> Leader then Inr (n, Inl ErrNotLeader)
      else if JointVoters (nMembership n) \<noteq> [] \<or> mbIndex (nMembership n) > nCommit n
      then Inr (n, Inl ErrMembershipChangeInProgress)
      else case normalizeVoters voters of
             Inl e \<Rightarrow> Inr (n, Inl e)
           | Inr newVoters \<Rightarrow>
               if equalVoters newVoters (Voters (nMembership n))
               then Inr (n, Inr (mbIndex (nMembership n), no_update))
               else
                 let e = \<lparr>eIndex = lastIndex n + 1, eTerm = nTerm n, eData = encodeMembership
                       \<lparr>cPhase = configJoint, cOld = Voters (nMembership n), cNew = newVoters\<rparr>\<rparr>;
                     n = n\<lparr>nLog := nLog n @ [e]\<rparr>
                 in case rebuildMembership n of
                      Inl x \<Rightarrow> Inr (n, Inl x)
                    | Inr n \<Rightarrow>
                        let n = n\<lparr>nNext := (foldl (\<lambda>nx p. if mget nx p = 0 then nx(p \<mapsto> eIndex e) else nx) (nNext n) (peers n))
                                     (nID n \<mapsto> eIndex e + 1),
                                  nMatch := (nMatch n)(nID n \<mapsto> eIndex e)\<rparr>
                        in rbind (broadcastAppend n OriginOther) (\<lambda>(n, ms).
                           rbind (then_merge (no_update\<lparr>uEntries := [e], uMessages := ms\<rparr>) (maybeCommit n)) (\<lambda>(n, u).
                             Inr (n, Inr (eIndex e + 1, u)))))"

fun propose_loop :: "Node \<Rightarrow> bytes list \<Rightarrow> Node \<times> u64 list \<times> Entry list" where
  "propose_loop n [] = (n, [], [])"
| "propose_loop n (c # cs) =
     (if length c > MaxEntryBytes
      then (case propose_loop n cs of (n, is, es) \<Rightarrow> (n, 0 # is, es))
      else
        let e = \<lparr>eIndex = lastIndex n + 1, eTerm = nTerm n, eData = c\<rparr>
        in case propose_loop (n\<lparr>nLog := nLog n @ [e]\<rparr>) cs of
             (n, is, es) \<Rightarrow> (n, eIndex e # is, e # es))"

definition raft_ProposeBatch :: "Node \<Rightarrow> bytes list \<Rightarrow> (u64 list \<times> Update) result step" where
  "raft_ProposeBatch n data =
     (if nRole n \<noteq> Leader then Inr (n, Inl ErrNotLeader)
      else case propose_loop n data of
             (n, is, es) \<Rightarrow>
               if es = [] then Inr (n, Inr (is, no_update))
               else
                 let n = n\<lparr>nMatch := (nMatch n)(nID n \<mapsto> lastIndex n),
                           nNext := (nNext n)(nID n \<mapsto> lastIndex n + 1)\<rparr>
                 in rbind (broadcastAppend n OriginProposal) (\<lambda>(n, ms).
                    rbind (then_merge (no_update\<lparr>uEntries := es, uMessages := ms\<rparr>) (maybeCommit n)) (\<lambda>(n, u).
                      Inr (n, Inr (is, u)))))"

definition raft_Propose :: "Node \<Rightarrow> bytes \<Rightarrow> (u64 \<times> Update) result step" where
  "raft_Propose n data =
     (if length data > MaxEntryBytes then Inr (n, Inl ErrEntryTooLarge)
      else rbind (raft_ProposeBatch n [data]) (\<lambda>(n, r).
        case r of
          Inl e \<Rightarrow> Inr (n, Inl e)
        | Inr (is, u) \<Rightarrow> (case is of [] \<Rightarrow> Inl Panic | i # _ \<Rightarrow> Inr (n, Inr (i, u)))))"

definition raft_ReadProbe :: "Node \<Rightarrow> u64 \<Rightarrow> Update result step" where
  "raft_ReadProbe n context =
     (if nRole n \<noteq> Leader then Inr (n, Inl ErrNotLeader)
      else if nCommit n = 0 \<or> termAt n (nCommit n) \<noteq> nTerm n then Inr (n, Inl ErrReadNotReady)
      else rbind (append_messages n (filter (\<lambda>p. p \<noteq> nID n) (peers n)) context OriginOther) (\<lambda>(n, ms).
        Inr (n, Inr (no_update\<lparr>uMessages := ms\<rparr>))))"

record Status =
  stID :: u64
  stRole :: Role
  stTerm :: u64
  stLeaderID :: u64
  stCommitIndex :: u64
  stLastLogIndex :: u64
  stSnapshotIndex :: u64
  stRetainedLogEntries :: u64
  stVotedFor :: u64
  stMatchIndex :: "(u64 \<rightharpoonup> u64) option"
  stMembership :: Membership
  stMalformed :: u64
  stIgnored :: u64

definition raft_Status :: "Node \<Rightarrow> Status" where
  "raft_Status n = \<lparr>stID = nID n, stRole = nRole n, stTerm = nTerm n, stLeaderID = nLeader n,
     stCommitIndex = nCommit n, stLastLogIndex = lastIndex n, stSnapshotIndex = sIndex (nSnap n),
     stRetainedLogEntries = word_of_nat (length (nLog n)), stVotedFor = nVotedFor n,
     stMatchIndex = (if nRole n = Leader then Some (nMatch n) else None), stMembership = nMembership n,
     stMalformed = nMalformed n, stIgnored = nIgnored n\<rparr>"

section \<open>Construction\<close>

fun check_log :: "u64 \<Rightarrow> nat \<Rightarrow> Entry list \<Rightarrow> unit result" where
  "check_log base i [] = Inr ()"
| "check_log base i (e # es) =
     (if eIndex e \<noteq> base + word_of_nat i + 1 \<or> eTerm e = 0 then Inl (Err ''raft log is not contiguous'')
      else check_log base (i + 1) es)"

definition restored_snapshot :: "Snapshot list \<Rightarrow> Snapshot result" where
  "restored_snapshot restored =
     (case restored of
        [] \<Rightarrow> Inr zero_snapshot
      | [s] \<Rightarrow>
          if (sIndex s = 0) \<noteq> (sTerm s = 0) \<or> sIndex s = 0 \<and> sData s \<noteq> []
          then Inl (Err ''restored snapshot requires positive index and term'')
          else if mbIndex (sMembership s) > sIndex s
          then Inl (Err ''snapshot membership index exceeds snapshot index'')
          else Inr s
      | _ \<Rightarrow> Inl (Err ''at most one restored snapshot is allowed''))"

definition raft_New :: "Config \<Rightarrow> HardState \<Rightarrow> Entry list \<Rightarrow> Snapshot list \<Rightarrow> Node result" where
  "raft_New cfg hard es restored =
     rbind (config_validate cfg) (\<lambda>_.
     rbind (restored_snapshot restored) (\<lambda>s.
     rbind (check_log (sIndex s) 0 es) (\<lambda>_.
     rbind (normalizeVoters (cfgPeers cfg)) (\<lambda>ps.
       let cfg = cfg\<lparr>cfgPeers := ps\<rparr>;
           initial = \<lparr>Voters = ps, JointVoters = [], mbIndex = 0\<rparr>
       in rbind (if sIndex s > 0 \<and> Voters (sMembership s) \<noteq> []
                 then rbind (validateMembership (sMembership s)) (\<lambda>_. Inr (sMembership s))
                 else Inr initial) (\<lambda>snapshotMembership.
          let n = \<lparr>nCfg = cfg, nRole = Follower, nTerm = hTerm hard, nVotedFor = hVotedFor hard, nLeader = 0,
                   nSnap = s, nLog = es, nCommit = cfgAppliedIndex cfg, nInitial = initial,
                   nMembership = snapshotMembership, nElectionElapsed = 0, nElectionTimeout = 0,
                   nHeartbeatElapsed = 0, nQuorumElapsed = 0, nRandom = cfgRandomSeed cfg,
                   nVotes = Map.empty, nNext = Map.empty, nMatch = Map.empty, nActive = Map.empty,
                   nOut = None, nOutAge = None, nMalformed = 0, nIgnored = 0\<rparr>
          in rbind (rebuildMembership n) (\<lambda>n.
             if cfgAppliedIndex cfg < sIndex s \<or> cfgAppliedIndex cfg > lastIndex n
             then Inl (Err ''applied index is outside snapshot/log range'')
             else resetElectionTimer
               (if nRandom n = 0 then n\<lparr>nRandom := lcg (cfgID cfg)\<rparr> else n)))))))"

end
