(* ===== verification/Raft_Inv.thy ===== *)
theory Raft_Inv
  imports Raft
begin

text \<open>
  What a node keeps, whatever message it is given: a contiguous log, a commit index between the
  snapshot and the last entry, the configuration that its log spells out. From it: no method panics.
  Along the way every method is shown to report its effects: what a runtime that persists the update
  has on disk is the node's own hard state, snapshot and log.
\<close>

section \<open>Results\<close>

text \<open>\<open>returns r P\<close>: the method does not panic and its result satisfies \<open>P\<close>.\<close>

definition returns :: "'a result \<Rightarrow> ('a \<Rightarrow> bool) \<Rightarrow> bool" where
  "returns r P \<longleftrightarrow> (case r of Inl _ \<Rightarrow> False | Inr x \<Rightarrow> P x)"

lemma returns_simps [simp]:
  "returns (Inr x) P \<longleftrightarrow> P x" "returns (Inl e) P \<longleftrightarrow> False"
  by (simp_all add: returns_def)

lemma returns_rbind [simp]: "returns (rbind r f) P \<longleftrightarrow> returns r (\<lambda>x. returns (f x) P)"
  by (cases r) simp_all

lemma returns_mono: "returns r P \<Longrightarrow> (\<And>x. P x \<Longrightarrow> Q x) \<Longrightarrow> returns r Q"
  by (cases r) simp_all

lemma returns_conj: "returns r P \<Longrightarrow> returns r Q \<Longrightarrow> returns r (\<lambda>x. P x \<and> Q x)"
  by (cases r) simp_all

lemma returns_Inr: "r = Inr x \<Longrightarrow> returns r P \<Longrightarrow> P x"
  by simp

lemma returns_ex: "returns r P \<longleftrightarrow> (\<exists>x. r = Inr x \<and> P x)"
  by (cases r) simp_all

lemma returns_if: "returns (if b then r else s) P \<longleftrightarrow> (if b then returns r P else returns s P)"
  by simp

section \<open>Indexes\<close>

definition snapN :: "Node \<Rightarrow> nat" where
  "snapN n = unat (sIndex (nSnap n))"

definition lastN :: "Node \<Rightarrow> nat" where
  "lastN n = snapN n + length (nLog n)"

definition entryAt :: "Node \<Rightarrow> nat \<Rightarrow> Entry option" where
  "entryAt n i = (if snapN n < i \<and> i \<le> lastN n then Some (nLog n ! (i - snapN n - 1)) else None)"

abbreviation room :: "Node \<Rightarrow> nat \<Rightarrow> bool" where
  "room n k \<equiv> lastN n + k < 2 ^ 64 - 1"

lemma unat_lastIndex: "room n 0 \<Longrightarrow> unat (lastIndex n) = lastN n"
  by (simp add: lastIndex_def lastN_def snapN_def unat_add_u64 unat_of_nat_u64)

lemma unat_lastIndex_inc: "room n 0 \<Longrightarrow> unat (lastIndex n + 1) = lastN n + 1"
  by (simp add: unat_lastIndex unat_inc_u64)

lemma le_lastIndex: "room n 0 \<Longrightarrow> i \<le> lastIndex n \<longleftrightarrow> unat i \<le> lastN n"
  by (simp add: word_le_nat_alt unat_lastIndex)

lemma le_snap: "i \<le> sIndex (nSnap n) \<longleftrightarrow> unat i \<le> snapN n"
  by (simp add: word_le_nat_alt snapN_def)

lemma unat_offset: "snapN n < unat i \<Longrightarrow> unat (i - sIndex (nSnap n) - 1) = unat i - snapN n - 1"
  by (auto simp: snapN_def word_le_nat_alt unat_sub_u64 less_imp_le)

lemma termAt_nat:
  assumes "room n 0"
  shows "termAt n i = (if i = 0 then 0 else if unat i = snapN n then sTerm (nSnap n)
    else case entryAt n (unat i) of None \<Rightarrow> 0 | Some e \<Rightarrow> eTerm e)"
proof -
  have "i = sIndex (nSnap n) \<longleftrightarrow> unat i = snapN n" by (simp add: snapN_def word_unat_eq_iff)
  then show ?thesis
    using assms unat_offset [of n i]
    by (auto simp: termAt_def entryAt_def le_snap le_lastIndex not_le simp flip: linorder_not_le)
qed

lemma entriesBetween_nat:
  assumes "room n 0" "snapN n < unat i" "unat j \<le> lastN n + 1"
  shows "entriesBetween n i j = Inr (take (unat j - unat i) (drop (unat i - snapN n - 1) (nLog n)))"
proof (cases "unat i < unat j")
  case True
  have le: "j \<le> lastIndex n + 1" using assms by (simp add: word_le_nat_alt unat_lastIndex_inc)
  have "unat (j - sIndex (nSnap n) - 1) = unat j - snapN n - 1" "unat (i - sIndex (nSnap n) - 1) = unat i - snapN n - 1"
    using unat_offset assms(2) True by simp_all
  moreover have "\<not> i > lastIndex n" using assms True by (simp add: not_less le_lastIndex)
  ultimately show ?thesis
    using assms True le
    by (auto simp: entriesBetween_def slice_def Let_def min_absorb1 word_le_nat_alt [of j i] le_snap
        lastN_def drop_take)
next
  case False
  then show ?thesis by (simp add: entriesBetween_def word_le_nat_alt)
qed

lemma entriesBetween_empty: "unat j \<le> unat i \<Longrightarrow> entriesBetween n i j = Inr []"
  by (simp add: entriesBetween_def word_le_nat_alt)

section \<open>The invariant\<close>

definition config_ok :: "Config \<Rightarrow> bool" where
  "config_ok c \<longleftrightarrow> cfgID c \<noteq> 0 \<and> 0 < cfgElectionTickMin c \<and> cfgElectionTickMin c < cfgElectionTickMax c \<and>
     cfgElectionTickMax c < 2 ^ 63 \<and> 0 < cfgHeartbeatTicks c \<and> cfgHeartbeatTicks c < cfgElectionTickMin c \<and>
     0 < cfgCheckQuorumTicks c \<and> cfgCheckQuorumTicks c \<le> cfgElectionTickMin c"

definition snapshot_ok :: "Snapshot \<Rightarrow> bool" where
  "snapshot_ok s \<longleftrightarrow> mbIndex (sMembership s) \<le> sIndex s \<and> (sIndex s = 0 \<longleftrightarrow> sTerm s = 0) \<and>
     (sIndex s = 0 \<longrightarrow> sData s = []) \<and>
     (sIndex s > 0 \<and> Voters (sMembership s) \<noteq> [] \<longrightarrow> membership_ok (sMembership s))"

definition contiguous :: "nat \<Rightarrow> Entry list \<Rightarrow> bool" where
  "contiguous base es \<longleftrightarrow> (\<forall>i < length es. unat (eIndex (es ! i)) = base + i + 1 \<and> eTerm (es ! i) \<noteq> 0)"

definition initial_ok :: "Membership \<Rightarrow> bool" where
  "initial_ok m \<longleftrightarrow> voters_ok (Voters m) \<and> JointVoters m = [] \<and> mbIndex m = 0"

definition node_ok :: "Node \<Rightarrow> bool" where
  "node_ok n \<longleftrightarrow> config_ok (nCfg n) \<and> snapshot_ok (nSnap n) \<and> initial_ok (nInitial n) \<and>
     Voters (nInitial n) = cfgPeers (nCfg n) \<and>
     contiguous (snapN n) (nLog n) \<and> room n 0 \<and>
     snapN n \<le> unat (nCommit n) \<and> unat (nCommit n) \<le> lastN n \<and>
     fold_membership (base_membership n) (nLog n) = Inr (nMembership n)"

definition armed :: "Node \<Rightarrow> bool" where
  "armed n \<longleftrightarrow> nOut n \<noteq> None \<and> nOutAge n \<noteq> None"

definition wf_node :: "Node \<Rightarrow> bool" where
  "wf_node n \<longleftrightarrow> node_ok n \<and> (nRole n = Leader \<longrightarrow> armed n) \<and> (nRole n = Candidate \<or> nRole n = Leader \<longrightarrow> nTerm n \<noteq> 0)"

text \<open>The part of the node that its log and hard state make up.\<close>

definition same_core :: "Node \<Rightarrow> Node \<Rightarrow> bool" where
  "same_core n n' \<longleftrightarrow> nCfg n' = nCfg n \<and> nTerm n' = nTerm n \<and> nVotedFor n' = nVotedFor n \<and> nSnap n' = nSnap n \<and>
     nLog n' = nLog n \<and> nCommit n' = nCommit n \<and> nInitial n' = nInitial n \<and> nMembership n' = nMembership n"

lemma same_core_refl [simp]: "same_core n n"
  by (simp add: same_core_def)

lemma same_core_trans: "same_core a b \<Longrightarrow> same_core b c \<Longrightarrow> same_core a c"
  by (simp add: same_core_def)

lemma same_core_update [simp]:
  "same_core a (n\<lparr>nRole := x1\<rparr>) = same_core a n" "same_core a (n\<lparr>nLeader := x2\<rparr>) = same_core a n"
  "same_core a (n\<lparr>nVotes := x3\<rparr>) = same_core a n" "same_core a (n\<lparr>nNext := x4\<rparr>) = same_core a n"
  "same_core a (n\<lparr>nMatch := x5\<rparr>) = same_core a n" "same_core a (n\<lparr>nActive := x6\<rparr>) = same_core a n"
  "same_core a (n\<lparr>nOut := x7\<rparr>) = same_core a n" "same_core a (n\<lparr>nOutAge := x8\<rparr>) = same_core a n"
  "same_core a (n\<lparr>nElectionElapsed := x9\<rparr>) = same_core a n" "same_core a (n\<lparr>nElectionTimeout := x10\<rparr>) = same_core a n"
  "same_core a (n\<lparr>nHeartbeatElapsed := x11\<rparr>) = same_core a n" "same_core a (n\<lparr>nQuorumElapsed := x12\<rparr>) = same_core a n"
  "same_core a (n\<lparr>nRandom := x13\<rparr>) = same_core a n" "same_core a (n\<lparr>nMalformed := x14\<rparr>) = same_core a n"
  "same_core a (n\<lparr>nIgnored := x15\<rparr>) = same_core a n"
  by (simp_all add: same_core_def)

lemma same_core_eqs:
  assumes "same_core n n'"
  shows "nCfg n' = nCfg n" "nTerm n' = nTerm n" "nVotedFor n' = nVotedFor n" "nSnap n' = nSnap n" "nLog n' = nLog n"
    "nCommit n' = nCommit n" "nInitial n' = nInitial n" "nMembership n' = nMembership n"
    "snapN n' = snapN n" "lastN n' = lastN n" "lastIndex n' = lastIndex n" "base_membership n' = base_membership n"
    "hardState n' = hardState n" "peers n' = peers n" "replicationPeers n' = replicationPeers n"
proof -
  show p: "peers n' = peers n" and b: "base_membership n' = base_membership n"
    using assms by (simp_all add: same_core_def peers_def base_membership_def)
  have "membershipAt n' i = membershipAt n i" for i using assms b by (simp add: membershipAt_def same_core_def)
  then show "replicationPeers n' = replicationPeers n"
    unfolding replicationPeers_def p using assms by (simp add: same_core_def)
qed (use assms in \<open>simp_all add: same_core_def snapN_def lastN_def lastIndex_def hardState_def\<close>)

lemma same_core_funs:
  assumes "same_core n n'"
  shows "termAt n' i = termAt n i" "entryAt n' k = entryAt n k" "entriesBetween n' i j = entriesBetween n i j"
  using assms by (simp_all add: termAt_def entryAt_def entriesBetween_def same_core_def lastIndex_def snapN_def lastN_def)

lemma same_core_node_ok: "same_core n n' \<Longrightarrow> node_ok n' = node_ok n"
  by (simp add: node_ok_def same_core_eqs)

text \<open>What the sending and timing helpers keep besides: the role and the leader's maps.\<close>

definition keeps :: "Node \<Rightarrow> Node \<Rightarrow> bool" where
  "keeps n n' \<longleftrightarrow> same_core n n' \<and> nRole n' = nRole n \<and> nVotes n' = nVotes n \<and>
     (nOut n \<noteq> None \<longrightarrow> nOut n' \<noteq> None) \<and> (nOutAge n \<noteq> None \<longrightarrow> nOutAge n' \<noteq> None)"

lemma keeps_armed: "keeps n n' \<Longrightarrow> armed n \<Longrightarrow> armed n'"
  by (simp add: keeps_def armed_def)

lemma keeps_refl [simp]: "keeps n n"
  by (simp add: keeps_def)

lemma keeps_trans: "keeps a b \<Longrightarrow> keeps b c \<Longrightarrow> keeps a c"
  by (auto simp: keeps_def intro: same_core_trans)

lemma keeps_wf: "keeps n n' \<Longrightarrow> wf_node n \<Longrightarrow> wf_node n'"
  by (auto simp: keeps_def wf_node_def armed_def same_core_node_ok same_core_eqs)

section \<open>Configurations\<close>

lemma fold_membership_append:
  "fold_membership m (xs @ ys) = rbind (fold_membership m xs) (\<lambda>m. fold_membership m ys)"
proof (induction xs arbitrary: m)
  case (Cons e xs)
  then show ?case
    by (cases "decodeMembership (eData e)"; cases "applyMembership m (the (projr (decodeMembership (eData e)))) (eIndex e)")
      (auto split: option.split)
qed simp

lemma fold_membership_ok: "membership_ok m \<Longrightarrow> fold_membership m es = Inr m' \<Longrightarrow> membership_ok m'"
  by (induction es arbitrary: m)
    (auto simp: rbind_Inr_iff split: sum.splits option.splits dest: decode_ok applyMembership_ok(1))

lemma fold_membership_index:
  "fold_membership m es = Inr m' \<Longrightarrow> m' = m \<or> (\<exists>e \<in> set es. mbIndex m' = eIndex e)"
proof (induction es arbitrary: m)
  case (Cons e es)
  show ?case
  proof (cases "decodeMembership (eData e)")
    case (Inr d)
    show ?thesis
    proof (cases d)
      case None
      with Cons Inr show ?thesis by fastforce
    next
      case (Some c)
      with Cons.prems Inr obtain m1 where m1: "applyMembership m c (eIndex e) = Inr m1" "fold_membership m1 es = Inr m'"
        by (auto simp: rbind_Inr_iff)
      have "mbIndex m1 = eIndex e" using m1(1) by (auto simp: applyMembership_def split: if_splits)
      with Cons.IH [OF m1(2)] show ?thesis by auto
    qed
  qed (use Cons.prems in simp)
qed simp

lemma base_membership_ok: "node_ok n \<Longrightarrow> membership_ok (base_membership n)"
  by (auto simp: node_ok_def base_membership_def snapshot_ok_def initial_ok_def membership_ok_def)

lemma node_ok_membership: "node_ok n \<Longrightarrow> membership_ok (nMembership n)"
  using base_membership_ok fold_membership_ok by (auto simp: node_ok_def)

lemma peers_ok: "node_ok n \<Longrightarrow> voters_ok (peers n)"
  by (simp add: peers_def node_ok_membership unionVoters_ok)

lemma replicationPeers_ok: "node_ok n \<Longrightarrow> voters_ok (replicationPeers n)"
  using fold_membership_ok [OF base_membership_ok] peers_ok [of n]
  by (auto simp: replicationPeers_def membershipAt_def unionVoters_ok split: sum.split)

lemma isVoter_iff: "node_ok n \<Longrightarrow> isVoter n x \<longleftrightarrow> x \<in> set (peers n)"
  using voters_ok_distinct [OF peers_ok] by (simp add: isVoter_def containsVoter_iff)

lemma isCommunicationPeer_nonzero: "node_ok n \<Longrightarrow> isCommunicationPeer n x \<Longrightarrow> x \<noteq> 0"
  using replicationPeers_ok [of n] voters_ok_distinct [of "replicationPeers n"]
  by (auto simp: isCommunicationPeer_def containsVoter_iff voters_ok_def)

text \<open>Entries that are not configuration entries leave the configuration alone.\<close>

definition plain :: "Entry list \<Rightarrow> bool" where
  "plain es \<longleftrightarrow> \<not> list_ex (\<lambda>e. hasMembershipPrefix (eData e)) es"

lemma fold_membership_plain: "plain es \<Longrightarrow> fold_membership m es = Inr m"
  by (induction es) (auto simp: plain_def decodeMembership_def)

lemma plain_simps [simp]:
  "plain []" "plain (e # es) \<longleftrightarrow> \<not> hasMembershipPrefix (eData e) \<and> plain es" "plain (xs @ ys) \<longleftrightarrow> plain xs \<and> plain ys"
  by (auto simp: plain_def)

lemma not_prefix_Nil [simp]: "\<not> hasMembershipPrefix []"
  by (simp add: hasMembershipPrefix_def membershipPrefix_def)

section \<open>Helpers keep the node\<close>

lemma sint_mod_u64:
  assumes "0 < unat s" "unat s < 2 ^ 63"
  shows "0 \<le> sint (x mod s :: u64)" "sint (x mod s :: u64) < int (unat s)"
proof -
  have lt: "unat (x mod s) < unat s" using assms(1) by (simp add: unat_mod)
  have "sint (word_of_nat (unat (x mod s)) :: u64) = int (unat (x mod s))"
    using lt assms(2) by (intro sint_of_nat_u64) simp
  then have e: "sint (x mod s) = int (unat (x mod s))" by (simp only: of_nat_unat ucast_id)
  show "0 \<le> sint (x mod s :: u64)" "sint (x mod s :: u64) < int (unat s)"
    unfolding e of_nat_less_iff using lt by auto
qed

lemma election_span:
  assumes "config_ok c"
  shows "(word_of_int (cfgElectionTickMax c - cfgElectionTickMin c) :: u64) \<noteq> 0"
    "0 \<le> sint (x mod word_of_int (cfgElectionTickMax c - cfgElectionTickMin c) :: u64)"
    "sint (x mod word_of_int (cfgElectionTickMax c - cfgElectionTickMin c) :: u64) < cfgElectionTickMax c - cfgElectionTickMin c"
proof -
  define k where "k = nat (cfgElectionTickMax c - cfgElectionTickMin c)"
  have k: "0 < k" "k < 2 ^ 63" "int k = cfgElectionTickMax c - cfgElectionTickMin c"
    using assms by (auto simp: k_def config_ok_def)
  define s :: u64 where "s = word_of_int (cfgElectionTickMax c - cfgElectionTickMin c)"
  have s: "unat s = k" using k unfolding s_def by (simp flip: k(3) add: unat_of_nat_u64)
  show "(word_of_int (cfgElectionTickMax c - cfgElectionTickMin c) :: u64) \<noteq> 0"
    unfolding s_def [symmetric] using s k(1) by auto
  have "0 \<le> sint (x mod s)" "sint (x mod s) < cfgElectionTickMax c - cfgElectionTickMin c"
    using sint_mod_u64 [of s x] s k by simp_all
  then show "0 \<le> sint (x mod word_of_int (cfgElectionTickMax c - cfgElectionTickMin c) :: u64)"
    "sint (x mod word_of_int (cfgElectionTickMax c - cfgElectionTickMin c) :: u64) < cfgElectionTickMax c - cfgElectionTickMin c"
    unfolding s_def by blast+
qed

lemma resetElectionTimer_returns:
  assumes "config_ok (nCfg n)"
  shows "returns (resetElectionTimer n) (\<lambda>n'. keeps n n' \<and> nLeader n' = nLeader n \<and> nElectionElapsed n' = 0 \<and>
    cfgElectionTickMin (nCfg n) \<le> nElectionTimeout n' \<and> nElectionTimeout n' < cfgElectionTickMax (nCfg n))"
proof -
  define s :: u64 where "s = word_of_int (cfgElectionTickMax (nCfg n) - cfgElectionTickMin (nCfg n))"
  have "s \<noteq> 0" "0 \<le> sint (lcg (nRandom n) mod s)"
    "sint (lcg (nRandom n) mod s) < cfgElectionTickMax (nCfg n) - cfgElectionTickMin (nCfg n)"
    using election_span [OF assms] unfolding s_def by blast+
  then show ?thesis unfolding resetElectionTimer_def Let_def s_def [symmetric] by (simp add: keeps_def)
qed

lemma set_outstanding_returns: "nOut n \<noteq> None \<Longrightarrow> returns (set_outstanding n p i) (keeps n)"
  by (auto simp: set_outstanding_def keeps_def)

lemma set_age_returns: "nOutAge n \<noteq> None \<Longrightarrow> returns (set_age n p a) (keeps n)"
  by (auto simp: set_age_def keeps_def)

lemma capped_count_le: "capped_count limit sz first es \<le> length es"
  by (induction limit sz first es rule: capped_count.induct) (auto simp: Let_def)

lemma cappedEntries_nat:
  assumes "room n 0"
  shows "cappedEntries n i = Inr (if snapN n < unat i \<and> unat i \<le> lastN n
    then take (capped_count (if cfgMaxAppendBytes (nCfg n) = 0 then word_of_nat defaultMaxAppendBytes
        else cfgMaxAppendBytes (nCfg n)) 0 True (drop (unat i - snapN n - 1) (nLog n)))
      (drop (unat i - snapN n - 1) (nLog n)) else [])"
proof (cases "snapN n < unat i \<and> unat i \<le> lastN n")
  case True
  define k where "k = capped_count (if cfgMaxAppendBytes (nCfg n) = 0 then word_of_nat defaultMaxAppendBytes
      else cfgMaxAppendBytes (nCfg n)) 0 True (drop (unat i - snapN n - 1) (nLog n))"
  have "k \<le> lastN n + 1 - unat i"
    using capped_count_le [of _ 0 True "drop (unat i - snapN n - 1) (nLog n)"] True by (auto simp: k_def lastN_def add.commute)
  then have k: "unat i + k \<le> lastN n + 1" using True by linarith
  then have u: "unat (i + word_of_nat k) = unat i + k"
    using assms by (simp add: unat_add_u64 unat_of_nat_u64)
  have "\<not> i \<le> sIndex (nSnap n)" "\<not> i > lastIndex n" using True assms by (simp_all add: le_snap not_less le_lastIndex)
  then have "cappedEntries n i = entriesBetween n i (i + word_of_nat k)"
    unfolding cappedEntries_def Let_def k_def using unat_offset True by simp
  also have "\<dots> = Inr (take k (drop (unat i - snapN n - 1) (nLog n)))"
    using entriesBetween_nat [OF assms, of i "i + word_of_nat k"] True u k by simp
  finally show ?thesis using True by (simp add: k_def)
next
  case False
  then show ?thesis using assms by (auto simp: cappedEntries_def le_snap not_less simp flip: not_le simp: le_lastIndex)
qed

text \<open>A message that tells its receiver it has this node's vote.\<close>

definition is_grant :: "Message \<Rightarrow> bool" where
  "is_grant m \<longleftrightarrow> msgType m = MsgVoteResponse \<and> \<not> msgReject m"

definition plain_message :: "Node \<Rightarrow> Message \<Rightarrow> bool" where
  "plain_message n m \<longleftrightarrow> msgFrom m = nID n \<and> \<not> is_grant m"

lemma plain_message_cong: "nID n1 = nID n \<Longrightarrow> plain_message n1 = plain_message n"
  by (simp add: plain_message_def fun_eq_iff)

lemma message_simps [simp]:
  "msgType (message t i j k) = t" "msgFrom (message t i j k) = i" "msgTo (message t i j k) = j"
  "msgTerm (message t i j k) = k" "msgReject (message t i j k) = False" "msgEntries (message t i j k) = []"
  "msgSnapshot (message t i j k) = None" "msgLogIndex (message t i j k) = 0"
  by (simp_all add: message_def)

lemma appendMessage_returns:
  assumes "room n 0" "nOut n \<noteq> None" "nOutAge n \<noteq> None"
  shows "returns (appendMessage n p c origin) (\<lambda>(n', m). keeps n n' \<and> plain_message n m \<and> msgTo m = p)"
proof -
  have out: "returns (set_outstanding n p i) (\<lambda>n1. returns (set_age n1 p 0) (keeps n))" for i
  proof (rule returns_mono [OF set_outstanding_returns [OF assms(2)]])
    fix n1 assume k: "keeps n n1"
    then have "nOutAge n1 \<noteq> None" using assms(3) by (simp add: keeps_def)
    from returns_mono [OF set_age_returns [OF this]] show "returns (set_age n1 p 0) (keeps n)"
      using keeps_trans [OF k] by simp
  qed
  have "returns (rbind (Inr es) (\<lambda>es. if es = [] then Inr (n, m)
      else rbind (set_outstanding n p (eIndex (last es))) (\<lambda>n. rbind (set_age n p 0) (\<lambda>n. Inr (n, m\<lparr>msgEntries := es\<rparr>)))))
      (\<lambda>(n', m). keeps n n' \<and> plain_message n m \<and> msgTo m = p)"
    if "msgFrom m = nID n" "msgType m = MsgAppend" "msgTo m = p" for m es
    using that out by (simp add: plain_message_def is_grant_def)
  then show ?thesis
    unfolding appendMessage_def Let_def cappedEntries_nat [OF assms(1)] returns_if
    by (simp add: plain_message_def is_grant_def)
qed

lemma append_messages_returns:
  assumes "room n 0" "nOut n \<noteq> None" "nOutAge n \<noteq> None"
  shows "returns (append_messages n ps c origin) (\<lambda>(n', ms). keeps n n' \<and> list_all (plain_message n) ms)"
  using assms
proof (induction ps arbitrary: n)
  case (Cons p ps)
  show ?case
    unfolding append_messages.simps returns_rbind
  proof (rule returns_mono [OF appendMessage_returns [OF Cons.prems, of p c origin]], clarify)
    fix n1 m assume k: "keeps n n1" "plain_message n m" "p = msgTo m"
    then have "room n1 0" "nOut n1 \<noteq> None" "nOutAge n1 \<noteq> None" and id: "nID n1 = nID n"
      using Cons.prems by (auto simp: keeps_def same_core_eqs)
    note ih = Cons.IH [OF this(1-3)]
    show "returns (rbind (append_messages n1 ps c origin) (\<lambda>(n, ms). Inr (n, m # ms)))
        (\<lambda>(n', ms). keeps n n' \<and> list_all (plain_message n) ms)"
      unfolding returns_rbind by (rule returns_mono [OF ih]) (use k keeps_trans plain_message_cong [OF id] in auto)
  qed
qed simp

lemma broadcastAppend_returns:
  assumes "node_ok n" "nOut n \<noteq> None" "nOutAge n \<noteq> None"
  shows "returns (broadcastAppend n origin) (\<lambda>(n', ms). keeps n n' \<and> list_all (plain_message n) ms)"
  using append_messages_returns [of n] replicationPeers_ok [OF assms(1)] assms
  by (simp add: broadcastAppend_def Let_def node_ok_def voters_ok_def)

lemma settleOutstanding_returns:
  "nOut n \<noteq> None \<Longrightarrow> returns (settleOutstanding n p) (keeps n)"
  by (simp add: settleOutstanding_def set_outstanding_returns)

lemma expire_loop_returns:
  assumes "nOut n \<noteq> None" "nOutAge n \<noteq> None"
  shows "returns (expire_loop limit n ps) (\<lambda>(n', ex). keeps n n')"
  using assms
proof (induction ps arbitrary: n)
  case (Cons p ps)
  have rest: "returns (expire_loop limit n1 ps) (\<lambda>(n', ex). keeps n n')" if "keeps n n1" for n1
  proof -
    have "nOut n1 \<noteq> None" "nOutAge n1 \<noteq> None" using that Cons.prems by (auto simp: keeps_def)
    from Cons.IH [OF this] show ?thesis by (rule returns_mono) (use that keeps_trans in auto)
  qed
  have "returns (if limit \<le> outstandingAge n1 p
      then rbind (set_outstanding n1 p 0) (\<lambda>n. rbind (expire_loop limit n ps) (\<lambda>(n, ex). Inr (n, p # ex)))
      else expire_loop limit n1 ps) (\<lambda>(n', ex). keeps n n')" if k: "keeps n n1" for n1
  proof -
    have "nOut n1 \<noteq> None" using k Cons.prems by (simp add: keeps_def)
    note so = set_outstanding_returns [OF this]
    have "returns (set_outstanding n1 p 0) (\<lambda>n1. returns (expire_loop limit n1 ps)
        (\<lambda>x. returns (case x of (n, ex) \<Rightarrow> Inr (n, p # ex)) (\<lambda>(n', ex). keeps n n')))"
      by (rule returns_mono [OF so], rule returns_mono [OF rest]) (use k keeps_trans in auto)
    then show ?thesis using rest [OF k] by simp
  qed
  then have "returns (set_age n p a) (\<lambda>n1. returns (if limit \<le> outstandingAge n1 p
      then rbind (set_outstanding n1 p 0) (\<lambda>n. rbind (expire_loop limit n ps) (\<lambda>(n, ex). Inr (n, p # ex)))
      else expire_loop limit n1 ps) (\<lambda>(n', ex). keeps n n'))" for a
    by (intro returns_mono [OF set_age_returns [OF Cons.prems(2)]])
  with rest [of n] show ?case by simp
qed simp

lemma expireOutstanding_returns:
  assumes "nOut n \<noteq> None" "nOutAge n \<noteq> None"
  shows "returns (expireOutstanding n) (\<lambda>(n', ex). keeps n n')"
  using expire_loop_returns [OF assms] by (simp add: expireOutstanding_def Let_def)

section \<open>Reported effects\<close>

text \<open>
  The durable state of a node and what persisting an update makes of it: the contract between the
  node and its stable store.
\<close>

record durable =
  pHard :: HardState
  pSnap :: Snapshot
  pLog :: "Entry list"

definition durable_of :: "Node \<Rightarrow> durable" where
  "durable_of n = \<lparr>pHard = hardState n, pSnap = nSnap n, pLog = nLog n\<rparr>"

definition kept_suffix :: "durable \<Rightarrow> Snapshot \<Rightarrow> Entry list" where
  "kept_suffix p s =
     (let k = unat (sIndex s) - unat (sIndex (pSnap p))
      in if 0 < k \<and> k \<le> length (pLog p) \<and> eTerm (pLog p ! (k - 1)) = sTerm s then drop k (pLog p) else [])"

definition snapshotted :: "durable \<Rightarrow> Snapshot option \<Rightarrow> Snapshot \<times> Entry list" where
  "snapshotted p so = (case so of None \<Rightarrow> (pSnap p, pLog p) | Some s \<Rightarrow>
     if sIndex s \<le> sIndex (pSnap p) then (pSnap p, pLog p) else (s, kept_suffix p s))"

definition truncated :: "u64 \<Rightarrow> Snapshot \<Rightarrow> Entry list \<Rightarrow> Entry list" where
  "truncated t s es = (if t = 0 then es else take (unat t - unat (sIndex s) - 1) es)"

definition persist :: "durable \<Rightarrow> Update \<Rightarrow> durable" where
  "persist p u = (case snapshotted p (uSnapshot u) of (s, es) \<Rightarrow>
     \<lparr>pHard = (case uHard u of None \<Rightarrow> pHard p | Some h \<Rightarrow> h), pSnap = s,
      pLog = truncated (uTruncateFrom u) s es @ uEntries u\<rparr>)"

definition quiet :: "Update \<Rightarrow> bool" where
  "quiet u \<longleftrightarrow> uSnapshot u = None \<and> uTruncateFrom u = 0"

definition mild :: "Update \<Rightarrow> bool" where
  "mild u \<longleftrightarrow> quiet u \<and> uEntries u = [] \<and> uCommitted u = []"

definition no_grants :: "Update \<Rightarrow> bool" where
  "no_grants u \<longleftrightarrow> list_all (\<lambda>m. \<not> is_grant m) (uMessages u)"

definition entries_upto :: "Node \<Rightarrow> nat \<Rightarrow> nat \<Rightarrow> Entry list" where
  "entries_upto n i j = map (\<lambda>k. the (entryAt n k)) [i + 1..<j + 1]"

text \<open>What the log operations of an update may refer to: a cut above the commit index, a newer snapshot.\<close>

definition cuts_ok :: "Node \<Rightarrow> Update \<Rightarrow> bool" where
  "cuts_ok n u \<longleftrightarrow> (uTruncateFrom u = 0 \<or> unat (nCommit n) < unat (uTruncateFrom u) \<and> unat (uTruncateFrom u) \<le> lastN n) \<and>
     (\<forall>s. uSnapshot u = Some s \<longrightarrow> snapN n < unat (sIndex s) \<and> uTruncateFrom u = 0 \<and> uEntries u = [])"

lemma cuts_ok_quiet: "quiet u \<Longrightarrow> cuts_ok n u"
  by (simp add: cuts_ok_def quiet_def)

text \<open>
  One step of a node: configuration kept, term never lowered, at most one vote per term, the update
  reports the durable state, the commit index grows, committed entries stay, and the newly committed
  entries are reported once and in order.
\<close>

definition evolves :: "Node \<Rightarrow> Update \<Rightarrow> Node \<Rightarrow> bool" where
  "evolves n u n' \<longleftrightarrow> wf_node n' \<and> nCfg n' = nCfg n \<and> nInitial n' = nInitial n \<and>
     (nTerm n < nTerm n' \<or> nTerm n' = nTerm n \<and> (nVotedFor n \<noteq> 0 \<longrightarrow> nVotedFor n' = nVotedFor n)) \<and>
     durable_of n' = persist (durable_of n) u \<and> cuts_ok n u \<and>
     nCommit n \<le> nCommit n' \<and>
     (\<forall>i. snapN n' < i \<and> i \<le> unat (nCommit n) \<longrightarrow> entryAt n' i = entryAt n i) \<and>
     uCommitted u = (if uSnapshot u = None then entries_upto n' (unat (nCommit n)) (unat (nCommit n')) else []) \<and>
     (uSnapshot u \<noteq> None \<longrightarrow> nCommit n' = max (nCommit n) (sIndex (nSnap n'))) \<and>
     (\<forall>m \<in> set (uMessages u). msgFrom m = nID n \<and>
        (is_grant m \<longrightarrow> msgTerm m = nTerm n' \<and> msgTo m = nVotedFor n' \<and> nVotedFor n' \<noteq> 0))"

lemma evolvesD:
  assumes "evolves n u n'"
  shows "wf_node n'" "nCfg n' = nCfg n" "nInitial n' = nInitial n"
    "nTerm n < nTerm n' \<or> nTerm n' = nTerm n \<and> (nVotedFor n \<noteq> 0 \<longrightarrow> nVotedFor n' = nVotedFor n)"
    "durable_of n' = persist (durable_of n) u" "nCommit n \<le> nCommit n'"
    "\<And>i. snapN n' < i \<Longrightarrow> i \<le> unat (nCommit n) \<Longrightarrow> entryAt n' i = entryAt n i"
    "uSnapshot u = None \<Longrightarrow> uCommitted u = entries_upto n' (unat (nCommit n)) (unat (nCommit n'))"
    "uSnapshot u \<noteq> None \<Longrightarrow> uCommitted u = []"
    "\<And>m. m \<in> set (uMessages u) \<Longrightarrow> msgFrom m = nID n"
    "\<And>m. m \<in> set (uMessages u) \<Longrightarrow> is_grant m \<Longrightarrow> msgTerm m = nTerm n' \<and> msgTo m = nVotedFor n' \<and> nVotedFor n' \<noteq> 0"
    "cuts_ok n u" "uSnapshot u \<noteq> None \<Longrightarrow> nCommit n' = max (nCommit n) (sIndex (nSnap n'))"
  using assms unfolding evolves_def by (simp_all, auto)

lemma no_update_simps [simp]:
  "uHard no_update = None" "uTruncateFrom no_update = 0" "uEntries no_update = []" "uMessages no_update = []"
  "uCommitted no_update = []" "uSnapshot no_update = None" "uRoleChanged no_update = False" "uDropped no_update = ''''"
  by (simp_all add: no_update_def)

lemma merge_simps [simp]:
  "uHard (merge u v) = (case uHard v of None \<Rightarrow> uHard u | Some h \<Rightarrow> Some h)"
  "uTruncateFrom (merge u v) = (if uTruncateFrom v \<noteq> 0 then uTruncateFrom v else uTruncateFrom u)"
  "uEntries (merge u v) = uEntries u @ uEntries v" "uMessages (merge u v) = uMessages u @ uMessages v"
  "uCommitted (merge u v) = uCommitted u @ uCommitted v"
  "uSnapshot (merge u v) = (case uSnapshot v of None \<Rightarrow> uSnapshot u | Some s \<Rightarrow> Some s)"
  by (simp_all add: merge_def)

lemma merge_no_update [simp]: "merge no_update u = u"
  by (cases u) (simp add: merge_def no_update_def split: option.split)

lemma then_merge_no_update [simp]: "then_merge no_update r = r"
  by (cases r) (auto simp: then_merge_def)

lemma add_messages_simps [simp]:
  "uHard (add_messages u ms) = uHard u" "uTruncateFrom (add_messages u ms) = uTruncateFrom u"
  "uEntries (add_messages u ms) = uEntries u" "uMessages (add_messages u ms) = uMessages u @ ms"
  "uCommitted (add_messages u ms) = uCommitted u" "uSnapshot (add_messages u ms) = uSnapshot u"
  by (simp_all add: add_messages_def)

lemma entries_upto_empty [simp]: "j \<le> i \<Longrightarrow> entries_upto n i j = []"
  by (simp add: entries_upto_def)

lemma entries_upto_append: "i \<le> j \<Longrightarrow> j \<le> k \<Longrightarrow> entries_upto n i j @ entries_upto n j k = entries_upto n i k"
  using upt_add_eq_append [of "i + 1" "j + 1" "k - j"] by (simp add: entries_upto_def flip: map_append)

lemma entries_upto_cong:
  "(\<And>k. i < k \<Longrightarrow> k \<le> j \<Longrightarrow> entryAt n k = entryAt n' k) \<Longrightarrow> entries_upto n i j = entries_upto n' i j"
  unfolding entries_upto_def by (rule map_cong [OF refl]) (simp del: upt_Suc)

lemma entries_upto_slice:
  assumes "snapN n \<le> i" "j \<le> lastN n"
  shows "entries_upto n i j = take (j - i) (drop (i - snapN n) (nLog n))"
proof (rule nth_equalityI)
  show "length (entries_upto n i j) = length (take (j - i) (drop (i - snapN n) (nLog n)))"
    using assms by (auto simp: entries_upto_def lastN_def simp del: upt_Suc)
next
  fix k assume "k < length (entries_upto n i j)"
  then have k: "k < j - i" by (simp add: entries_upto_def del: upt_Suc)
  have "i + 1 + k - snapN n - 1 = i - snapN n + k" using assms(1) by simp
  then show "entries_upto n i j ! k = take (j - i) (drop (i - snapN n) (nLog n)) ! k"
    using assms k by (simp add: entries_upto_def entryAt_def lastN_def del: upt_Suc)
qed

lemma entryAt_same: "nSnap n' = nSnap n \<Longrightarrow> nLog n' = nLog n \<Longrightarrow> entryAt n' i = entryAt n i"
  by (simp add: entryAt_def snapN_def lastN_def)

lemma entryAt_append:
  "nSnap n' = nSnap n \<Longrightarrow> nLog n' = nLog n @ es \<Longrightarrow> i \<le> lastN n \<Longrightarrow> entryAt n' i = entryAt n i"
  by (auto simp: entryAt_def snapN_def lastN_def nth_append)

lemma persist_quiet:
  "quiet u \<Longrightarrow> persist p u = p\<lparr>pHard := (case uHard u of None \<Rightarrow> pHard p | Some h \<Rightarrow> h), pLog := pLog p @ uEntries u\<rparr>"
  by (simp add: persist_def quiet_def snapshotted_def truncated_def)

lemma persist_mild: "uHard u = None \<Longrightarrow> mild u \<Longrightarrow> persist p u = p"
  by (simp add: mild_def persist_quiet)

lemma persist_merge_quiet: "quiet v \<Longrightarrow> persist (persist p u) v = persist p (merge u v)"
  by (simp add: persist_quiet quiet_def) (simp add: persist_def split: prod.split option.split)

lemma snapshotted_hard [simp]: "snapshotted (p\<lparr>pHard := h\<rparr>) so = snapshotted p so"
  by (simp add: snapshotted_def kept_suffix_def Let_def split: option.split)

lemma persist_merge_mild:
  assumes "mild u"
  shows "persist (persist p u) v = persist p (merge u v)"
proof -
  have "persist p u = p\<lparr>pHard := (case uHard u of None \<Rightarrow> pHard p | Some h \<Rightarrow> h)\<rparr>"
    using assms by (simp add: mild_def persist_quiet)
  then show ?thesis
    using assms by (simp add: persist_def [of _ v] persist_def [of p "merge u v"] mild_def quiet_def
        split: prod.split option.split)
qed

lemma persist_add_messages [simp]: "persist p (add_messages u ms) = persist p u"
  by (simp add: persist_def)

lemma evolves_wf: "evolves n u n' \<Longrightarrow> wf_node n'"
  by (simp add: evolves_def)

text \<open>A step that only touches timers, role and bookkeeping.\<close>

lemma evolves_core:
  assumes "same_core n n'" "wf_node n'" "mild u" "uHard u = None" "\<forall>m \<in> set (uMessages u). plain_message n m"
  shows "evolves n u n'"
proof -
  have "durable_of n' = durable_of n" using assms(1) by (simp add: durable_of_def same_core_def hardState_def)
  then show ?thesis
    using assms by (auto simp: evolves_def same_core_eqs same_core_funs persist_mild mild_def quiet_def plain_message_def cuts_ok_quiet)
qed

lemma evolves_keeps:
  "keeps n n' \<Longrightarrow> wf_node n \<Longrightarrow> mild u \<Longrightarrow> uHard u = None \<Longrightarrow> \<forall>m \<in> set (uMessages u). plain_message n m \<Longrightarrow> evolves n u n'"
  using keeps_wf by (intro evolves_core) (auto simp: keeps_def)

lemma evolves_messages:
  assumes "evolves n u n'" "\<forall>m \<in> set ms. plain_message n m"
  shows "evolves n (add_messages u ms) n'"
  using assms by (auto simp: evolves_def plain_message_def cuts_ok_def)

lemma evolves_from_core:
  assumes "same_core n n1" "evolves n1 u n'"
  shows "evolves n u n'"
proof -
  have "durable_of n1 = durable_of n" using assms(1) by (simp add: durable_of_def same_core_def hardState_def)
  then show ?thesis using assms by (auto simp: evolves_def same_core_eqs same_core_funs cuts_ok_def)
qed

lemma evolves_to_keeps:
  assumes "evolves n u n1" "keeps n1 n'"
  shows "evolves n u n'"
proof -
  have c: "same_core n1 n'" using assms(2) by (simp add: keeps_def)
  then have "durable_of n' = durable_of n1" by (simp add: durable_of_def same_core_def hardState_def)
  moreover have "entries_upto n' i j = entries_upto n1 i j" for i j by (simp add: entries_upto_def same_core_funs [OF c])
  ultimately show ?thesis
    using assms keeps_wf [OF assms(2)] by (auto simp: evolves_def same_core_eqs [OF c] same_core_funs [OF c])
qed

lemma evolves_snap: "evolves n u n' \<Longrightarrow> quiet u \<Longrightarrow> nSnap n' = nSnap n \<and> nLog n' = nLog n @ uEntries u"
  by (auto simp: evolves_def persist_quiet durable_of_def)

lemma evolves_nSnap: "evolves n u n' \<Longrightarrow> uSnapshot u = None \<Longrightarrow> nSnap n' = nSnap n"
  by (auto simp: evolves_def persist_def durable_of_def snapshotted_def)

lemma persist_snap_mono: "sIndex (pSnap p) \<le> sIndex (pSnap (persist p u))"
  by (auto simp: persist_def snapshotted_def split: option.split)

lemma evolves_snap_mono: "evolves n u n' \<Longrightarrow> snapN n \<le> snapN n'"
  using persist_snap_mono [of "durable_of n" u]
  by (auto simp: evolves_def durable_of_def snapN_def word_le_nat_alt dest: arg_cong [of _ _ pSnap])

lemma entries_upto_Nil_iff: "entries_upto n i j = [] \<longleftrightarrow> j \<le> i"
  by (auto simp: entries_upto_def)

lemma evolves_commit:
  assumes "evolves n u n'" "mild u"
  shows "nCommit n' = nCommit n"
proof -
  have "nCommit n \<le> nCommit n'" "entries_upto n' (unat (nCommit n)) (unat (nCommit n')) = []"
    using evolvesD(6,8) [OF assms(1)] assms(2) by (simp_all add: mild_def quiet_def)
  then show ?thesis unfolding entries_upto_Nil_iff by (simp add: word_le_nat_alt [symmetric])
qed

lemma evolves_trans:
  assumes "evolves n u n1" "evolves n1 v n2" "no_grants u" "mild u \<or> quiet v \<and> uSnapshot u = None" "wf_node n"
  shows "evolves n (merge u v) n2"
proof -
  note mono = evolves_snap_mono [OF assms(2)]
  have "nCommit n \<le> nCommit n1" "nCommit n1 \<le> nCommit n2" using assms(1,2) by (simp_all add: evolves_def)
  then have c: "unat (nCommit n) \<le> unat (nCommit n1)" "unat (nCommit n1) \<le> unat (nCommit n2)"
    by (simp_all add: word_le_nat_alt)
  have kept: "\<forall>i. snapN n2 < i \<and> i \<le> unat (nCommit n) \<longrightarrow> entryAt n2 i = entryAt n i"
    using evolvesD(7) [OF assms(1)] evolvesD(7) [OF assms(2)] c mono by (metis le_less_trans order_trans)
  have com: "uCommitted (merge u v) = (if uSnapshot (merge u v) = None
      then entries_upto n2 (unat (nCommit n)) (unat (nCommit n2)) else [])"
    using assms(4)
  proof
    assume m: "mild u"
    then have "uCommitted (merge u v) = uCommitted v" "uSnapshot (merge u v) = uSnapshot v" "nCommit n1 = nCommit n"
      using evolves_commit [OF assms(1)] by (simp_all add: mild_def quiet_def split: option.split)
    then show ?thesis using evolvesD(8,9) [OF assms(2)] by simp
  next
    assume q: "quiet v \<and> uSnapshot u = None"
    have "entries_upto n1 (unat (nCommit n)) (unat (nCommit n1)) = entries_upto n2 (unat (nCommit n)) (unat (nCommit n1))"
    proof (rule entries_upto_cong)
      fix k assume k: "unat (nCommit n) < k" "k \<le> unat (nCommit n1)"
      have "snapN n2 = snapN n1" using evolves_snap [OF assms(2)] q by (simp add: snapN_def)
      moreover have "snapN n1 = snapN n" using evolves_nSnap [OF assms(1)] q by (simp add: snapN_def)
      moreover have "snapN n \<le> unat (nCommit n)" using assms(5) by (simp add: wf_node_def node_ok_def)
      ultimately show "entryAt n1 k = entryAt n2 k" using k evolvesD(7) [OF assms(2), of k] by simp
    qed
    then show ?thesis
      using q evolvesD(8) [OF assms(1)] evolvesD(8) [OF assms(2)] entries_upto_append [OF c, of n2] by (simp add: quiet_def)
  qed
  have dur: "durable_of n2 = persist (durable_of n) (merge u v)"
    using assms(4) persist_merge_quiet persist_merge_mild evolvesD(5) [OF assms(1)] evolvesD(5) [OF assms(2)] by auto
  have cuts: "cuts_ok n (merge u v)"
    using assms(4)
  proof
    assume m: "mild u"
    have "nCommit n1 = nCommit n" using evolves_commit [OF assms(1) m] .
    moreover have "nSnap n1 = nSnap n" "nLog n1 = nLog n @ uEntries u"
      using evolves_snap [OF assms(1)] m by (simp_all add: mild_def)
    then have "lastN n1 = lastN n" "snapN n1 = snapN n" using m by (simp_all add: lastN_def snapN_def mild_def)
    ultimately show ?thesis using evolvesD(12) [OF assms(2)] m by (auto simp: cuts_ok_def mild_def quiet_def split: option.splits)
  next
    assume "quiet v \<and> uSnapshot u = None"
    then show ?thesis using evolvesD(12) [OF assms(1)] by (simp add: cuts_ok_def quiet_def)
  qed
  show ?thesis
    unfolding evolves_def
  proof (intro conjI)
    show "\<forall>m \<in> set (uMessages (merge u v)). msgFrom m = nID n \<and>
        (is_grant m \<longrightarrow> msgTerm m = nTerm n2 \<and> msgTo m = nVotedFor n2 \<and> nVotedFor n2 \<noteq> 0)"
      using evolvesD(10) [OF assms(1)] evolvesD(10,11) [OF assms(2)] evolvesD(2) [OF assms(1)] assms(3)
      by (auto simp: no_grants_def list_all_iff)
    show "nTerm n < nTerm n2 \<or> nTerm n2 = nTerm n \<and> (nVotedFor n \<noteq> 0 \<longrightarrow> nVotedFor n2 = nVotedFor n)"
      using evolvesD(4) [OF assms(1)] evolvesD(4) [OF assms(2)] by auto
    show "uSnapshot (merge u v) \<noteq> None \<longrightarrow> nCommit n2 = max (nCommit n) (sIndex (nSnap n2))"
      using evolvesD(13) [OF assms(2)] evolves_commit [OF assms(1)] assms(4) by (auto simp: mild_def quiet_def split: option.splits)
  qed (use evolvesD(1-3,6) [OF assms(1)] evolvesD(1-3,6) [OF assms(2)] kept com dur cuts in auto)
qed

end
