(* ===== verification/Raft_Steps.thy ===== *)
theory Raft_Steps
  imports Raft_Inv
begin

text \<open>
  Every method of the node evolves it: the lemmas of this theory go through the methods in the order
  of the calls, each in one step from the lemmas of the methods it calls.
\<close>

section \<open>Steps that keep the log\<close>

definition same_log :: "Node \<Rightarrow> Node \<Rightarrow> bool" where
  "same_log n n' \<longleftrightarrow> nCfg n' = nCfg n \<and> nSnap n' = nSnap n \<and> nLog n' = nLog n \<and> nCommit n' = nCommit n \<and>
     nInitial n' = nInitial n \<and> nMembership n' = nMembership n"

lemma same_log_refl [simp]: "same_log n n"
  by (simp add: same_log_def)

lemma same_core_same_log: "same_core n n' \<Longrightarrow> same_log n n'"
  by (simp add: same_core_def same_log_def)

lemma same_log_trans: "same_log a b \<Longrightarrow> same_log b c \<Longrightarrow> same_log a c"
  by (simp add: same_log_def)

lemma same_log_node_ok: "same_log n n' \<Longrightarrow> node_ok n' = node_ok n"
  by (simp add: same_log_def node_ok_def snapN_def lastN_def base_membership_def)

lemma same_log_eqs:
  assumes "same_log n n'"
  shows "lastN n' = lastN n" "snapN n' = snapN n" "lastIndex n' = lastIndex n" "nID n' = nID n" "nCommit n' = nCommit n"
    "nSnap n' = nSnap n" "nLog n' = nLog n" "nMembership n' = nMembership n" "nInitial n' = nInitial n" "nCfg n' = nCfg n"
    "termAt n' i = termAt n i" "peers n' = peers n" "entryAt n' k = entryAt n k"
  using assms by (simp_all add: same_log_def lastN_def snapN_def lastIndex_def termAt_def peers_def entryAt_def)

lemma evolves_same_log:
  assumes "same_log n n'" "wf_node n'" "mild u"
    and "nTerm n < nTerm n' \<or> nTerm n' = nTerm n \<and> (nVotedFor n \<noteq> 0 \<longrightarrow> nVotedFor n' = nVotedFor n)"
    and "uHard u = None \<and> hardState n' = hardState n \<or> uHard u = Some (hardState n')"
    and "\<forall>m \<in> set (uMessages u). msgFrom m = nID n \<and>
        (is_grant m \<longrightarrow> msgTerm m = nTerm n' \<and> msgTo m = nVotedFor n' \<and> nVotedFor n' \<noteq> 0)"
  shows "evolves n u n'"
proof -
  have "durable_of n' = persist (durable_of n) u"
    using assms(1,3,5) by (auto simp: durable_of_def same_log_def mild_def persist_quiet)
  moreover have "uCommitted u = []" using assms(3) by (simp add: mild_def)
  ultimately show ?thesis
    unfolding evolves_def using assms(2,4,6) same_log_eqs [OF assms(1)] cuts_ok_quiet assms(3) by (auto simp: mild_def quiet_def)
qed

lemma mild_no_update [simp]: "mild no_update" "quiet no_update" "no_grants no_update"
  by (simp_all add: mild_def quiet_def no_grants_def)

lemma mild_update [simp]:
  "mild (u\<lparr>uHard := h\<rparr>) = mild u" "mild (u\<lparr>uRoleChanged := c\<rparr>) = mild u" "mild (u\<lparr>uMessages := ms\<rparr>) = mild u"
  "mild (u\<lparr>uDropped := d\<rparr>) = mild u" "mild (add_messages u ms) = mild u"
  by (simp_all add: mild_def quiet_def)

lemma quiet_update [simp]:
  "quiet (u\<lparr>uHard := h\<rparr>) = quiet u" "quiet (u\<lparr>uRoleChanged := c\<rparr>) = quiet u" "quiet (u\<lparr>uMessages := ms\<rparr>) = quiet u"
  "quiet (u\<lparr>uEntries := es\<rparr>) = quiet u" "quiet (u\<lparr>uCommitted := es\<rparr>) = quiet u" "quiet (add_messages u ms) = quiet u"
  "quiet u \<Longrightarrow> quiet v \<Longrightarrow> quiet (merge u v)"
  by (simp_all add: quiet_def)

lemma no_grants_simps [simp]:
  "no_grants (merge u v) \<longleftrightarrow> no_grants u \<and> no_grants v"
  "no_grants (add_messages u ms) \<longleftrightarrow> no_grants u \<and> list_all (\<lambda>m. \<not> is_grant m) ms"
  "no_grants (u\<lparr>uMessages := ms\<rparr>) \<longleftrightarrow> list_all (\<lambda>m. \<not> is_grant m) ms"
  "no_grants (u\<lparr>uHard := h\<rparr>) = no_grants u" "no_grants (u\<lparr>uRoleChanged := c\<rparr>) = no_grants u"
  "no_grants (u\<lparr>uEntries := es\<rparr>) = no_grants u" "no_grants (u\<lparr>uCommitted := es\<rparr>) = no_grants u"
  by (simp_all add: no_grants_def)

lemma mild_quiet: "mild u \<Longrightarrow> quiet u"
  by (simp add: mild_def)

text \<open>The postcondition of the role changes.\<close>

definition steps_down :: "Node \<Rightarrow> u64 \<Rightarrow> u64 \<Rightarrow> Node \<Rightarrow> Update \<Rightarrow> bool" where
  "steps_down n term leader n' u \<longleftrightarrow> evolves n u n' \<and> mild u \<and> uMessages u = [] \<and> same_log n n' \<and>
     nRole n' = Follower \<and> nTerm n' = term \<and> nLeader n' = leader \<and> nVotes n' = Map.empty \<and>
     nVotedFor n' = (if term > nTerm n then 0 else nVotedFor n) \<and> (armed n \<longrightarrow> armed n')"

lemma becomeFollower_returns:
  assumes "wf_node n" "nTerm n \<le> term"
  shows "returns (becomeFollower n term leader) (\<lambda>(n', u). steps_down n term leader n' u)"
proof -
  define n1 where "n1 = (if term > nTerm n then n\<lparr>nTerm := term, nVotedFor := 0\<rparr> else n)\<lparr>nRole := Follower,
    nLeader := leader, nVotes := Map.empty\<rparr>"
  have n1: "same_log n n1" "nRole n1 = Follower" "nTerm n1 = term" "nLeader n1 = leader" "nVotes n1 = Map.empty"
    "armed n1 = armed n" "nVotedFor n1 = (if term > nTerm n then 0 else nVotedFor n)"
    using assms(2) by (auto simp: n1_def same_log_def armed_def)
  have "config_ok (nCfg n1)" using assms(1) n1(1) by (simp add: same_log_def wf_node_def node_ok_def)
  note reset = resetElectionTimer_returns [OF this]
  have fin: "steps_down n term leader n' (no_update\<lparr>uRoleChanged := c,
      uHard := (if term \<noteq> nTerm n \<or> term > nTerm n \<and> nVotedFor n \<noteq> 0 then Some (hardState n') else None)\<rparr>)"
    if k: "keeps n1 n'" and l: "nLeader n' = nLeader n1" for n' c
  proof -
    have c: "same_core n1 n'" using k by (simp add: keeps_def)
    have sl: "same_log n n'" using n1(1) c same_core_same_log same_log_trans by blast
    have wf': "wf_node n'" using assms(1) sl k n1(2) by (auto simp: wf_node_def same_log_node_ok keeps_def)
    have eqs: "nRole n' = Follower" "nTerm n' = term" "nLeader n' = leader" "nVotes n' = Map.empty"
      "nVotedFor n' = (if term > nTerm n then 0 else nVotedFor n)"
      using k l n1 by (auto simp: keeps_def same_core_eqs [OF c])
    have "evolves n (no_update\<lparr>uRoleChanged := c,
        uHard := (if term \<noteq> nTerm n \<or> term > nTerm n \<and> nVotedFor n \<noteq> 0 then Some (hardState n') else None)\<rparr>) n'"
      using assms(2) eqs by (intro evolves_same_log sl wf') (auto simp: hardState_def)
    moreover have "armed n \<longrightarrow> armed n'" using k n1(6) keeps_armed by blast
    ultimately show ?thesis unfolding steps_down_def using sl eqs by simp
  qed
  have eq: "becomeFollower n term leader = rbind (resetElectionTimer n1) (\<lambda>n'. Inr (n',
      no_update\<lparr>uRoleChanged := (nRole n \<noteq> Follower \<or> nTerm n \<noteq> term),
      uHard := (if term \<noteq> nTerm n \<or> term > nTerm n \<and> nVotedFor n \<noteq> 0 then Some (hardState n') else None)\<rparr>))"
    by (simp add: becomeFollower_def Let_def n1_def)
  show ?thesis unfolding eq returns_rbind by (rule returns_mono [OF reset]) (use fin in auto)
qed

section \<open>Commit\<close>

lemma commit_candidate_spec:
  assumes "nCommit n \<le> c"
  shows "nCommit n \<le> commit_candidate n c \<and> commit_candidate n c \<le> c \<and>
    (commit_candidate n c > nCommit n \<longrightarrow> termAt n (commit_candidate n c) = nTerm n \<and>
      hasQuorum (nMembership n) (\<lambda>x. mget (nMatch n) x \<ge> commit_candidate n c)) \<and>
    (\<forall>i. commit_candidate n c < i \<and> i \<le> c \<longrightarrow>
      \<not> (termAt n i = nTerm n \<and> hasQuorum (nMembership n) (\<lambda>x. mget (nMatch n) x \<ge> i)))"
  using assms
proof (induction n c rule: commit_candidate.induct)
  case (1 n c)
  show ?case
  proof (cases "c > nCommit n \<and> \<not> (termAt n c = nTerm n \<and> hasQuorum (nMembership n) (\<lambda>x. mget (nMatch n) x \<ge> c))")
    case False
    then show ?thesis using "1.prems" by (auto simp: commit_candidate.simps [of n c])
  next
    case True
    then have u: "unat (c - 1) = unat c - 1" "unat (nCommit n) < unat c"
      by (auto simp: word_less_nat_alt unat_sub_u64 word_le_nat_alt)
    then have le: "nCommit n \<le> c - 1" "c - 1 < c" by (simp_all add: word_le_nat_alt word_less_nat_alt)
    have step: "commit_candidate n c = commit_candidate n (c - 1)"
      using True by (auto simp: commit_candidate.simps [of n c])
    have split: "i \<le> c \<longleftrightarrow> i = c \<or> i \<le> c - 1" for i
      using u by (auto simp: word_le_nat_alt word_unat_eq_iff)
    from "1.IH" [OF _ _ le(1)] True show ?thesis
      unfolding step split using le(2) by auto
  qed
qed

lemma all_nth_append:
  "(\<forall>i < length (xs @ ys). P i ((xs @ ys) ! i)) \<longleftrightarrow>
   (\<forall>i < length xs. P i (xs ! i)) \<and> (\<forall>j < length ys. P (length xs + j) (ys ! j))"
proof (intro iffI conjI allI impI)
  fix i assume a: "(\<forall>i < length xs. P i (xs ! i)) \<and> (\<forall>j < length ys. P (length xs + j) (ys ! j))" "i < length (xs @ ys)"
  then show "P i ((xs @ ys) ! i)"
    using a(1) [THEN conjunct2, rule_format, of "i - length xs"] by (cases "i < length xs") (auto simp: nth_append)
next
  fix i assume a: "\<forall>i < length (xs @ ys). P i ((xs @ ys) ! i)"
  show "P i (xs ! i)" if "i < length xs" using a [rule_format, of i] that by (simp add: nth_append)
  show "P (length xs + i) (ys ! i)" if "i < length ys" using a [rule_format, of "length xs + i"] that by simp
qed

lemma contiguous_append:
  "contiguous base (xs @ ys) \<longleftrightarrow> contiguous base xs \<and> contiguous (base + length xs) ys"
  unfolding contiguous_def all_nth_append [where P = "\<lambda>i e. unat (eIndex e) = base + i + 1 \<and> eTerm e \<noteq> 0"]
  by (simp add: ac_simps)

lemma contiguous_simps [simp]:
  "contiguous base []" "contiguous base [e] \<longleftrightarrow> unat (eIndex e) = base + 1 \<and> eTerm e \<noteq> 0"
  by (auto simp: contiguous_def)

lemma base_membership_update [simp]:
  "base_membership (n\<lparr>nLog := l\<rparr>) = base_membership n" "base_membership (n\<lparr>nMembership := m\<rparr>) = base_membership n"
  "base_membership (n\<lparr>nCommit := c\<rparr>) = base_membership n"
  by (simp_all add: base_membership_def)

text \<open>Entries appended to the log, with the configuration they spell out.\<close>

lemma append_entries_ok:
  assumes "node_ok n" "room n (length es)" "contiguous (lastN n) es"
    and "fold_membership (nMembership n) es = Inr m"
  shows "node_ok (n\<lparr>nLog := nLog n @ es, nMembership := m\<rparr>)"
proof -
  have "fold_membership (base_membership n) (nLog n @ es) = Inr m"
    using assms(1,4) by (simp add: fold_membership_append node_ok_def)
  then show ?thesis
    using assms by (simp add: node_ok_def snapN_def lastN_def contiguous_append)
qed

lemma rebuild_append:
  assumes "node_ok n" "fold_membership (nMembership n) es = Inr m"
  shows "rebuildMembership (n\<lparr>nLog := nLog n @ es\<rparr>) = Inr (n\<lparr>nLog := nLog n @ es, nMembership := m\<rparr>)"
  using assms by (simp add: rebuildMembership_def node_ok_def fold_membership_append)

text \<open>Steps that cut the log above the commit index, append to it and advance the commit index.\<close>

lemma entryAt_truncated:
  assumes "nSnap n' = nSnap n" "nLog n' = truncated t (nSnap n) (nLog n) @ es" "t = 0 \<or> unat c < unat t"
    and "i \<le> unat c" "unat c \<le> lastN n"
  shows "entryAt n' i = entryAt n i"
proof (cases "t = 0")
  case True
  then show ?thesis using assms entryAt_append [of n' n es i] by (simp add: truncated_def)
next
  case False
  then have t: "i < unat t" using assms by simp
  let ?k = "unat t - snapN n - 1"
  have log: "nLog n' = take ?k (nLog n) @ es" using False assms(2) by (simp add: truncated_def snapN_def)
  have "nLog n' ! (i - snapN n - 1) = nLog n ! (i - snapN n - 1)" "i \<le> lastN n'" if "snapN n < i"
  proof -
    have "i - snapN n - 1 < length (take ?k (nLog n))" using that t assms(4,5) by (auto simp: lastN_def)
    then show "nLog n' ! (i - snapN n - 1) = nLog n ! (i - snapN n - 1)" "i \<le> lastN n'"
      using that assms(1) unfolding log by (auto simp: nth_append lastN_def log snapN_def)
  qed
  then show ?thesis using assms(1,4,5) by (auto simp: entryAt_def snapN_def)
qed

lemma evolves_log:
  assumes "wf_node n" "wf_node n'" "nCfg n' = nCfg n" "nInitial n' = nInitial n" "nSnap n' = nSnap n"
    and "hardState n' = hardState n" "nLog n' = truncated (uTruncateFrom u) (nSnap n) (nLog n) @ uEntries u"
    and "uTruncateFrom u = 0 \<or> unat (nCommit n) < unat (uTruncateFrom u) \<and> unat (uTruncateFrom u) \<le> lastN n"
    and "nCommit n \<le> nCommit n'" "uSnapshot u = None" "uHard u = None"
    and "uCommitted u = entries_upto n' (unat (nCommit n)) (unat (nCommit n'))"
    and "\<forall>m \<in> set (uMessages u). plain_message n m"
  shows "evolves n u n'"
proof -
  have "durable_of n' = persist (durable_of n) u"
    using assms(5-7,10,11) by (simp add: durable_of_def persist_def snapshotted_def)
  moreover have "unat (nCommit n) \<le> lastN n" using assms(1) by (simp add: wf_node_def node_ok_def)
  moreover have "uTruncateFrom u = 0 \<or> unat (nCommit n) < unat (uTruncateFrom u)" using assms(8) by blast
  note keep = entryAt_truncated [OF assms(5,7) this _ calculation(2)]
  moreover have "cuts_ok n u" using assms(8,10) by (simp add: cuts_ok_def)
  ultimately show ?thesis
    unfolding evolves_def using assms(2-4,6,9,10,12,13) by (auto simp: hardState_def plain_message_def)
qed

lemma evolves_append:
  assumes "wf_node n" "wf_node n'" "nCfg n' = nCfg n" "nInitial n' = nInitial n" "nSnap n' = nSnap n"
    and "hardState n' = hardState n" "nLog n' = nLog n @ uEntries u" "nCommit n \<le> nCommit n'" "quiet u" "uHard u = None"
    and "uCommitted u = entries_upto n' (unat (nCommit n)) (unat (nCommit n'))"
    and "\<forall>m \<in> set (uMessages u). plain_message n m"
  shows "evolves n u n'"
  using assms by (intro evolves_log) (simp_all add: quiet_def truncated_def)

lemma entriesBetween_upto:
  assumes "room n 0" "snapN n \<le> unat c" "unat c \<le> unat c'" "unat c' \<le> lastN n"
  shows "entriesBetween n (c + 1) (c' + 1) = Inr (entries_upto n (unat c) (unat c'))"
proof -
  have "unat (c + 1) = unat c + 1" "unat (c' + 1) = unat c' + 1" using assms by (simp_all add: unat_inc_u64)
  then show ?thesis
    using entriesBetween_nat [of n "c + 1" "c' + 1"] entries_upto_slice [of n "unat c" "unat c'"] assms by simp
qed

lemma final_entry_ok:
  assumes "node_ok n" "JointVoters (nMembership n) \<noteq> []"
  shows "fold_membership (nMembership n) [final_entry n] =
    Inr \<lparr>Voters = JointVoters (nMembership n), JointVoters = [], mbIndex = lastIndex n + 1\<rparr>"
proof -
  let ?c = "\<lparr>cPhase = configFinal, cOld = [], cNew = JointVoters (nMembership n)\<rparr>"
  have "command_ok ?c"
    using node_ok_membership [OF assms(1)] assms(2) by (simp add: command_ok_def membership_ok_def)
  from decode_encode [OF this] show ?thesis
    using assms(2) by (simp add: final_entry_def applyMembership_def)
qed

text \<open>What a leader may append before it commits: same term and vote, the role kept.\<close>

definition extends :: "Node \<Rightarrow> Entry list \<Rightarrow> Node \<Rightarrow> bool" where
  "extends n es n' \<longleftrightarrow> node_ok n' \<and> nCfg n' = nCfg n \<and> nInitial n' = nInitial n \<and> nSnap n' = nSnap n \<and>
     nTerm n' = nTerm n \<and> nVotedFor n' = nVotedFor n \<and> nLog n' = nLog n @ es \<and> nCommit n' = nCommit n \<and>
     nRole n' = nRole n \<and> nVotes n' = nVotes n \<and> nOut n' = nOut n \<and> nOutAge n' = nOutAge n"

lemma append_final_returns:
  assumes "node_ok n" "room n 1" "nTerm n \<noteq> 0"
  shows "returns (append_final n) (\<lambda>(n', es). extends n es n' \<and> length es \<le> 1 \<and>
    (JointVoters (nMembership n) = [] \<longrightarrow> es = [] \<and> nMembership n' = nMembership n))"
proof (cases "JointVoters (nMembership n) \<noteq> [] \<and> mbIndex (nMembership n) \<le> nCommit n")
  case True
  let ?e = "final_entry n"
  let ?m = "\<lparr>Voters = JointVoters (nMembership n), JointVoters = [], mbIndex = lastIndex n + 1\<rparr>"
  have "contiguous (lastN n) [?e]" using assms by (simp add: final_entry_def unat_lastIndex_inc)
  then have ok: "node_ok (n\<lparr>nLog := nLog n @ [?e], nMembership := ?m\<rparr>)"
    using assms True final_entry_ok by (intro append_entries_ok) simp_all
  have "rebuildMembership (n\<lparr>nLog := nLog n @ [?e]\<rparr>) = Inr (n\<lparr>nLog := nLog n @ [?e], nMembership := ?m\<rparr>)"
    using assms(1) True final_entry_ok by (intro rebuild_append) simp_all
  then have "append_final n = Inr (n\<lparr>nLog := nLog n @ [?e], nMembership := ?m,
      nMatch := (nMatch n)(nID n \<mapsto> eIndex ?e), nNext := (nNext n)(nID n \<mapsto> eIndex ?e + 1)\<rparr>, [?e])"
    using True by (simp add: append_final_def Let_def)
  moreover have "node_ok (n\<lparr>nLog := nLog n @ [?e], nMembership := ?m,
      nMatch := (nMatch n)(nID n \<mapsto> eIndex ?e), nNext := (nNext n)(nID n \<mapsto> eIndex ?e + 1)\<rparr>)"
    using ok by (subst same_core_node_ok [of "n\<lparr>nLog := nLog n @ [?e], nMembership := ?m\<rparr>"]) simp_all
  ultimately show ?thesis using True by (simp add: extends_def)
next
  case False
  then have "append_final n = Inr (n, [])" by (auto simp: append_final_def)
  then show ?thesis using assms(1) by (simp add: extends_def)
qed

text \<open>What the methods of a leader have in common.\<close>

definition leads :: "Node \<Rightarrow> Update \<Rightarrow> Node \<Rightarrow> bool" where
  "leads n u n' \<longleftrightarrow> evolves n u n' \<and> quiet u \<and> no_grants u \<and> armed n' \<and> nTerm n' = nTerm n \<and>
     nVotedFor n' = nVotedFor n \<and> (nRole n' = nRole n \<or> nRole n' = Follower) \<and>
     (JointVoters (nMembership n) = [] \<longrightarrow> nMembership n' = nMembership n)"

lemma no_grants_plain: "list_all (plain_message n) ms \<Longrightarrow> list_all (\<lambda>m. \<not> is_grant m) ms"
  by (auto simp: list_all_iff plain_message_def)

lemma leads_step_down:
  assumes "leads n u n1" "wf_node n" "wf_node n1"
  shows "returns (then_merge u (becomeFollower n1 (nTerm n1) 0))
    (\<lambda>(n', v). leads n v n' \<and> uEntries v = uEntries u \<and> nCommit n' = nCommit n1)"
  unfolding then_merge_def returns_rbind
proof (rule returns_mono [OF becomeFollower_returns [OF assms(3) order_refl]], clarify)
  fix n' v assume "steps_down n1 (nTerm n1) 0 n' v"
  then have sd: "evolves n1 v n'" "mild v" "uMessages v = []" "nRole n' = Follower" "nTerm n' = nTerm n1"
    "nVotedFor n' = nVotedFor n1" "armed n'" "same_log n1 n'"
    using assms(1) by (simp_all add: steps_down_def leads_def)
  have "evolves n (merge u v) n'"
    using assms sd by (intro evolves_trans) (auto simp: leads_def quiet_def mild_def)
  then show "returns (Inr (n', merge u v)) (\<lambda>(n', v). leads n v n' \<and> uEntries v = uEntries u \<and> nCommit n' = nCommit n1)"
    using sd assms(1) by (auto simp: leads_def no_grants_def mild_def same_log_eqs [OF sd(8)])
qed

text \<open>The messages of \<open>maybeCommit\<close>, after the commit index has moved to \<open>c\<close>.\<close>

lemma commit_sends_returns:
  assumes "wf_node n" "nRole n = Leader" "nCommit n \<le> c" "unat c \<le> lastN n"
    and "extends (n\<lparr>nCommit := c\<rparr>) es n2" "length es \<le> 1"
    and "JointVoters (nMembership n) = [] \<longrightarrow> es = [] \<and> nMembership n2 = nMembership n"
  shows "returns (rbind (broadcastAppend n2 OriginCommitAdvance) (\<lambda>(n3, ms).
      let u = no_update\<lparr>uCommitted := entries_upto n (unat (nCommit n)) (unat c), uEntries := es, uMessages := ms\<rparr>
      in if mbIndex (nMembership n3) \<le> nCommit n3 \<and> \<not> isVoter n3 (nID n3)
         then then_merge u (becomeFollower n3 (nTerm n3) 0) else Inr (n3, u)))
    (\<lambda>(n', u). leads n u n' \<and> length (uEntries u) \<le> 1 \<and> nCommit n' = c)"
proof -
  have a2: "nOut n2 \<noteq> None" "nOutAge n2 \<noteq> None" "node_ok n2" and id2: "nID n2 = nID n" and t: "nTerm n \<noteq> 0"
    using assms(1,2,5) by (simp_all add: extends_def wf_node_def armed_def)
  have "returns (let u = no_update\<lparr>uCommitted := entries_upto n (unat (nCommit n)) (unat c), uEntries := es, uMessages := ms\<rparr>
      in if mbIndex (nMembership n3) \<le> nCommit n3 \<and> \<not> isVoter n3 (nID n3)
         then then_merge u (becomeFollower n3 (nTerm n3) 0) else Inr (n3, u))
      (\<lambda>(n', u). leads n u n' \<and> length (uEntries u) \<le> 1 \<and> nCommit n' = c)"
    if k: "keeps n2 n3" and ms: "list_all (plain_message n2) ms" for n3 ms
  proof -
    define u where "u = no_update\<lparr>uCommitted := entries_upto n (unat (nCommit n)) (unat c), uEntries := es, uMessages := ms\<rparr>"
    have c3: "same_core n2 n3" using k by (simp add: keeps_def)
    have f3: "nCfg n3 = nCfg n" "nInitial n3 = nInitial n" "nSnap n3 = nSnap n" "hardState n3 = hardState n"
      "nLog n3 = nLog n @ es" "nCommit n3 = c" "nTerm n3 = nTerm n" "nVotedFor n3 = nVotedFor n" "nRole n3 = Leader"
      "nMembership n3 = nMembership n2"
      using assms(2,5) k c3 by (simp_all add: extends_def same_core_def hardState_def keeps_def)
    have arm3: "armed n3" using k a2 keeps_armed by (auto simp: armed_def)
    have wf3: "wf_node n3" using a2(3) same_core_node_ok [OF c3] arm3 f3(7) t by (simp add: wf_node_def)
    have "entries_upto n (unat (nCommit n)) (unat c) = entries_upto n3 (unat (nCommit n)) (unat c)"
      using assms(4) f3(3,5) by (intro entries_upto_cong entryAt_append [symmetric, of _ _ es]) simp_all
    moreover have "\<forall>m \<in> set ms. plain_message n m" using ms plain_message_cong [OF id2] by (simp add: list_all_iff)
    ultimately have ev: "evolves n u n3"
      using assms(1,3) wf3 f3 by (intro evolves_append) (auto simp: u_def)
    have ld: "leads n u n3" "length (uEntries u) \<le> 1"
      using ev ms no_grants_plain arm3 f3 assms(2,6,7) by (auto simp: leads_def u_def)
    from returns_mono [OF leads_step_down [OF ld(1) assms(1) wf3]] ld f3(6)
    have "returns (then_merge u (becomeFollower n3 (nTerm n3) 0))
        (\<lambda>(n', u). leads n u n' \<and> length (uEntries u) \<le> 1 \<and> nCommit n' = c)" by fastforce
    with ld f3(6) show ?thesis unfolding u_def [symmetric] Let_def by simp
  qed
  then show ?thesis
    unfolding returns_rbind by (intro returns_mono [OF broadcastAppend_returns [OF a2(3) a2(1,2)]]) auto
qed

lemma maybeCommit_returns:
  assumes "wf_node n" "nRole n = Leader" "room n 1"
  shows "returns (maybeCommit n) (\<lambda>(n', u). leads n u n' \<and> length (uEntries u) \<le> 1 \<and>
    nCommit n' = commit_candidate n (lastIndex n))"
proof -
  have ok: "node_ok n" "armed n" "nTerm n \<noteq> 0" using assms(1,2) by (simp_all add: wf_node_def)
  then have com: "snapN n \<le> unat (nCommit n)" "unat (nCommit n) \<le> lastN n" "room n 0" by (simp_all add: node_ok_def)
  define c where "c = commit_candidate n (lastIndex n)"
  have "nCommit n \<le> lastIndex n" using com by (simp add: le_lastIndex)
  note spec = commit_candidate_spec [OF this, folded c_def]
  then have c: "unat (nCommit n) \<le> unat c" "unat c \<le> lastN n" using com by (auto simp: word_le_nat_alt unat_lastIndex)
  show ?thesis
  proof (cases "c \<le> nCommit n")
    case True
    then have "c = nCommit n" using spec by auto
    moreover have "evolves n no_update n" using assms(1) by (intro evolves_keeps) simp_all
    ultimately show ?thesis using True ok by (simp add: maybeCommit_def Let_def leads_def flip: c_def)
  next
    case False
    define n1 where "n1 = n\<lparr>nCommit := c\<rparr>"
    have same1: "snapN n1 = snapN n" "lastN n1 = lastN n" "nCommit n1 = c" "entryAt n1 i = entryAt n i" for i
      by (simp_all add: n1_def snapN_def lastN_def entryAt_def)
    have ok1: "node_ok n1" "room n1 1" "nTerm n1 \<noteq> 0"
      using ok com c assms(3) by (auto simp: n1_def node_ok_def snapN_def lastN_def)
    have "entriesBetween n1 (nCommit n + 1) (c + 1) = Inr (entries_upto n1 (unat (nCommit n)) (unat c))"
      using com c same1 by (intro entriesBetween_upto) simp_all
    moreover have "entries_upto n1 i j = entries_upto n i j" for i j by (simp add: entries_upto_def same1)
    ultimately have eq: "maybeCommit n = rbind (append_final n1) (\<lambda>(n2, es).
        rbind (broadcastAppend n2 OriginCommitAdvance) (\<lambda>(n3, ms).
          let u = no_update\<lparr>uCommitted := entries_upto n (unat (nCommit n)) (unat c), uEntries := es, uMessages := ms\<rparr>
          in if mbIndex (nMembership n3) \<le> nCommit n3 \<and> \<not> isVoter n3 (nID n3)
             then then_merge u (becomeFollower n3 (nTerm n3) 0) else Inr (n3, u)))"
      using False by (simp add: maybeCommit_def Let_def n1_def [symmetric] c_def [symmetric] same1(3))
    have "nCommit n \<le> c" using c(1) by (simp add: word_le_nat_alt)
    from commit_sends_returns [OF assms(1,2) this c(2)] show ?thesis
      unfolding eq returns_rbind [of "append_final n1"] c_def [symmetric]
      by (intro returns_mono [OF append_final_returns [OF ok1]]) (auto simp: n1_def)
  qed
qed

section \<open>Elections\<close>

lemma decode_Nil [simp]: "decodeMembership [] = Inr None"
  by (simp add: decodeMembership_def)

definition noop_entry :: "Node \<Rightarrow> Entry" where
  "noop_entry n = \<lparr>eIndex = lastIndex n + 1, eTerm = nTerm n, eData = []\<rparr>"

text \<open>What winning an election does: at most a no-op and the final configuration are appended.\<close>

definition wins :: "Node \<Rightarrow> Update \<Rightarrow> Node \<Rightarrow> bool" where
  "wins n u n' \<longleftrightarrow> evolves n u n' \<and> quiet u \<and> no_grants u \<and> armed n' \<and> nTerm n' = nTerm n \<and>
     nVotedFor n' = nVotedFor n \<and> (nRole n' = Leader \<or> nRole n' = Follower) \<and>
     (JointVoters (nMembership n) = [] \<longrightarrow> nMembership n' = nMembership n)"

lemma extends_evolves:
  assumes "wf_node n" "extends n es n1" "keeps n1 n2" "wf_node n2" "uEntries u = es" "quiet u" "uHard u = None" "uCommitted u = []"
    and "list_all (plain_message n1) (uMessages u)"
  shows "evolves n u n2"
proof -
  have c: "same_core n1 n2" using assms(3) by (simp add: keeps_def)
  have f: "nCfg n2 = nCfg n" "nInitial n2 = nInitial n" "nSnap n2 = nSnap n" "hardState n2 = hardState n"
    "nLog n2 = nLog n @ es" "nCommit n2 = nCommit n"
    using assms(2) c by (simp_all add: extends_def same_core_def hardState_def)
  have "nID n1 = nID n" using assms(2) by (simp add: extends_def)
  then show ?thesis
    using assms f plain_message_cong [of n1 n] by (intro evolves_append) (auto simp: list_all_iff)
qed

lemma becomeLeader_returns:
  assumes "wf_node n" "nTerm n \<noteq> 0" "room n 2"
  shows "returns (becomeLeader n) (\<lambda>(n', u). wins n u n')"
proof -
  have ok: "node_ok n" "room n 0" using assms(1,3) by (simp_all add: wf_node_def)
  define e where "e = noop_entry n"
  define n1 where "n1 = n\<lparr>nRole := Leader, nLeader := nID n, nHeartbeatElapsed := 0, nQuorumElapsed := 0,
      nNext := (\<lambda>p. if p \<in> set (peers n) then Some (lastIndex n + 1) else None)(nID n \<mapsto> eIndex e + 1),
      nMatch := [nID n \<mapsto> eIndex e], nActive := Map.empty,
      nOut := Some Map.empty, nOutAge := Some Map.empty, nLog := nLog n @ [e]\<rparr>"
  have c1: "same_core (n\<lparr>nLog := nLog n @ [e], nMembership := nMembership n\<rparr>) n1"
    by (simp add: n1_def same_core_def)
  have "contiguous (lastN n) [e]" "fold_membership (nMembership n) [e] = Inr (nMembership n)"
    using assms(2) ok by (simp_all add: e_def noop_entry_def unat_lastIndex_inc fold_membership_plain)
  from append_entries_ok [OF ok(1) _ this] assms(3) have ok1: "node_ok n1"
    by (simp add: same_core_node_ok [OF c1])
  have f1: "nRole n1 = Leader" "armed n1" "nTerm n1 = nTerm n" "nVotedFor n1 = nVotedFor n" "nMembership n1 = nMembership n"
    "nLog n1 = nLog n @ [e]" "nID n1 = nID n" "nSnap n1 = nSnap n" "nCommit n1 = nCommit n"
    by (simp_all add: n1_def armed_def)
  have wf1: "wf_node n1" using ok1 f1 assms(2) by (simp add: wf_node_def)
  have "returns (then_merge (no_update\<lparr>uEntries := [e], uRoleChanged := True, uMessages := ms\<rparr>) (maybeCommit n2))
      (\<lambda>(n', u). wins n u n')" if k: "keeps n1 n2" and ms: "list_all (plain_message n1) ms" for n2 ms
  proof -
    define u where "u = no_update\<lparr>uEntries := [e], uRoleChanged := True, uMessages := ms\<rparr>"
    have c2: "same_core n1 n2" using k by (simp add: keeps_def)
    have wf2: "wf_node n2" using keeps_wf [OF k wf1] .
    have f2: "nRole n2 = Leader" "nTerm n2 = nTerm n" "nVotedFor n2 = nVotedFor n" "nMembership n2 = nMembership n"
      "lastN n2 = lastN n + 1"
      using k f1 same_core_eqs [OF c2] by (simp_all add: keeps_def lastN_def snapN_def)
    have ev: "evolves n u n2"
    proof (rule evolves_append)
      show "\<forall>m \<in> set (uMessages u). plain_message n m"
        using ms plain_message_cong [OF f1(7)] by (simp add: u_def list_all_iff)
    qed (use assms(1) wf2 f1 in \<open>auto simp: u_def same_core_eqs [OF c2] hardState_def n1_def\<close>)
    have q: "quiet u" "no_grants u" using ms no_grants_plain by (auto simp: u_def)
    have "room n2 1" using f2(5) assms(3) by simp
    from maybeCommit_returns [OF wf2 f2(1) this] show ?thesis
      unfolding then_merge_def returns_rbind u_def [symmetric]
    proof (rule returns_mono, clarify)
      fix n3 v assume l: "leads n2 v n3"
      then have "evolves n (merge u v) n3"
        using ev q assms(1) by (intro evolves_trans) (auto simp: leads_def quiet_def)
      with l q f2 show "returns (Inr (n3, merge u v)) (\<lambda>(n', u). wins n u n')" by (auto simp: wins_def leads_def)
    qed
  qed
  moreover have "becomeLeader n = rbind (broadcastAppend n1 OriginOther) (\<lambda>(n2, ms).
      then_merge (no_update\<lparr>uEntries := [e], uRoleChanged := True, uMessages := ms\<rparr>) (maybeCommit n2))"
    by (simp add: becomeLeader_def Let_def n1_def e_def noop_entry_def)
  ultimately show ?thesis
    using broadcastAppend_returns [OF ok1, of OriginOther] f1(2)
    by (auto simp: armed_def returns_rbind elim!: returns_mono)
qed

text \<open>A campaign: the node votes for itself in the next term, or only asks whether it should.\<close>

definition campaigns :: "Node \<Rightarrow> Update \<Rightarrow> Node \<Rightarrow> bool" where
  "campaigns n u n' \<longleftrightarrow> evolves n u n' \<and> quiet u \<and> no_grants u \<and> nTerm n' = nTerm n + 1 \<and> nVotedFor n' = nID n \<and>
     (JointVoters (nMembership n) = [] \<longrightarrow> nMembership n' = nMembership n)"

lemma request_votes_plain: "t \<noteq> MsgVoteResponse \<Longrightarrow> \<forall>m \<in> set (request_votes t n term). plain_message n m"
  by (auto simp: request_votes_def plain_message_def is_grant_def)

lemma startElection_returns:
  assumes "wf_node n" "nTerm n + 1 \<noteq> 0" "room n 2"
  shows "returns (startElection n) (\<lambda>(n', u). campaigns n u n')"
proof -
  define n1 where "n1 = n\<lparr>nRole := Candidate, nTerm := nTerm n + 1, nVotedFor := nID n, nLeader := 0, nVotes := [nID n \<mapsto> True]\<rparr>"
  have cfg: "config_ok (nCfg n1)" using assms(1) by (simp add: n1_def wf_node_def node_ok_def)
  have lt: "nTerm n < nTerm n + 1" using assms(2) by (simp add: u64_inc_nonzero)
  have "returns (let u = no_update\<lparr>uHard := Some (hardState n2), uRoleChanged := True\<rparr>
      in if raft_HasQuorum n2 {nID n2} then then_merge u (becomeLeader n2)
         else Inr (n2, add_messages u (request_votes MsgVote n2 (nTerm n2)))) (\<lambda>(n', u). campaigns n u n')"
    if k: "keeps n1 n2" for n2
  proof -
    define u where "u = no_update\<lparr>uHard := Some (hardState n2), uRoleChanged := True\<rparr>"
    have c2: "same_core n1 n2" using k by (simp add: keeps_def)
    have sl: "same_log n n2" using same_core_same_log [OF c2] by (simp add: same_log_def n1_def)
    have f2: "nTerm n2 = nTerm n + 1" "nVotedFor n2 = nID n" "nRole n2 = Candidate"
      using k by (simp_all add: same_core_eqs [OF c2] n1_def keeps_def)
    have wf2: "wf_node n2" using assms(1,2) sl f2 by (simp add: wf_node_def same_log_node_ok)
    have ev: "evolves n (add_messages u ms) n2" if "\<forall>m \<in> set ms. plain_message n2 m" for ms
      using that lt f2 wf2 sl by (intro evolves_same_log) (auto simp: u_def plain_message_def same_log_eqs [OF sl])
    have m: "mild u" "no_grants u" by (simp_all add: u_def)
    have t0: "nTerm n2 \<noteq> 0" "room n2 2" using f2 assms(2,3) same_log_eqs [OF sl] by simp_all
    have "returns (then_merge u (becomeLeader n2)) (\<lambda>(n', u). campaigns n u n')"
      unfolding then_merge_def returns_rbind
    proof (rule returns_mono [OF becomeLeader_returns [OF wf2 t0]], clarify)
      fix n3 v assume w: "wins n2 v n3"
      then have "evolves n (merge u v) n3"
        using ev [of "[]"] m assms(1) by (intro evolves_trans) (auto simp: wins_def add_messages_def)
      then show "returns (Inr (n3, merge u v)) (\<lambda>(n', u). campaigns n u n')"
        using w f2 m same_log_eqs [OF sl] by (simp add: campaigns_def wins_def mild_quiet)
    qed
    moreover have "campaigns n (add_messages u (request_votes MsgVote n2 (nTerm n2))) n2"
      using ev [OF request_votes_plain] f2 m same_log_eqs [OF sl] request_votes_plain [of MsgVote n2 "nTerm n2"]
      by (simp add: campaigns_def mild_quiet list_all_iff plain_message_def)
    ultimately show ?thesis unfolding u_def [symmetric] Let_def by simp
  qed
  moreover have "startElection n = rbind (resetElectionTimer n1) (\<lambda>n2.
      let u = no_update\<lparr>uHard := Some (hardState n2), uRoleChanged := True\<rparr>
      in if raft_HasQuorum n2 {nID n2} then then_merge u (becomeLeader n2)
         else Inr (n2, add_messages u (request_votes MsgVote n2 (nTerm n2))))"
    by (simp add: startElection_def n1_def)
  ultimately show ?thesis
    using resetElectionTimer_returns [OF cfg] by (auto simp: returns_rbind elim!: returns_mono)
qed

lemma startPreVote_returns:
  assumes "wf_node n" "nTerm n + 1 \<noteq> 0" "room n 2"
  shows "returns (startPreVote n) (\<lambda>(n', u). evolves n u n' \<and> quiet u \<and> no_grants u \<and>
    (JointVoters (nMembership n) = [] \<longrightarrow> nMembership n' = nMembership n) \<and>
    (campaigns n u n' \<or> same_core n n' \<and> nRole n' = PreCandidate))"
proof -
  define n1 where "n1 = n\<lparr>nRole := PreCandidate, nLeader := 0, nVotes := [nID n \<mapsto> True]\<rparr>"
  have cfg: "config_ok (nCfg n1)" using assms(1) by (simp add: n1_def wf_node_def node_ok_def)
  let ?post = "\<lambda>(n', u). evolves n u n' \<and> quiet u \<and> no_grants u \<and>
    (JointVoters (nMembership n) = [] \<longrightarrow> nMembership n' = nMembership n) \<and>
    (campaigns n u n' \<or> same_core n n' \<and> nRole n' = PreCandidate)"
  have body: "returns (if raft_HasQuorum n2 {nID n2} then startElection n2
      else Inr (n2, add_messages (no_update\<lparr>uRoleChanged := c\<rparr>) (request_votes MsgPreVote n2 (nTerm n2 + 1)))) ?post"
    if k: "keeps n1 n2" for n2 c
  proof -
    have c2: "same_core n n2" using k by (simp add: keeps_def n1_def same_core_def)
    have r2: "nRole n2 = PreCandidate" using k by (simp add: keeps_def n1_def)
    have wf2: "wf_node n2" using assms(1) r2 by (simp add: wf_node_def same_core_node_ok [OF c2])
    have post: "?post (n', u)" if "campaigns n2 u n'" for u n'
    proof -
      have "campaigns n u n'" using that evolves_from_core [OF c2] by (simp add: campaigns_def same_core_eqs [OF c2])
      then show ?thesis by (simp add: campaigns_def)
    qed
    have t2: "nTerm n2 + 1 \<noteq> 0" "room n2 2" using assms(2,3) by (simp_all add: same_core_eqs [OF c2])
    have "returns (startElection n2) ?post"
      by (rule returns_mono [OF startElection_returns [OF wf2 t2]]) (use post in auto)
    moreover have "?post (n2, add_messages (no_update\<lparr>uRoleChanged := c\<rparr>) (request_votes MsgPreVote n2 (nTerm n2 + 1)))"
      using request_votes_plain [of MsgPreVote n2 "nTerm n2 + 1"] c2 wf2 r2 same_core_eqs [OF c2]
      by (auto simp: list_all_iff plain_message_def intro!: evolves_core)
    ultimately show ?thesis by simp
  qed
  have eq: "startPreVote n = rbind (resetElectionTimer n1) (\<lambda>n2. if raft_HasQuorum n2 {nID n2} then startElection n2
      else Inr (n2, add_messages (no_update\<lparr>uRoleChanged := (nRole n \<noteq> PreCandidate)\<rparr>) (request_votes MsgPreVote n2 (nTerm n2 + 1))))"
    by (simp add: startPreVote_def Let_def n1_def)
  show ?thesis
    unfolding eq returns_rbind
    by (rule returns_mono [OF resetElectionTimer_returns [OF cfg]]) (rule body, simp)
qed

section \<open>Votes\<close>

lemma handlePreVoteResponse_returns:
  assumes "wf_node n" "nTerm n + 1 \<noteq> 0" "room n 2"
  shows "returns (handlePreVoteResponse n m) (\<lambda>(n', u). evolves n u n')"
proof -
  have down: "returns (becomeFollower n1 t 0) (\<lambda>(n', u). evolves n u n')" if "wf_node n1" "same_core n n1" "nTerm n \<le> t" for n1 t
    using becomeFollower_returns [of n1 t 0] that evolves_from_core [OF that(2)]
    by (auto simp: steps_down_def same_core_eqs elim!: returns_mono)
  define n1 where "n1 = n\<lparr>nVotes := (nVotes n)(msgFrom m \<mapsto> \<not> msgReject m \<and> msgTerm m = nTerm n + 1)\<rparr>"
  have k1: "same_core n n1" "nRole n1 = nRole n" "armed n1 = armed n" by (simp_all add: n1_def armed_def)
  then have wf1: "wf_node n1" using assms(1) by (simp add: wf_node_def same_core_node_ok same_core_eqs)
  have t1: "nTerm n1 + 1 \<noteq> 0" "room n1 2" using assms(2,3) by (simp_all add: same_core_eqs [OF k1(1)])
  have "returns (startElection n1) (\<lambda>(n', u). evolves n u n')"
    by (rule returns_mono [OF startElection_returns [OF wf1 t1]])
      (use evolves_from_core [OF k1(1)] in \<open>auto simp: campaigns_def\<close>)
  moreover have "evolves n no_update n1" using k1(1) wf1 by (intro evolves_core) simp_all
  moreover have "evolves n no_update n" using assms(1) by (intro evolves_core) simp_all
  ultimately show ?thesis
    using down [OF assms(1), of "msgTerm m"] down [OF wf1 k1(1), of "nTerm n"] same_core_eqs(2) [OF k1(1)]
    by (auto simp: handlePreVoteResponse_def Let_def less_imp_le simp flip: n1_def)
qed

lemma handleVote_returns:
  assumes "wf_node n" "msgFrom m \<noteq> 0"
  shows "returns (handleVote n m) (\<lambda>(n', u). evolves n u n')"
proof -
  define grant where "grant \<longleftrightarrow> isVoter n (nID n) \<and> (nVotedFor n = 0 \<or> nVotedFor n = msgFrom m) \<and>
      isUpToDate n (msgLogIndex m) (msgLogTerm m)"
  define n1 where "n1 = n\<lparr>nVotedFor := msgFrom m, nLeader := 0\<rparr>"
  have cfg: "config_ok (nCfg n1)" using assms(1) by (simp add: n1_def wf_node_def node_ok_def)
  let ?reply = "\<lambda>n. (message MsgVoteResponse (nID n) (msgFrom m) (nTerm n))\<lparr>msgReject := \<not> grant\<rparr>"
  have yes: "evolves n (add_messages (no_update\<lparr>uHard := Some (hardState n2)\<rparr>) [?reply n2]) n2"
    if "keeps n1 n2" grant for n2
  proof -
    have c: "same_core n1 n2" using that(1) by (simp add: keeps_def)
    have sl: "same_log n n2" using c by (simp add: same_core_def same_log_def n1_def)
    have f: "nTerm n2 = nTerm n" "nVotedFor n2 = msgFrom m" "nRole n2 = nRole n" "armed n \<longrightarrow> armed n2"
      using that(1) keeps_armed [OF that(1)] by (simp_all add: same_core_eqs [OF c] n1_def keeps_def armed_def)
    have "wf_node n2" using assms(1) sl f by (simp add: wf_node_def same_log_node_ok)
    then show ?thesis
      using that(2) f sl assms(2) by (intro evolves_same_log) (auto simp: grant_def same_log_eqs [OF sl])
  qed
  have no: "evolves n (add_messages no_update [?reply n]) n" if "\<not> grant"
    using assms(1) that by (intro evolves_core) (auto simp: plain_message_def is_grant_def)
  have eq: "handleVote n m = rbind (if grant then rbind (resetElectionTimer n1) (\<lambda>n. Inr (n, no_update\<lparr>uHard := Some (hardState n)\<rparr>))
      else Inr (n, no_update)) (\<lambda>(n, u). Inr (n, add_messages u [?reply n]))"
    unfolding handleVote_def Let_def grant_def n1_def by (rule refl)
  show ?thesis
  proof (cases grant)
    case True
    have "returns (resetElectionTimer n1) (\<lambda>n2. evolves n (add_messages (no_update\<lparr>uHard := Some (hardState n2)\<rparr>) [?reply n2]) n2)"
      by (rule returns_mono [OF resetElectionTimer_returns [OF cfg]]) (use yes True in auto)
    then show ?thesis unfolding eq using True by simp
  qed (use no eq in simp)
qed

lemma handleVoteResponse_returns:
  assumes "wf_node n" "room n 2"
  shows "returns (handleVoteResponse n m) (\<lambda>(n', u). evolves n u n')"
proof -
  define n1 where "n1 = n\<lparr>nVotes := (nVotes n)(msgFrom m \<mapsto> \<not> msgReject m)\<rparr>"
  have k1: "same_core n n1" "nRole n1 = nRole n" "armed n1 = armed n" by (simp_all add: n1_def armed_def)
  then have wf1: "wf_node n1" using assms(1) by (simp add: wf_node_def same_core_node_ok same_core_eqs)
  have "returns (becomeLeader n1) (\<lambda>(n', u). evolves n u n')" if "nRole n = Candidate"
  proof -
    have "nTerm n1 \<noteq> 0" "room n1 2" using wf1 that k1(2) assms(2) same_core_eqs [OF k1(1)] by (simp_all add: wf_node_def)
    from becomeLeader_returns [OF wf1 this] show ?thesis
      by (rule returns_mono) (use evolves_from_core [OF k1(1)] in \<open>auto simp: wins_def\<close>)
  qed
  moreover have "returns (becomeFollower n1 (nTerm n1) 0) (\<lambda>(n', u). evolves n u n')"
    by (rule returns_mono [OF becomeFollower_returns [OF wf1 order_refl]])
      (use evolves_from_core [OF k1(1)] in \<open>auto simp: steps_down_def\<close>)
  moreover have "evolves n no_update n1" using k1(1) wf1 by (intro evolves_core) simp_all
  moreover have "evolves n no_update n" using assms(1) by (intro evolves_core) simp_all
  ultimately show ?thesis
    by (simp add: handleVoteResponse_def Let_def flip: n1_def)
qed

lemma follow_returns:
  assumes "wf_node n"
  shows "returns (follow n l) (\<lambda>(n', u). \<exists>c. u = no_update\<lparr>uRoleChanged := c\<rparr> \<and> same_core n n' \<and> wf_node n' \<and> nRole n' = Follower)"
proof -
  have cfg: "config_ok (nCfg n)" using assms by (simp add: wf_node_def node_ok_def)
  have reset: "returns (resetElectionTimer (n1\<lparr>nLeader := l\<rparr>)) (\<lambda>n'. same_core n n' \<and> wf_node n' \<and> nRole n' = Follower)"
    if "same_core n n1" "nRole n1 = Follower" for n1
  proof -
    have "config_ok (nCfg (n1\<lparr>nLeader := l\<rparr>))" using that cfg by (simp add: same_core_eqs)
    note r = resetElectionTimer_returns [OF this]
    show ?thesis
    proof (rule returns_mono [OF r])
      fix n' assume "keeps (n1\<lparr>nLeader := l\<rparr>) n' \<and> nLeader n' = nLeader (n1\<lparr>nLeader := l\<rparr>) \<and> nElectionElapsed n' = 0 \<and>
        cfgElectionTickMin (nCfg (n1\<lparr>nLeader := l\<rparr>)) \<le> nElectionTimeout n' \<and>
        nElectionTimeout n' < cfgElectionTickMax (nCfg (n1\<lparr>nLeader := l\<rparr>))"
      then have c: "same_core n n'" "nRole n' = Follower"
        using that by (simp_all add: keeps_def same_core_def)
      then show "same_core n n' \<and> wf_node n' \<and> nRole n' = Follower"
        using assms by (simp add: wf_node_def same_core_node_ok [OF c(1)])
    qed
  qed
  have "becomeFollower n (nTerm n) l = rbind (resetElectionTimer (n\<lparr>nRole := Follower, nLeader := l, nVotes := Map.empty\<rparr>))
      (\<lambda>n'. Inr (n', no_update\<lparr>uRoleChanged := (nRole n \<noteq> Follower)\<rparr>))"
    by (simp add: becomeFollower_def Let_def no_update_def)
  moreover have "returns (resetElectionTimer (n\<lparr>nRole := Follower, nLeader := l, nVotes := Map.empty\<rparr>))
      (\<lambda>n1. same_core n n1 \<and> nRole n1 = Follower)"
    by (rule returns_mono [OF resetElectionTimer_returns]) (use cfg in \<open>auto simp: keeps_def same_core_def\<close>)
  ultimately have "returns (becomeFollower n (nTerm n) l)
      (\<lambda>(n1, u). (\<exists>c. u = no_update\<lparr>uRoleChanged := c\<rparr>) \<and> same_core n n1 \<and> nRole n1 = Follower)"
    by (auto elim!: returns_mono)
  moreover have "\<exists>c. no_update = no_update\<lparr>uRoleChanged := c\<rparr>" by (rule exI [of _ False]) (simp add: no_update_def)
  ultimately have "returns (if nRole n \<noteq> Follower \<or> nLeader n \<noteq> l then then_merge no_update (becomeFollower n (nTerm n) l)
      else Inr (n, no_update)) (\<lambda>(n1, u). (\<exists>c. u = no_update\<lparr>uRoleChanged := c\<rparr>) \<and> same_core n n1 \<and> nRole n1 = Follower)"
    by simp
  then show ?thesis
    unfolding follow_def returns_rbind
  proof (rule returns_mono, clarify)
    fix n1 c assume "same_core n n1" "nRole n1 = Follower"
    from reset [OF this] show "returns (rbind (resetElectionTimer (n1\<lparr>nLeader := l\<rparr>)) (\<lambda>n'. Inr (n', no_update\<lparr>uRoleChanged := c\<rparr>)))
        (\<lambda>(n', u). \<exists>c. u = no_update\<lparr>uRoleChanged := c\<rparr> \<and> same_core n n' \<and> wf_node n' \<and> nRole n' = Follower)"
      unfolding returns_rbind by (rule returns_mono) auto
  qed
qed

end
