(* ===== verification/Raft_Handlers.thy ===== *)
theory Raft_Handlers
  imports Raft_Steps
begin

text \<open>
  The handlers of append and snapshot messages and the responses to them, the exported methods, and
  with them the invariant of the node under every call.
\<close>

section \<open>Appends\<close>

text \<open>What a well-formed append carries.\<close>

lemma malformed_loop_ok:
  "malformed_loop m i prev es = '''' \<longleftrightarrow>
   (\<forall>j < length es. eIndex (es ! j) = msgLogIndex m + word_of_nat (i + j) + 1 \<and> eTerm (es ! j) \<noteq> 0 \<and>
      length (eData (es ! j)) \<le> MaxEntryBytes \<and> eTerm (es ! j) \<le> msgTerm m) \<and>
   sorted_wrt (\<le>) (prev # map eTerm es)"
proof (induction es arbitrary: i prev)
  case (Cons e es)
  have all: "(\<forall>j < length (e # es). P j ((e # es) ! j)) \<longleftrightarrow> P 0 e \<and> (\<forall>j < length es. P (Suc j) (es ! j))" for P
    by (simp add: All_less_Suc2)
  show ?case
    unfolding all [of "\<lambda>j e. eIndex e = msgLogIndex m + word_of_nat (i + j) + 1 \<and> eTerm e \<noteq> 0 \<and>
      length (eData e) \<le> MaxEntryBytes \<and> eTerm e \<le> msgTerm m"]
    using Cons.IH [of "i + 1" "eTerm e"]
    by (auto simp: Let_def not_less not_le intro: order_trans)
qed simp

lemma malformedAppend_contiguous:
  assumes "malformedAppend m = ''''" "unat (msgLogIndex m) + length (msgEntries m) < 2 ^ 64"
  shows "contiguous (unat (msgLogIndex m)) (msgEntries m)"
  unfolding contiguous_def
proof (intro allI impI)
  fix i assume i: "i < length (msgEntries m)"
  then have e: "eIndex (msgEntries m ! i) = msgLogIndex m + word_of_nat i + 1" "eTerm (msgEntries m ! i) \<noteq> 0"
    using assms(1) by (auto simp: malformedAppend_def malformed_loop_ok)
  have "unat (msgLogIndex m + word_of_nat i) = unat (msgLogIndex m) + i"
    using assms(2) i by (simp add: unat_add_u64 unat_of_nat_u64)
  then have "unat (msgLogIndex m + word_of_nat i + 1) = unat (msgLogIndex m) + i + 1"
    using assms(2) i by (simp add: unat_inc_u64)
  with e show "unat (eIndex (msgEntries m ! i)) = unat (msgLogIndex m) + i + 1 \<and> eTerm (msgEntries m ! i) \<noteq> 0" by simp
qed

lemma contiguous_Cons:
  "contiguous base (e # es) \<longleftrightarrow> unat (eIndex e) = base + 1 \<and> eTerm e \<noteq> 0 \<and> contiguous (base + 1) es"
  using contiguous_append [of base "[e]" es] by auto

definition plan_ok :: "Node \<Rightarrow> nat \<Rightarrow> Entry list \<Rightarrow> append_plan \<Rightarrow> bool" where
  "plan_ok n base es p = (case p of
     Present \<Rightarrow> base + length es \<le> lastN n \<and> (\<forall>e \<in> set es. termAt n (eIndex e) = eTerm e)
   | Conflict_Committed \<Rightarrow> True
   | Extend cutAt rest \<Rightarrow> rest \<noteq> [] \<and> (\<exists>pre. es = pre @ rest \<and> (\<forall>e \<in> set pre. termAt n (eIndex e) = eTerm e) \<and>
       contiguous (base + length pre) rest \<and>
       (case cutAt of None \<Rightarrow> base + length pre = lastN n
        | Some i \<Rightarrow> unat i = base + length pre + 1 \<and> unat i \<le> lastN n \<and> nCommit n < i)))"

lemma plan_append_ok:
  assumes "room n 0" "contiguous base es" "base \<le> lastN n"
  shows "plan_ok n base es (plan_append n es)"
  using assms(2,3)
proof (induction es arbitrary: base)
  case (Cons e es)
  then have e: "unat (eIndex e) = base + 1" "contiguous (base + 1) es" by (simp_all add: contiguous_Cons)
  show ?case
  proof (cases "eIndex e \<le> lastIndex n")
    case False
    then have "base = lastN n" using e(1) Cons.prems(2) assms(1) by (simp add: le_lastIndex)
    then show ?thesis using False Cons.prems(1) by (auto simp: plan_ok_def intro!: exI [of _ "[]"])
  next
    case True
    then have le: "base + 1 \<le> lastN n" using e(1) assms(1) by (simp add: le_lastIndex)
    show ?thesis
    proof (cases "termAt n (eIndex e) = eTerm e")
      case match: True
      have "plan_ok n base (e # es) p" if "plan_ok n (base + 1) es p" for p
      proof (cases p)
        case (Extend c rest)
        with that obtain pre where pre: "rest \<noteq> []" "es = pre @ rest" "\<forall>e \<in> set pre. termAt n (eIndex e) = eTerm e"
          "contiguous (base + 1 + length pre) rest"
          "case c of None \<Rightarrow> base + 1 + length pre = lastN n
           | Some i \<Rightarrow> unat i = base + 1 + length pre + 1 \<and> unat i \<le> lastN n \<and> nCommit n < i"
          unfolding plan_ok_def by (simp only: append_plan.case) blast
        then show ?thesis using Extend match by (auto simp: plan_ok_def split: option.splits intro!: exI [of _ "e # pre"])
      qed (use that match in \<open>simp_all add: plan_ok_def\<close>)
      with Cons.IH [OF e(2) le] True match show ?thesis by simp
    next
      case False
      then show ?thesis
        using True e(1) le Cons.prems(1) by (auto simp: plan_ok_def not_le intro!: exI [of _ "[]"])
    qed
  qed
qed (simp add: plan_ok_def)

text \<open>The end of an append: commit what is proved, answer.\<close>

lemma finish_append_returns:
  assumes "wf_node n" "uCommitted u = []"
  shows "returns (finish_append n m u) (\<lambda>(n', v). \<exists>c r. n' = n\<lparr>nCommit := c\<rparr> \<and> nCommit n \<le> c \<and> wf_node n' \<and>
    plain_message n r \<and> v = add_messages (u\<lparr>uCommitted := entries_upto n (unat (nCommit n)) (unat c)\<rparr>) [r])"
proof -
  define lastNew where "lastNew = min (msgLogIndex m + word_of_nat (length (msgEntries m))) (lastIndex n)"
  define c where "c = max (nCommit n) (min (msgLeaderCommit m) lastNew)"
  have ok: "node_ok n" using assms(1) by (simp add: wf_node_def)
  then have com: "snapN n \<le> unat (nCommit n)" "unat (nCommit n) \<le> lastN n" "room n 0" by (simp_all add: node_ok_def)
  have "min (msgLeaderCommit m) lastNew \<le> lastIndex n" by (simp add: lastNew_def min.coboundedI2)
  moreover have "nCommit n \<le> lastIndex n" using com by (simp add: le_lastIndex)
  ultimately have "c \<le> lastIndex n" by (simp add: c_def)
  then have c: "unat c \<le> lastN n" "nCommit n \<le> c" using com by (simp_all add: le_lastIndex c_def)
  let ?n = "n\<lparr>nCommit := c\<rparr>"
  have same: "snapN ?n = snapN n" "lastN ?n = lastN n" "\<And>i. entryAt ?n i = entryAt n i"
    by (simp_all add: snapN_def lastN_def entryAt_def)
  have wf': "wf_node ?n"
    using assms(1) com c same by (auto simp: wf_node_def node_ok_def armed_def word_le_nat_alt)
  define r where "r = (append_response n m)\<lparr>msgLogIndex := lastNew, msgContext := msgContext m\<rparr>"
  have "append_response ?n m = append_response n m" by (simp add: append_response_def)
  moreover have "entriesBetween ?n (nCommit n + 1) (c + 1) = Inr (entries_upto n (unat (nCommit n)) (unat c))"
    using entriesBetween_upto [of ?n "nCommit n" c] com c same by (simp add: word_le_nat_alt entries_upto_def)
  ultimately have "finish_append n m u = Inr (?n, add_messages (u\<lparr>uCommitted := entries_upto n (unat (nCommit n)) (unat c)\<rparr>) [r])"
    using assms(2) by (auto simp: finish_append_def Let_def r_def c_def max_def add_messages_def simp flip: lastNew_def)
  moreover have "plain_message n r" by (simp add: r_def append_response_def plain_message_def is_grant_def)
  ultimately show ?thesis using c wf' by auto
qed

lemma node_ok_cut:
  assumes "node_ok n" "j \<le> length (nLog n)" "unat (nCommit n) \<le> snapN n + j" "contiguous (snapN n + j) rest"
    and "snapN n + j + length rest < 2 ^ 64 - 1" "fold_membership (base_membership n) (take j (nLog n) @ rest) = Inr mm"
  shows "node_ok (n\<lparr>nLog := take j (nLog n) @ rest, nMembership := mm\<rparr>)"
proof -
  have "contiguous (snapN n) (take j (nLog n) @ drop j (nLog n))" using assms(1) by (simp add: node_ok_def)
  then have "contiguous (snapN n) (take j (nLog n))" unfolding contiguous_append by simp
  with assms show ?thesis by (simp add: node_ok_def snapN_def lastN_def contiguous_append min_absorb2)
qed

lemma finish_append_evolves:
  assumes "wf_node n" "nRole n = Follower"
    and n2: "n2 = n\<lparr>nLog := truncated t (nSnap n) (nLog n) @ rest, nMembership := mm\<rparr>" "node_ok n2"
    and t: "t = 0 \<or> unat (nCommit n) < unat t \<and> unat t \<le> lastN n"
    and u: "u = no_update\<lparr>uRoleChanged := c, uTruncateFrom := t, uEntries := rest\<rparr>"
  shows "returns (finish_append n2 m u) (\<lambda>(n', v). evolves n v n')"
proof -
  have wf2: "wf_node n2" using n2 assms(2) by (simp add: wf_node_def)
  have cu: "uCommitted u = []" by (simp add: u)
  show ?thesis
  proof (rule returns_mono [OF finish_append_returns [OF wf2 cu]], clarify)
    fix k r assume k: "nCommit n2 \<le> k" "wf_node (n2\<lparr>nCommit := k\<rparr>)" "plain_message n2 r"
    have "entries_upto n2 i j = entries_upto (n2\<lparr>nCommit := k\<rparr>) i j" for i j
      by (simp add: entries_upto_def entryAt_def snapN_def lastN_def)
    then show "evolves n (add_messages (u\<lparr>uCommitted := entries_upto n2 (unat (nCommit n2)) (unat k)\<rparr>) [r]) (n2\<lparr>nCommit := k\<rparr>)"
      using assms(1) k t by (intro evolves_log) (auto simp: n2(1) u hardState_def plain_message_def)
  qed
qed

lemma extend_log_nat:
  assumes "node_ok n" "case cutAt of None \<Rightarrow> True | Some i \<Rightarrow> unat (nCommit n) < unat i \<and> unat i \<le> lastN n"
  shows "extend_log n cutAt es = Inr (n\<lparr>nLog := truncated (case cutAt of None \<Rightarrow> 0 | Some i \<Rightarrow> i) (nSnap n) (nLog n) @ es\<rparr>)"
proof (cases cutAt)
  case (Some i)
  have "snapN n < unat i" "i \<noteq> 0" using assms Some by (auto simp: node_ok_def)
  moreover have "slice (nLog n) 0 (i - sIndex (nSnap n) - 1) = Inr (take (unat i - snapN n - 1) (nLog n))"
    using assms(2) Some unat_offset [OF \<open>snapN n < unat i\<close>] by (auto simp: slice_def lastN_def)
  ultimately show ?thesis using Some by (simp add: extend_log_def truncated_def snapN_def)
qed (simp add: extend_log_def truncated_def)

lemma append_entries_returns:
  assumes wf: "wf_node n" "nRole n = Follower" "u = no_update\<lparr>uRoleChanged := c\<rparr>"
    and m: "room n (length (msgEntries m))" "contiguous (unat (msgLogIndex m)) (msgEntries m)" "unat (msgLogIndex m) \<le> lastN n"
  shows "returns (append_entries n m u) (\<lambda>(n', v). evolves n v n')"
proof -
  have ok: "node_ok n" "room n 0" using wf m by (simp_all add: wf_node_def)
  have rej: "evolves n (add_messages u' [reject_append n m h]) n" if "mild u'" "uHard u' = None" "uMessages u' = []" for u' h
    using that wf(1) by (intro evolves_core) (auto simp: reject_append_def append_response_def plain_message_def is_grant_def)
  show ?thesis
  proof (cases "plan_append n (msgEntries m)")
    case Present
    have "n = n\<lparr>nLog := truncated 0 (nSnap n) (nLog n) @ [], nMembership := nMembership n\<rparr>" by (simp add: truncated_def)
    moreover have "u = no_update\<lparr>uRoleChanged := c, uTruncateFrom := 0, uEntries := []\<rparr>"
      by (simp add: wf(3) no_update_def)
    ultimately show ?thesis
      using finish_append_evolves [OF wf(1,2) _ ok(1), where t = 0 and rest = "[]" and mm = "nMembership n"] Present
      by (simp add: append_entries_def)
  next
    case Conflict_Committed
    then show ?thesis using rej [of u] wf(3) by (simp add: append_entries_def)
  next
    case (Extend cutAt rest)
    define t where "t = (case cutAt of None \<Rightarrow> 0 | Some i \<Rightarrow> i)"
    obtain pre where plan: "rest \<noteq> []" "msgEntries m = pre @ rest" "contiguous (unat (msgLogIndex m) + length pre) rest"
      "case cutAt of None \<Rightarrow> unat (msgLogIndex m) + length pre = lastN n
       | Some i \<Rightarrow> unat i = unat (msgLogIndex m) + length pre + 1 \<and> unat i \<le> lastN n \<and> nCommit n < i"
      using plan_append_ok [OF ok(2) m(2,3)] Extend unfolding plan_ok_def by auto
    define j where "j = unat (msgLogIndex m) + length pre - snapN n"
    have cutAt: "case cutAt of None \<Rightarrow> True | Some i \<Rightarrow> unat (nCommit n) < unat i \<and> unat i \<le> lastN n"
      using plan(4) by (auto simp: word_less_nat_alt split: option.splits)
    have com: "snapN n \<le> unat (nCommit n)" "unat (nCommit n) \<le> lastN n" using ok by (simp_all add: node_ok_def)
    have j: "snapN n + j = unat (msgLogIndex m) + length pre" "j \<le> length (nLog n)" "unat (nCommit n) \<le> snapN n + j"
      using plan(4) com cutAt by (auto simp: j_def lastN_def split: option.splits)
    have tr: "truncated t (nSnap n) (nLog n) = take j (nLog n)"
      using plan(4) com cutAt by (auto simp: t_def truncated_def j_def lastN_def snapN_def split: option.splits)
    have t: "t = 0 \<or> unat (nCommit n) < unat t \<and> unat t \<le> lastN n" using cutAt by (auto simp: t_def split: option.splits)
    have room: "snapN n + j + length rest < 2 ^ 64 - 1" using m(1) j(2) plan(2) by (auto simp: lastN_def)
    define n1 where "n1 = n\<lparr>nLog := truncated t (nSnap n) (nLog n) @ rest\<rparr>"
    define u1 where "u1 = no_update\<lparr>uRoleChanged := c, uTruncateFrom := t, uEntries := rest\<rparr>"
    have fin: "returns (finish_append (n1\<lparr>nMembership := mm\<rparr>) m u1) (\<lambda>(n', v). evolves n v n')"
      if "fold_membership (base_membership n) (nLog n1) = Inr mm" for mm
      using node_ok_cut [OF ok(1) j(2,3) _ room, of mm] plan(3) j(1) that
      by (intro finish_append_evolves [OF wf(1,2) _ _ t]) (simp_all add: n1_def u1_def tr)
    have n1m: "n1\<lparr>nMembership := nMembership n\<rparr> = n1" by (simp add: n1_def)
    have "fold_membership (base_membership n) (nLog n1) = Inr (nMembership n)" if "cutAt = None" "plain rest"
      using that ok(1) by (simp add: n1_def t_def truncated_def node_ok_def fold_membership_append fold_membership_plain)
    note same = fin [OF this, unfolded n1m]
    have u1: "u\<lparr>uTruncateFrom := (case cutAt of None \<Rightarrow> uTruncateFrom u | Some i \<Rightarrow> i), uEntries := uEntries u @ rest\<rparr> = u1"
      by (cases cutAt) (simp_all add: wf(3) u1_def t_def no_update_def)
    have "append_entries n m u = (if cutAt \<noteq> None \<or> \<not> plain rest
        then case rebuildMembership n1 of
            Inl _ \<Rightarrow> Inr (n, add_messages (u\<lparr>uTruncateFrom := 0, uEntries := []\<rparr>) [reject_append n m (lastIndex n + 1)])
          | Inr n2 \<Rightarrow> finish_append n2 m u1
        else finish_append n1 m u1)"
      unfolding append_entries_def Extend append_plan.case extend_log_nat [OF ok(1) cutAt] rbind_simps Let_def u1
      by (simp add: plain_def t_def n1_def)
    moreover have "returns (case rebuildMembership n1 of
            Inl _ \<Rightarrow> Inr (n, add_messages (u\<lparr>uTruncateFrom := 0, uEntries := []\<rparr>) [reject_append n m (lastIndex n + 1)])
          | Inr n2 \<Rightarrow> finish_append n2 m u1) (\<lambda>(n', v). evolves n v n')"
    proof (cases "fold_membership (base_membership n) (nLog n1)")
      case (Inl e)
      then have "rebuildMembership n1 = Inl e" by (simp add: rebuildMembership_def n1_def)
      then show ?thesis using rej [of "u\<lparr>uTruncateFrom := 0, uEntries := []\<rparr>"] wf(3) by (simp add: mild_def quiet_def)
    next
      case (Inr mm)
      then have "rebuildMembership n1 = Inr (n1\<lparr>nMembership := mm\<rparr>)" by (simp add: rebuildMembership_def n1_def)
      then show ?thesis using fin [OF Inr] by simp
    qed
    ultimately show ?thesis using same by auto
  qed
qed

lemma handleAppend_returns:
  assumes "wf_node n" "room n (length (msgEntries m))" "malformedAppend m = ''''"
  shows "returns (handleAppend n m) (\<lambda>(n', v). evolves n v n')"
  unfolding handleAppend_def returns_rbind
proof (rule returns_mono [OF follow_returns [OF assms(1)]], clarify)
  fix n1 c assume c1: "same_core n n1" and wf1: "wf_node n1" "nRole n1 = Follower"
  have ok1: "room n1 (length (msgEntries m))" "room n1 0" using assms(2) by (simp_all add: same_core_eqs [OF c1])
  define u where "u = no_update\<lparr>uRoleChanged := c\<rparr>"
  show "returns (if msgLogIndex m > lastIndex n1 \<or> termAt n1 (msgLogIndex m) \<noteq> msgLogTerm m
      then let hint = (if msgLogIndex m \<le> lastIndex n1
             then conflict_hint n1 (termAt n1 (msgLogIndex m)) (msgLogIndex m) else lastIndex n1 + 1)
           in Inr (n1, add_messages (no_update\<lparr>uRoleChanged := c\<rparr>) [reject_append n1 m hint])
      else append_entries n1 m (no_update\<lparr>uRoleChanged := c\<rparr>)) (\<lambda>(n', v). evolves n v n')"
  proof (cases "msgLogIndex m > lastIndex n1 \<or> termAt n1 (msgLogIndex m) \<noteq> msgLogTerm m")
    case True
    have "evolves n (add_messages (no_update\<lparr>uRoleChanged := c\<rparr>) [reject_append n1 m h]) n1" for h
      using wf1 c1 by (intro evolves_core)
        (auto simp: reject_append_def append_response_def plain_message_def is_grant_def same_core_eqs)
    then show ?thesis using True by (simp add: Let_def)
  next
    case False
    then have le: "unat (msgLogIndex m) \<le> lastN n1" using ok1 by (simp add: not_less le_lastIndex)
    have "contiguous (unat (msgLogIndex m)) (msgEntries m)"
      using malformedAppend_contiguous [OF assms(3)] le ok1 by simp
    note app = append_entries_returns [OF wf1 refl ok1(1) this le]
    have "returns (append_entries n1 m (no_update\<lparr>uRoleChanged := c\<rparr>)) (\<lambda>(n', v). evolves n v n')"
      by (rule returns_mono [OF app]) (use evolves_from_core [OF c1] in auto)
    then show ?thesis using False by simp
  qed
qed


section \<open>Snapshots\<close>

definition compacted :: "Node \<Rightarrow> Snapshot \<Rightarrow> Node" where
  "compacted n s = n\<lparr>nSnap := s, nLog := kept_suffix (durable_of n) s\<rparr>"

lemma compactLog_nat:
  assumes "node_ok n" "snapN n < unat (sIndex s)"
  shows "compactLog n s = Inr (compacted n s)"
proof -
  define k where "k = unat (sIndex s) - snapN n"
  have k: "unat (sIndex s) = snapN n + k" "0 < k" using assms(2) by (simp_all add: k_def)
  have room: "room n 0" using assms(1) by (simp add: node_ok_def)
  have kept: "kept_suffix (durable_of n) s = (if k \<le> length (nLog n) \<and> eTerm (nLog n ! (k - 1)) = sTerm s then drop k (nLog n) else [])"
    using k(2) by (simp add: kept_suffix_def Let_def durable_of_def k_def snapN_def)
  show ?thesis
  proof (cases "k < length (nLog n)")
    case True
    have lt: "sIndex s < lastIndex n" using True k room by (simp add: word_less_nat_alt unat_lastIndex lastN_def)
    have t: "termAt n (sIndex s) = eTerm (nLog n ! (k - 1))"
      using True k room by (subst termAt_nat) (auto simp: entryAt_def lastN_def)
    have "entriesBetween n (sIndex s + 1) (lastIndex n + 1) = Inr (drop k (nLog n))"
      using entriesBetween_upto [of n "sIndex s" "lastIndex n"] entries_upto_slice [of n "unat (sIndex s)" "lastN n"]
        True k room by (simp add: unat_lastIndex lastN_def)
    then show ?thesis using True lt t by (simp add: compactLog_def kept compacted_def)
  next
    case False
    then have "\<not> sIndex s < lastIndex n" using k room by (simp add: word_less_nat_alt unat_lastIndex lastN_def)
    then show ?thesis using False by (simp add: compactLog_def kept compacted_def)
  qed
qed


lemma compacted_log:
  assumes "node_ok n" "snapN n < unat (sIndex s)"
  shows "nLog (compacted n s) = (if unat (sIndex s) \<le> lastN n \<and> termAt n (sIndex s) = sTerm s
    then drop (unat (sIndex s) - snapN n) (nLog n) else [])"
proof -
  define k where "k = unat (sIndex s) - snapN n"
  have k: "unat (sIndex s) = snapN n + k" "0 < k" using assms(2) by (simp_all add: k_def)
  have "termAt n (sIndex s) = eTerm (nLog n ! (k - 1))" if "unat (sIndex s) \<le> lastN n"
    using that k assms(1) by (subst termAt_nat) (auto simp: entryAt_def node_ok_def)
  moreover have "unat (sIndex s) \<le> lastN n \<longleftrightarrow> k \<le> length (nLog n)" using k by (simp add: lastN_def)
  moreover have "unat (sIndex s) - unat (sIndex (nSnap n)) = k" by (simp add: k_def snapN_def)
  ultimately show ?thesis using k(2) by (auto simp: compacted_def kept_suffix_def Let_def durable_of_def k_def [symmetric])
qed

lemma contiguous_drop: "contiguous base es \<Longrightarrow> contiguous (base + k) (drop k es)"
  by (auto simp: contiguous_def)

text \<open>A snapshot that agrees with the committed log takes the place of its prefix.\<close>

lemma compacted_ok:
  assumes ok: "node_ok n" "snapN n < unat (sIndex s)" "snapshot_ok s" "unat (sIndex s) < 2 ^ 64 - 1"
    and agree: "unat (sIndex s) \<le> unat (nCommit n) \<Longrightarrow> termAt n (sIndex s) = sTerm s"
    and fold: "fold_membership (base_membership (compacted n s)) (nLog (compacted n s)) = Inr mm"
    and n': "n' = (compacted n s)\<lparr>nMembership := mm, nCommit := max (nCommit n) (sIndex s)\<rparr>"
  shows "node_ok n'" "\<And>i. unat (sIndex s) < i \<Longrightarrow> i \<le> unat (nCommit n) \<Longrightarrow> entryAt n' i = entryAt n i"
proof -
  note log = compacted_log [OF ok(1,2)]
  have n: "contiguous (snapN n) (nLog n)" "unat (nCommit n) \<le> lastN n" "room n 0" "config_ok (nCfg n)" "initial_ok (nInitial n)"
    "Voters (nInitial n) = cfgPeers (nCfg n)"
    using ok(1) by (simp_all add: node_ok_def)
  have s: "snapN n' = unat (sIndex s)" "base_membership n' = base_membership (compacted n s)" "nLog n' = nLog (compacted n s)"
    by (simp_all add: n' compacted_def snapN_def)
  have "contiguous (unat (sIndex s)) (nLog n')"
    using contiguous_drop [OF n(1), of "unat (sIndex s) - snapN n"] ok(2) by (auto simp: s log)
  moreover have "room n' 0" using n(3) ok(2,4) by (auto simp: s lastN_def log)
  moreover have "unat (nCommit n') = max (unat (nCommit n)) (unat (sIndex s))" by (simp add: n' max_def word_le_nat_alt)
  moreover have "max (unat (nCommit n)) (unat (sIndex s)) \<le> lastN n'"
    using n(2) ok(2) agree by (auto simp: lastN_def s log max_def)
  ultimately show "node_ok n'" using n ok(3) fold by (simp add: node_ok_def s) (simp add: n' compacted_def)
  fix i assume i: "unat (sIndex s) < i" "i \<le> unat (nCommit n)"
  then have "nLog n' = drop (unat (sIndex s) - snapN n) (nLog n)" using agree n(2) by (auto simp: s log)
  then show "entryAt n' i = entryAt n i" using i ok(2) n(2) by (auto simp: entryAt_def s lastN_def)
qed

lemma evolves_snapshot:
  assumes "node_ok n'" "nRole n' = Follower \<or> wf_node n \<and> nRole n' = nRole n \<and> (armed n \<longrightarrow> armed n')"
    and "nCfg n' = nCfg n" "nInitial n' = nInitial n" "hardState n' = hardState n" "nSnap n' = s" "nLog n' = nLog (compacted n s)"
    and "nCommit n' = max (nCommit n) (sIndex s)" "snapN n < unat (sIndex s)"
    and "\<And>i. unat (sIndex s) < i \<Longrightarrow> i \<le> unat (nCommit n) \<Longrightarrow> entryAt n' i = entryAt n i"
    and "uSnapshot u = Some s" "uHard u = None" "uTruncateFrom u = 0" "uEntries u = []" "uCommitted u = []"
    and "\<forall>m \<in> set (uMessages u). plain_message n m"
  shows "evolves n u n'"
proof -
  have "durable_of n' = persist (durable_of n) u"
    using assms(5-7,9,11-14)
    by (simp add: durable_of_def persist_def snapshotted_def truncated_def compacted_def snapN_def word_le_nat_alt)
  moreover have "wf_node n'" using assms(1,2,5) by (auto simp: wf_node_def hardState_def)
  moreover have "nTerm n' = nTerm n" "nVotedFor n' = nVotedFor n" using assms(5) by (simp_all add: hardState_def)
  ultimately show ?thesis
    unfolding evolves_def using assms(3,4,6,8-16) by (auto simp: plain_message_def snapN_def cuts_ok_def)
qed

lemma install_snapshot_returns:
  assumes wf: "wf_node n" "nRole n = Follower" "u = no_update\<lparr>uRoleChanged := c\<rparr>"
    and s: "snapN n < unat (sIndex s)" "snapshot_ok s" "unat (sIndex s) < 2 ^ 64 - 1"
  shows "returns (install_snapshot n m s u) (\<lambda>(n', v). evolves n v n')"
proof -
  have ok: "node_ok n" using wf by (simp add: wf_node_def)
  have rej: "evolves n (add_messages u [reject_snapshot n m]) n"
    using wf by (intro evolves_core) (auto simp: reject_snapshot_def snapshot_response_def plain_message_def is_grant_def)
  show ?thesis
  proof (cases "sIndex s \<le> nCommit n \<and> termAt n (sIndex s) \<noteq> sTerm s")
    case True
    then show ?thesis using rej by (simp add: install_snapshot_def)
  next
    case False
    then have agree: "termAt n (sIndex s) = sTerm s" if "unat (sIndex s) \<le> unat (nCommit n)" using that by (auto simp: word_le_nat_alt)
    show ?thesis
    proof (cases "fold_membership (base_membership (compacted n s)) (nLog (compacted n s))")
      case (Inl e)
      then show ?thesis using False rej compactLog_nat [OF ok s(1)] by (simp add: install_snapshot_def rebuildMembership_def)
    next
      case (Inr mm)
      define n3 where "n3 = (compacted n s)\<lparr>nMembership := mm, nCommit := max (nCommit n) (sIndex s)\<rparr>"
      note c = compacted_ok [OF ok s agree Inr n3_def]
      define r where "r = (snapshot_response n3 m)\<lparr>msgLogIndex := max (sIndex s) (sIndex (nSnap n3))\<rparr>"
      define n2 where "n2 = (compacted n s)\<lparr>nMembership := mm\<rparr>"
      have n3: "(if nCommit n2 < sIndex s then n2\<lparr>nCommit := sIndex s\<rparr> else n2) = n3"
        by (auto simp: n2_def n3_def compacted_def max_def)
      have "install_snapshot n m s u = Inr (n3, add_messages (u\<lparr>uSnapshot := Some s\<rparr>) [r])"
        unfolding install_snapshot_def if_not_P [OF False] using Inr compactLog_nat [OF ok s(1)] n3
        by (simp add: rebuildMembership_def r_def Let_def del: if_split flip: n2_def)
      moreover have "evolves n (add_messages (u\<lparr>uSnapshot := Some s\<rparr>) [r]) n3"
        using c wf s(1) by (intro evolves_snapshot [where s = s])
          (auto simp: n3_def compacted_def hardState_def r_def snapshot_response_def plain_message_def is_grant_def)
      ultimately show ?thesis by simp
    qed
  qed
qed

lemma handleSnapshot_returns:
  assumes "wf_node n" "case msgSnapshot m of None \<Rightarrow> True | Some s \<Rightarrow> unat (sIndex s) < 2 ^ 64 - 1"
  shows "returns (handleSnapshot n m) (\<lambda>(n', v). evolves n v n')"
proof -
  have rej: "evolves n (add_messages (no_update\<lparr>uRoleChanged := c\<rparr>) [(snapshot_response n1 m)\<lparr>msgReject := b, msgRejectHint := h, msgLogIndex := i\<rparr>]) n1"
    if "same_core n n1" "wf_node n1" for n1 c b h i
    using that by (intro evolves_core) (auto simp: snapshot_response_def plain_message_def is_grant_def same_core_eqs)
  have rej1: "evolves n (add_messages (no_update\<lparr>uRoleChanged := c\<rparr>) [reject_snapshot n1 m]) n1"
    if "same_core n n1" "wf_node n1" for n1 c
    using rej [OF that, where c = c and b = True and h = "lastIndex n1 + 1" and i = 0] by (simp add: reject_snapshot_def snapshot_response_def message_def)
  have rej2: "evolves n (add_messages (no_update\<lparr>uRoleChanged := c\<rparr>) [(snapshot_response n1 m)\<lparr>msgLogIndex := i\<rparr>]) n1"
    if "same_core n n1" "wf_node n1" for n1 c i
    using rej [OF that, where c = c and b = False and h = 0 and i = i] by (simp add: snapshot_response_def message_def)
  have rej0: "evolves n (no_update\<lparr>uMessages := [reject_snapshot n m]\<rparr>) n"
    using rej1 [OF same_core_refl assms(1), of False] by (simp add: add_messages_def no_update_def)
  show ?thesis
  proof (cases "msgSnapshot m")
    case None
    then show ?thesis using rej0 by (simp add: handleSnapshot_def)
  next
    case (Some s)
    have "returns (rbind (follow n (msgFrom m)) (\<lambda>(n, u).
        let s = (if Voters (sMembership s) = [] then s\<lparr>sMembership := nInitial n\<rparr> else s)
        in if validateMembership (sMembership s) \<noteq> Inr ()
           then Inr (n, add_messages u [reject_snapshot n m])
           else if mbIndex (sMembership s) > sIndex s
           then Inr (n, add_messages u [reject_snapshot n m])
           else if sIndex s > sIndex (nSnap n) then install_snapshot n m s u
           else Inr (n, add_messages u
             [(snapshot_response n m)\<lparr>msgLogIndex := max (sIndex s) (sIndex (nSnap n))\<rparr>])))
        (\<lambda>(n', v). evolves n v n')" if nz: "\<not> (sIndex s = 0 \<or> sTerm s = 0)"
      unfolding returns_rbind
    proof (rule returns_mono [OF follow_returns [OF assms(1)]], clarify)
      fix n1 c assume n1: "same_core n n1" "wf_node n1" "nRole n1 = Follower"
      define s1 where "s1 = (if Voters (sMembership s) = [] then s\<lparr>sMembership := nInitial n1\<rparr> else s)"
      have inst: "returns (install_snapshot n1 m s1 (no_update\<lparr>uRoleChanged := c\<rparr>)) (\<lambda>(n', v). evolves n v n')"
        if "validateMembership (sMembership s1) = Inr ()" "mbIndex (sMembership s1) \<le> sIndex s1" "sIndex s1 > sIndex (nSnap n1)"
      proof (rule returns_mono [OF install_snapshot_returns [OF n1(2,3) refl]])
        show "snapshot_ok s1" using that nz by (auto simp: snapshot_ok_def validateMembership_iff s1_def)
        show "snapN n1 < unat (sIndex s1)" using that(3) by (simp add: snapN_def word_less_nat_alt)
        show "unat (sIndex s1) < 2 ^ 64 - 1" using assms(2) Some by (simp add: s1_def)
      qed (use evolves_from_core [OF n1(1)] in auto)
      show "returns (let s = (if Voters (sMembership s) = [] then s\<lparr>sMembership := nInitial n1\<rparr> else s)
        in if validateMembership (sMembership s) \<noteq> Inr ()
           then Inr (n1, add_messages (no_update\<lparr>uRoleChanged := c\<rparr>) [reject_snapshot n1 m])
           else if mbIndex (sMembership s) > sIndex s
           then Inr (n1, add_messages (no_update\<lparr>uRoleChanged := c\<rparr>) [reject_snapshot n1 m])
           else if sIndex s > sIndex (nSnap n1) then install_snapshot n1 m s (no_update\<lparr>uRoleChanged := c\<rparr>)
           else Inr (n1, add_messages (no_update\<lparr>uRoleChanged := c\<rparr>)
             [(snapshot_response n1 m)\<lparr>msgLogIndex := max (sIndex s) (sIndex (nSnap n1))\<rparr>])) (\<lambda>(n', v). evolves n v n')"
        unfolding s1_def [symmetric] Let_def returns_if
        using inst rej1 [OF n1(1,2)] rej2 [OF n1(1,2)] by (simp add: not_less)
    qed
    then show ?thesis using Some rej0 by (simp add: handleSnapshot_def)
  qed
qed


section \<open>Responses\<close>

lemma leads_from_keeps: "keeps n n1 \<Longrightarrow> leads n1 u n' \<Longrightarrow> leads n u n'"
  by (auto simp: leads_def keeps_def same_core_eqs intro: evolves_from_core)

lemma leads_to_keeps: "leads n u n1 \<Longrightarrow> keeps n1 n' \<Longrightarrow> leads n u n'"
  by (auto simp: leads_def keeps_def same_core_eqs armed_def intro: evolves_to_keeps [unfolded keeps_def])

lemma leads_messages: "leads n u n' \<Longrightarrow> list_all (plain_message n) ms \<Longrightarrow> leads n (add_messages u ms) n'"
  using evolves_messages [of n u n' ms] by (auto simp: leads_def list_all_iff plain_message_def no_grants_def quiet_def)

lemma leads_id: "leads n u n' \<Longrightarrow> nID n' = nID n"
  using evolvesD(2) by (auto simp: leads_def)

lemma leads_keeps:
  assumes "keeps n n'" "wf_node n" "armed n" "list_all (plain_message n) ms"
  shows "leads n (no_update\<lparr>uMessages := ms\<rparr>) n'"
proof -
  have "evolves n (no_update\<lparr>uMessages := ms\<rparr>) n'"
    using assms by (intro evolves_keeps) (auto simp: list_all_iff mild_def)
  then show ?thesis
    using assms keeps_armed by (auto simp: leads_def keeps_def same_core_eqs list_all_iff plain_message_def no_grants_def)
qed

lemma replicate_returns:
  assumes "keeps n n1" "wf_node n" "nRole n = Leader" "room n 1"
  shows "returns (rbind (settleOutstanding n1 p) (\<lambda>n. rbind (maybeCommit n) (\<lambda>(n, u).
      if cond n then rbind (appendMessage n p c origin) (\<lambda>(n, a). Inr (n, add_messages u [a])) else Inr (n, u))))
    (\<lambda>(n', u). leads n u n')"
proof -
  have a1: "nOut n1 \<noteq> None" using assms by (simp add: keeps_def wf_node_def armed_def)
  have send: "returns (if cond n' then rbind (appendMessage n' p c origin) (\<lambda>(n, a). Inr (n, add_messages u [a])) else Inr (n', u))
      (\<lambda>(n', u). leads n u n')" if l: "leads n u n'" for n' u
  proof -
    have "room n' 0" "nOut n' \<noteq> None" "nOutAge n' \<noteq> None"
      using l evolves_wf [of n u n'] by (auto simp: leads_def armed_def wf_node_def node_ok_def)
    note app = appendMessage_returns [OF this, of p c origin]
    have "returns (appendMessage n' p c origin) (\<lambda>(n'', a). leads n (add_messages u [a]) n'')"
      by (rule returns_mono [OF app])
        (use l leads_to_keeps leads_messages plain_message_cong [OF leads_id [OF l]] in auto)
    then show ?thesis using l by (simp add: case_prod_unfold)
  qed
  have com: "returns (rbind (maybeCommit n2) (\<lambda>(n, u).
      if cond n then rbind (appendMessage n p c origin) (\<lambda>(n, a). Inr (n, add_messages u [a])) else Inr (n, u)))
    (\<lambda>(n', u). leads n u n')" if k: "keeps n1 n2" for n2
  proof -
    have k2: "keeps n n2" using keeps_trans [OF assms(1) k] .
    have "wf_node n2" "nRole n2 = Leader" "room n2 1"
      using keeps_wf [OF k2 assms(2)] k2 assms(3,4) by (auto simp: keeps_def same_core_eqs)
    note mc = maybeCommit_returns [OF this]
    show ?thesis
      unfolding returns_rbind
      by (rule returns_mono [OF mc]) (use send leads_from_keeps [OF k2] in \<open>auto simp del: returns_rbind\<close>)
  qed
  show ?thesis
    unfolding returns_rbind [of "settleOutstanding n1 p"]
    by (rule returns_mono [OF settleOutstanding_returns [OF a1]]) (rule com)
qed

lemma resend_returns:
  assumes "keeps n n1" "wf_node n" "nRole n = Leader"
  shows "returns (rbind (set_outstanding n1 p 0) (\<lambda>n. rbind (appendMessage n p c origin) (\<lambda>(n, a).
      Inr (n, no_update\<lparr>uMessages := [a]\<rparr>)))) (\<lambda>(n', u). leads n u n')"
proof -
  have a: "armed n" "nOut n1 \<noteq> None" using assms by (auto simp: keeps_def wf_node_def armed_def)
  show ?thesis
    unfolding returns_rbind [of "set_outstanding n1 p 0"]
  proof (rule returns_mono [OF set_outstanding_returns [OF a(2)]])
    fix n2 assume "keeps n1 n2"
    then have k: "keeps n n2" using assms(1) keeps_trans by blast
    have "room n2 0" "nOut n2 \<noteq> None" "nOutAge n2 \<noteq> None"
      using k keeps_wf [OF k assms(2)] keeps_armed [OF k a(1)] by (auto simp: armed_def wf_node_def node_ok_def)
    note app = appendMessage_returns [OF this, of p c origin]
    have "nID n2 = nID n" using k by (auto simp: keeps_def same_core_eqs)
    note id = plain_message_cong [OF this]
    show "returns (rbind (appendMessage n2 p c origin) (\<lambda>(n, a). Inr (n, no_update\<lparr>uMessages := [a]\<rparr>))) (\<lambda>(n', u). leads n u n')"
      unfolding returns_rbind
      by (rule returns_mono [OF app]) (use keeps_trans [OF k] assms(2) a(1) id in \<open>auto intro!: leads_keeps\<close>)
  qed
qed

lemma returns_leads:
  "returns r (\<lambda>(n', u). leads n u n') \<Longrightarrow> returns r (\<lambda>(n', u). leads n u n' \<or> n' = n \<and> u = no_update)"
  by (erule returns_mono) auto

lemma handleAppendResponse_returns:
  assumes "wf_node n" "room n 1"
  shows "returns (handleAppendResponse n m) (\<lambda>(n', u). leads n u n' \<or> n' = n \<and> u = no_update)"
proof (cases "nRole n \<noteq> Leader \<or> msgTerm m \<noteq> nTerm n")
  case False
  then have l: "nRole n = Leader" by simp
  define n1 where "n1 = n\<lparr>nActive := (nActive n)(msgFrom m \<mapsto> True)\<rparr>"
  have k: "keeps n (n1\<lparr>nMatch := a, nNext := b\<rparr>)" "keeps n (n1\<lparr>nNext := b\<rparr>)" "keeps n n1" for a b
    by (simp_all add: n1_def keeps_def)
  show ?thesis
  proof (cases "msgReject m")
    case True
    then show ?thesis
      using False resend_returns [OF k(2) assms(1) l]
      by (auto simp: handleAppendResponse_def Let_def n1_def [symmetric] simp del: returns_rbind intro!: returns_leads)
  next
    case ok: False
    define n2 where "n2 = (if msgLogIndex m > mget (nMatch n1) (msgFrom m)
      then n1\<lparr>nMatch := (nMatch n1)(msgFrom m \<mapsto> min (msgLogIndex m) (lastIndex n1)),
              nNext := (nNext n1)(msgFrom m \<mapsto> min (msgLogIndex m) (lastIndex n1) + 1)\<rparr> else n1)"
    have k2: "keeps n n2" using k by (simp add: n2_def)
    show ?thesis
      unfolding handleAppendResponse_def Let_def if_not_P [OF False] if_not_P [OF ok] n1_def [symmetric] n2_def [symmetric]
      by (rule returns_leads, rule replicate_returns [OF k2 assms(1) l assms(2)])
  qed
qed (auto simp: handleAppendResponse_def)

lemma handleSnapshotResponse_returns:
  assumes "wf_node n" "room n 1"
  shows "returns (handleSnapshotResponse n m) (\<lambda>(n', u). leads n u n' \<or> n' = n \<and> u = no_update)"
proof (cases "nRole n \<noteq> Leader \<or> msgTerm m \<noteq> nTerm n")
  case False
  then have l: "nRole n = Leader" by simp
  define n1 where "n1 = n\<lparr>nActive := (nActive n)(msgFrom m \<mapsto> True)\<rparr>"
  have k: "keeps n (n1\<lparr>nMatch := a, nNext := b\<rparr>)" "keeps n n1" for a b
    by (simp_all add: n1_def keeps_def)
  show ?thesis
  proof (cases "msgReject m")
    case True
    then show ?thesis
      using False resend_returns [OF k(2) assms(1) l]
      by (auto simp: handleSnapshotResponse_def Let_def n1_def [symmetric] simp del: returns_rbind intro!: returns_leads)
  next
    case ok: False
    define n2 where "n2 = (if min (msgLogIndex m) (lastIndex n1) > mget (nMatch n1) (msgFrom m)
      then n1\<lparr>nMatch := (nMatch n1)(msgFrom m \<mapsto> min (msgLogIndex m) (lastIndex n1)),
              nNext := (nNext n1)(msgFrom m \<mapsto> min (msgLogIndex m) (lastIndex n1) + 1)\<rparr> else n1)"
    have k2: "keeps n n2" using k by (simp add: n2_def)
    show ?thesis
      unfolding handleSnapshotResponse_def Let_def if_not_P [OF False] if_not_P [OF ok] n1_def [symmetric] n2_def [symmetric]
      by (rule returns_leads, rule replicate_returns [OF k2 assms(1) l assms(2)])
  qed
qed (auto simp: handleSnapshotResponse_def)


section \<open>The exported methods\<close>

text \<open>
  Bounds under which no 64-bit counter of the code wraps: the log can take the message's entries, a
  no-op and a final configuration, and a snapshot's index is not the largest word.
\<close>

definition message_ok :: "Node \<Rightarrow> Message \<Rightarrow> bool" where
  "message_ok n m \<longleftrightarrow> room n (length (msgEntries m) + 2) \<and>
     (case msgSnapshot m of None \<Rightarrow> True | Some s \<Rightarrow> unat (sIndex s) < 2 ^ 64 - 1)"

lemma handle_returns:
  assumes "wf_node n" "message_ok n m" "msgFrom m \<noteq> 0" "t = MsgAppend \<Longrightarrow> malformedAppend m = ''''"
    and "t = MsgPreVoteResponse \<Longrightarrow> nTerm n + 1 \<noteq> 0"
  shows "returns (handle t n m) (\<lambda>(n', u). evolves n u n')"
proof -
  have room: "room n (length (msgEntries m))" "room n 2" "room n 1" "room n 0" using assms(2) by (simp_all add: message_ok_def)
  have snap: "case msgSnapshot m of None \<Rightarrow> True | Some s \<Rightarrow> unat (sIndex s) < 2 ^ 64 - 1"
    using assms(2) by (simp add: message_ok_def)
  have nop: "evolves n no_update n" using assms(1) by (intro evolves_core) simp_all
  have resp: "returns r (\<lambda>(n', u). evolves n u n')" if "returns r (\<lambda>(n', u). leads n u n' \<or> n' = n \<and> u = no_update)" for r
    using that nop by (auto elim!: returns_mono simp: leads_def)
  show ?thesis
  proof (cases t)
    case MsgPreVote
    have "evolves n (no_update\<lparr>uMessages := [handlePreVote n m]\<rparr>) n"
      using assms(1) by (intro evolves_core) (auto simp: handlePreVote_def Let_def plain_message_def is_grant_def mild_def)
    then show ?thesis using MsgPreVote by simp
  qed (use assms room snap handlePreVoteResponse_returns handleVote_returns handleVoteResponse_returns handleAppend_returns
      handleSnapshot_returns resp [OF handleAppendResponse_returns] resp [OF handleSnapshotResponse_returns] in simp_all)
qed

lemma rejectStale_plain: "plain_message n (rejectStale n m)"
  by (cases "msgType m") (auto simp: rejectStale_def Let_def plain_message_def is_grant_def)

lemma raft_Step_evolves:
  assumes "wf_node n" "message_ok n m" "nTerm n + 1 \<noteq> 0"
  shows "returns (raft_Step n m) (\<lambda>(n', u). evolves n u n')"
proof -
  have nop: "evolves n (no_update\<lparr>uDropped := d\<rparr>) n'" "evolves n no_update n'" if "keeps n n'" for n' d
    using assms(1) that by (auto intro!: evolves_keeps simp: mild_def quiet_def)
  have stale: "evolves n (no_update\<lparr>uMessages := [rejectStale n m]\<rparr>) n"
    using assms(1) rejectStale_plain by (intro evolves_core) (auto simp: mild_def)
  define higher where "higher \<longleftrightarrow> msgType m \<noteq> MsgPreVote \<and> msgType m \<noteq> MsgPreVoteResponse \<and> msgTerm m > nTerm n"
  have body: "returns (rbind (if higher then then_merge no_update (becomeFollower n (msgTerm m) 0) else Inr (n, no_update)) (\<lambda>(n, u).
      then_merge u (handle (msgType m) n m))) (\<lambda>(n', u). evolves n u n')"
    if "isCommunicationPeer n (msgFrom m)" "msgType m = MsgAppend \<Longrightarrow> malformedAppend m = ''''"
  proof -
    note shape = that(2)
    have sender: "msgFrom m \<noteq> 0" using isCommunicationPeer_nonzero [OF _ that(1)] assms(1) by (simp add: wf_node_def)
    show ?thesis
    proof (cases higher)
      case False
      then show ?thesis using handle_returns [OF assms(1,2) sender shape] assms(3) by simp
    next
      case True
      have le: "nTerm n \<le> msgTerm m" using True by (simp add: higher_def less_imp_le)
      have "returns (then_merge u (handle (msgType m) n1 m)) (\<lambda>(n', u). evolves n u n')"
        if sd: "steps_down n (msgTerm m) 0 n1 u" for n1 u
      proof -
        have s: "evolves n u n1" "mild u" "no_grants u" "same_log n n1"
          using sd by (simp_all add: steps_down_def no_grants_def)
        have "message_ok n1 m" using assms(2) same_log_eqs [OF s(4)] by (simp add: message_ok_def)
        note h = handle_returns [OF evolves_wf [OF s(1)] this sender shape]
        have "returns (handle (msgType m) n1 m) (\<lambda>(n', v). evolves n (merge u v) n')"
          by (rule returns_mono [OF h]) (use True s evolves_trans [OF s(1) _ s(3)] assms(1) in \<open>auto simp: higher_def\<close>)
        then show ?thesis by (simp add: then_merge_def case_prod_unfold)
      qed
      then show ?thesis
        using True returns_mono [OF becomeFollower_returns [OF assms(1) le]] by (simp add: case_prod_unfold)
    qed
  qed
  show ?thesis
    unfolding raft_Step_def higher_def [symmetric] returns_if
    using nop [of n] nop [of "n\<lparr>nMalformed := nMalformed n + 1\<rparr>"] nop [of "n\<lparr>nIgnored := nIgnored n + 1\<rparr>"] stale body
    by (auto simp: keeps_def simp del: returns_rbind)
qed

lemma check_quorum_returns:
  assumes "wf_node n" "nRole n = Leader" "list_all (plain_message n) ms"
  shows "returns (check_quorum n (no_update\<lparr>uMessages := ms\<rparr>)) (\<lambda>(n', u). leads n u n')"
proof -
  define n1 where "n1 = n\<lparr>nQuorumElapsed := 0, nActive := foldl (\<lambda>a p. a(p \<mapsto> False)) (nActive n) (peers n)\<rparr>"
  define u where "u = no_update\<lparr>uMessages := ms\<rparr>"
  have k: "keeps n n1" by (simp add: n1_def keeps_def)
  have armed: "armed n" using assms by (simp add: wf_node_def)
  note l = leads_keeps [OF k assms(1) armed assms(3), folded u_def]
  have wf1: "wf_node n1" using keeps_wf [OF k assms(1)] .
  have down: "returns (then_merge u (becomeFollower n1 (nTerm n1) 0)) (\<lambda>(n', u). leads n u n')"
  proof -
    have "leads n (merge u v) n'" if sd: "steps_down n1 (nTerm n1) 0 n' v" for n' v
    proof -
      have "evolves n (merge u v) n'"
        using l sd assms(1) evolves_trans [of n u n1 v n'] by (simp add: leads_def steps_down_def mild_def u_def quiet_def)
      moreover have "no_grants (merge u v)" "quiet (merge u v)"
        using l sd by (simp_all add: leads_def steps_down_def mild_def no_grants_def quiet_def)
      ultimately show ?thesis
        using sd armed k same_log_eqs [of n1 n'] keeps_armed [OF k armed]
        by (auto simp: leads_def steps_down_def keeps_def same_core_eqs)
    qed
    then show ?thesis
      using returns_mono [OF becomeFollower_returns [OF wf1 order_refl]] by (simp add: then_merge_def case_prod_unfold)
  qed
  have "peers (n\<lparr>nQuorumElapsed := 0\<rparr>) = peers n" by (simp add: peers_def)
  then show ?thesis
    using down l unfolding check_quorum_def Let_def u_def [symmetric] returns_if by (simp add: n1_def)
qed

lemma raft_Tick_evolves:
  assumes "wf_node n" "nTerm n + 1 \<noteq> 0" "room n 2"
  shows "returns (raft_Tick n) (\<lambda>(n', u). evolves n u n')"
proof (cases "nRole n = Leader")
  case True
  define n0 where "n0 = n\<lparr>nHeartbeatElapsed := nHeartbeatElapsed n + 1, nQuorumElapsed := nQuorumElapsed n + 1\<rparr>"
  have k0: "keeps n n0" by (simp add: n0_def keeps_def)
  have armed: "armed n" using assms True by (simp add: wf_node_def)
  have send: "returns (if nHeartbeatElapsed n1 \<ge> cfgHeartbeatTicks (nCfg n1) then broadcastAppend (n1\<lparr>nHeartbeatElapsed := 0\<rparr>) OriginHeartbeat
      else append_messages n1 expired 0 OriginHeartbeat) (\<lambda>(n2, ms). keeps n n2 \<and> list_all (plain_message n2) ms)"
    if k: "keeps n n1" for n1 expired
  proof -
    define n1' where "n1' = n1\<lparr>nHeartbeatElapsed := 0\<rparr>"
    have k': "keeps n n1'" using k by (simp add: keeps_def n1'_def)
    have w: "wf_node n1" "wf_node n1'" "armed n1" "armed n1'"
      using keeps_wf keeps_armed k k' assms(1) armed by blast+
    have plain: "plain_message n2 = plain_message n3" if "keeps n2 n3" for n2 n3
      using that by (intro plain_message_cong) (auto simp: keeps_def same_core_eqs)
    have "returns (broadcastAppend n1' OriginHeartbeat) (\<lambda>(n2, ms). keeps n n2 \<and> list_all (plain_message n2) ms)"
      by (rule returns_mono [OF broadcastAppend_returns])
        (use w keeps_trans [OF k'] plain in \<open>auto simp: wf_node_def armed_def\<close>)
    moreover have "returns (append_messages n1 expired 0 OriginHeartbeat) (\<lambda>(n2, ms). keeps n n2 \<and> list_all (plain_message n2) ms)"
      by (rule returns_mono [OF append_messages_returns])
        (use w keeps_trans [OF k] plain in \<open>auto simp: wf_node_def node_ok_def armed_def\<close>)
    ultimately show ?thesis unfolding n1'_def by simp
  qed
  have fin: "returns (if nQuorumElapsed n2 \<ge> cfgCheckQuorumTicks (nCfg n2) then check_quorum n2 (no_update\<lparr>uMessages := ms\<rparr>)
      else Inr (n2, no_update\<lparr>uMessages := ms\<rparr>)) (\<lambda>(n', u). evolves n u n')"
    if k: "keeps n n2" "list_all (plain_message n2) ms" for n2 ms
  proof -
    have "wf_node n2" "nRole n2 = Leader" and c: "same_core n n2"
      using keeps_wf [OF k(1) assms(1)] k True by (simp_all add: keeps_def)
    note q = check_quorum_returns [OF this(1,2) k(2)]
    have "nID n2 = nID n" using same_core_eqs(1) [OF c] by simp
    then have "list_all (plain_message n) ms" using k(2) plain_message_cong by metis
    then have "evolves n (no_update\<lparr>uMessages := ms\<rparr>) n2"
      using k(1) assms(1) by (intro evolves_keeps) (auto simp: list_all_iff mild_def)
    moreover have "returns (check_quorum n2 (no_update\<lparr>uMessages := ms\<rparr>)) (\<lambda>(n', u). evolves n u n')"
      by (rule returns_mono [OF q]) (use evolves_from_core [OF c] in \<open>auto simp: leads_def\<close>)
    ultimately show ?thesis by simp
  qed
  have eq: "raft_Tick n = rbind (expireOutstanding n0) (\<lambda>(n, expired).
        rbind (if nHeartbeatElapsed n \<ge> cfgHeartbeatTicks (nCfg n)
               then broadcastAppend (n\<lparr>nHeartbeatElapsed := 0\<rparr>) OriginHeartbeat
               else append_messages n expired 0 OriginHeartbeat) (\<lambda>(n, ms).
          if nQuorumElapsed n \<ge> cfgCheckQuorumTicks (nCfg n)
          then check_quorum n (no_update\<lparr>uMessages := ms\<rparr>)
          else Inr (n, no_update\<lparr>uMessages := ms\<rparr>)))"
    using True by (simp add: raft_Tick_def n0_def)
  have "nOut n0 \<noteq> None" "nOutAge n0 \<noteq> None" using keeps_armed [OF k0 armed] by (simp_all add: armed_def)
  note ex = expireOutstanding_returns [OF this]
  show ?thesis
    unfolding eq returns_rbind
  proof (rule returns_mono [OF ex], clarify)
    fix n1 expired assume "keeps n0 n1"
    then have "keeps n n1" using keeps_trans [OF k0] by blast
    from send [OF this, of expired]
    show "returns (rbind (if nHeartbeatElapsed n1 \<ge> cfgHeartbeatTicks (nCfg n1)
               then broadcastAppend (n1\<lparr>nHeartbeatElapsed := 0\<rparr>) OriginHeartbeat
               else append_messages n1 expired 0 OriginHeartbeat) (\<lambda>(n, ms).
          if nQuorumElapsed n \<ge> cfgCheckQuorumTicks (nCfg n)
          then check_quorum n (no_update\<lparr>uMessages := ms\<rparr>)
          else Inr (n, no_update\<lparr>uMessages := ms\<rparr>))) (\<lambda>(n', u). evolves n u n')"
      unfolding returns_rbind by (rule returns_mono) (use fin in auto)
  qed
next
  case False
  define n1 where "n1 = n\<lparr>nElectionElapsed := nElectionElapsed n + 1\<rparr>"
  have k: "keeps n n1" by (simp add: n1_def keeps_def)
  have c: "same_core n n1" using k by (simp add: keeps_def)
  have "nTerm n1 + 1 \<noteq> 0" "room n1 2" using assms(2,3) same_core_eqs [OF c] by auto
  note pv = startPreVote_returns [OF keeps_wf [OF k assms(1)] this]
  have "returns (startPreVote n1) (\<lambda>(n', u). evolves n u n')"
    by (rule returns_mono [OF pv]) (use evolves_from_core [OF c] in auto)
  moreover have "evolves n no_update n" "evolves n no_update n1"
    using assms(1) k by (auto intro!: evolves_keeps)
  ultimately show ?thesis using False by (simp add: raft_Tick_def Let_def flip: n1_def)
qed


section \<open>Proposals\<close>

text \<open>A leader's proposal: the entries go to the log, perhaps followed by a final configuration.\<close>

definition proposes :: "Node \<Rightarrow> Entry list \<Rightarrow> Update \<Rightarrow> Node \<Rightarrow> bool" where
  "proposes n es u n' \<longleftrightarrow> evolves n u n' \<and> quiet u \<and> no_grants u \<and> nTerm n' = nTerm n \<and> nVotedFor n' = nVotedFor n \<and>
     (nRole n' = Leader \<or> nRole n' = Follower) \<and> unat (nCommit n') \<le> lastN n + length es \<and> (\<exists>fs. uEntries u = es @ fs \<and> length fs \<le> 1)"

lemma publish_returns:
  assumes "wf_node n" "nRole n = Leader" "extends n es n1" "room n1 1"
  shows "returns (rbind (broadcastAppend n1 origin) (\<lambda>(n2, ms).
      rbind (then_merge (no_update\<lparr>uEntries := es, uMessages := ms\<rparr>) (maybeCommit n2)) (\<lambda>(n3, u). Inr (n3, Inr (x, u)))))
    (\<lambda>(n', r). \<exists>u. r = Inr (x, u) \<and> proposes n es u n' \<and>
       (JointVoters (nMembership n1) = [] \<longrightarrow> nMembership n' = nMembership n1))"
proof -
  have e: "node_ok n1" "nRole n1 = Leader" "nTerm n1 = nTerm n" "nVotedFor n1 = nVotedFor n" "armed n1" "nID n1 = nID n"
    using assms by (auto simp: extends_def wf_node_def armed_def)
  have wf1: "wf_node n1" using e assms(1,2) by (simp add: wf_node_def)
  have out: "nOut n1 \<noteq> None" "nOutAge n1 \<noteq> None" using e(5) by (simp_all add: armed_def)
  show ?thesis
    unfolding returns_rbind [of "broadcastAppend n1 origin"]
  proof (rule returns_mono [OF broadcastAppend_returns [OF e(1) out]], clarify)
    fix n2 ms assume k: "keeps n1 n2" and ms: "list_all (plain_message n1) ms"
    define u where "u = no_update\<lparr>uEntries := es, uMessages := ms\<rparr>"
    have c: "same_core n1 n2" using k by (simp add: keeps_def)
    have wf2: "wf_node n2" using keeps_wf [OF k wf1] .
    have n2: "nRole n2 = Leader" "room n2 1" using k e(2) assms(4) same_core_eqs(10) [OF c] by (simp_all add: keeps_def)
    have ev: "evolves n u n2" using assms(1,3) k wf2 ms by (intro extends_evolves) (auto simp: u_def)
    have q: "quiet u" "no_grants u" using ms no_grants_plain by (auto simp: u_def)
    show "returns (rbind (then_merge (no_update\<lparr>uEntries := es, uMessages := ms\<rparr>) (maybeCommit n2)) (\<lambda>(n3, u). Inr (n3, Inr (x, u))))
      (\<lambda>(n', r). \<exists>u. r = Inr (x, u) \<and> proposes n es u n' \<and>
        (JointVoters (nMembership n1) = [] \<longrightarrow> nMembership n' = nMembership n1))"
      unfolding then_merge_def returns_rbind u_def [symmetric]
    proof (rule returns_mono [OF maybeCommit_returns [OF wf2 n2]], clarify)
      fix n3 v assume l: "leads n2 v n3" "length (uEntries v) \<le> 1" "nCommit n3 = commit_candidate n2 (lastIndex n2)"
      then have "evolves n (merge u v) n3"
        using ev q assms(1) by (intro evolves_trans) (auto simp: leads_def quiet_def)
      moreover have "nCommit n2 \<le> lastIndex n2" using wf2 n2(2) by (simp add: wf_node_def node_ok_def le_lastIndex)
      then have "nCommit n3 \<le> lastIndex n2" using commit_candidate_spec l(3) by simp
      then have "unat (nCommit n3) \<le> lastN n + length es"
        using n2(2) assms(3) same_core_eqs(10) [OF c] by (simp add: le_lastIndex extends_def lastN_def snapN_def)
      ultimately have "proposes n es (merge u v) n3" using l q same_core_eqs [OF c] e n2
        by (auto simp: proposes_def leads_def u_def)
      moreover have "JointVoters (nMembership n1) = [] \<longrightarrow> nMembership n3 = nMembership n1"
        using l same_core_eqs(8) [OF c] by (simp add: leads_def)
      ultimately show "returns (Inr (n3, merge u v)) (\<lambda>x'. returns (case x' of (n3, u) \<Rightarrow> Inr (n3, Inr (x, u)))
        (\<lambda>(n', r). \<exists>u. r = Inr (x, u) \<and> proposes n es u n' \<and>
          (JointVoters (nMembership n1) = [] \<longrightarrow> nMembership n' = nMembership n1)))" by auto
    qed
  qed
qed

text \<open>The indices a batch is given: consecutive ones to the commands that fit, zero to the others.\<close>

definition accepted :: "bytes list \<Rightarrow> bytes list" where
  "accepted data = filter (\<lambda>c. length c \<le> MaxEntryBytes) data"

fun assigned :: "nat \<Rightarrow> bytes list \<Rightarrow> nat list" where
  "assigned k [] = []"
| "assigned k (c # cs) = (if length c > MaxEntryBytes then 0 # assigned k cs else (k + 1) # assigned (k + 1) cs)"

lemma propose_loop_exact:
  assumes "propose_loop n data = (n', is, es)" "room n (length (accepted data))" "nTerm n \<noteq> 0"
  shows "n' = n\<lparr>nLog := nLog n @ es\<rparr>" "map unat is = assigned (lastN n) data" "map eData es = accepted data"
    "\<forall>e \<in> set es. eTerm e = nTerm n" "contiguous (lastN n) es"
proof -
  have "n' = n\<lparr>nLog := nLog n @ es\<rparr> \<and> map unat is = assigned (lastN n) data \<and> map eData es = accepted data \<and>
      (\<forall>e \<in> set es. eTerm e = nTerm n) \<and> contiguous (lastN n) es"
    using assms
  proof (induction n data arbitrary: n' "is" es rule: propose_loop.induct)
    case (2 n c cs)
    show ?case
    proof (cases "length c > MaxEntryBytes")
      case True
      then show ?thesis using 2 by (auto simp: accepted_def split: prod.splits)
    next
      case False
      define e where "e = \<lparr>eIndex = lastIndex n + 1, eTerm = nTerm n, eData = c\<rparr>"
      define n1 where "n1 = n\<lparr>nLog := nLog n @ [e]\<rparr>"
      obtain n2 is2 es2 where r: "propose_loop n1 cs = (n2, is2, es2)" by (metis prod_cases3)
      have l: "lastN n1 = lastN n + 1" by (simp add: n1_def lastN_def snapN_def)
      have room: "room n1 (length (accepted cs))" "room n 0" using 2(4) False l by (simp_all add: accepted_def)
      have "n' = n2" "is = eIndex e # is2" "es = e # es2"
        using 2(3) False r by (simp_all add: Let_def e_def [symmetric] n1_def [symmetric])
      moreover have "n2 = n1\<lparr>nLog := nLog n1 @ es2\<rparr> \<and> map unat is2 = assigned (lastN n1) cs \<and> map eData es2 = accepted cs \<and>
          (\<forall>e \<in> set es2. eTerm e = nTerm n1) \<and> contiguous (lastN n1) es2"
        using 2(2) [OF False e_def r [unfolded n1_def]] room(1) 2(5) by (simp add: n1_def)
      moreover have "unat (eIndex e) = lastN n + 1" using room(2) by (simp add: e_def unat_lastIndex_inc)
      ultimately show ?thesis
        using False 2(5) l by (auto simp: accepted_def contiguous_Cons) (simp_all add: e_def n1_def)
    qed
  qed (simp_all add: accepted_def)
  then show "n' = n\<lparr>nLog := nLog n @ es\<rparr>" "map unat is = assigned (lastN n) data" "map eData es = accepted data"
    "\<forall>e \<in> set es. eTerm e = nTerm n" "contiguous (lastN n) es" by simp_all
qed

lemma raft_ProposeBatch_returns:
  assumes "wf_node n" "nRole n = Leader" "room n (length data + 1)" "\<forall>c \<in> set data. \<not> hasMembershipPrefix c"
  shows "returns (raft_ProposeBatch n data) (\<lambda>(n', r). \<exists>is u es. r = Inr (is, u) \<and> map unat is = assigned (lastN n) data \<and>
    map eData es = accepted data \<and> (\<forall>e \<in> set es. eTerm e = nTerm n) \<and> contiguous (lastN n) es \<and> proposes n es u n' \<and>
    (JointVoters (nMembership n) = [] \<longrightarrow> nMembership n' = nMembership n))"
proof -
  obtain n1 "is" es where r: "propose_loop n data = (n1, is, es)" by (metis prod_cases3)
  have len: "length (accepted data) \<le> length data" by (simp add: accepted_def)
  have t: "nTerm n \<noteq> 0" "node_ok n" "armed n" using assms by (simp_all add: wf_node_def)
  have "room n (length (accepted data))" using assms(3) len by simp
  note x = propose_loop_exact [OF r this t(1)]
  have "eData e \<in> set data" if "e \<in> set es" for e
    using arg_cong [OF x(3), of set] that by (auto simp: accepted_def)
  then have plain: "plain es" using assms(4) by (auto simp: plain_def list_ex_iff)
  have le: "length es = length (accepted data)" using arg_cong [OF x(3), of length] by simp
  define n2 where "n2 = n1\<lparr>nMatch := (nMatch n1)(nID n1 \<mapsto> lastIndex n1), nNext := (nNext n1)(nID n1 \<mapsto> lastIndex n1 + 1)\<rparr>"
  have c: "same_core (n\<lparr>nLog := nLog n @ es, nMembership := nMembership n\<rparr>) n2" by (simp add: n2_def x(1) same_core_def)
  have "node_ok n2"
    using append_entries_ok [OF t(2) _ x(5)] assms(3) len le fold_membership_plain [OF plain] by (simp add: same_core_node_ok [OF c])
  then have ext: "extends n es n2" by (simp add: extends_def n2_def x(1))
  have "room n2 1" using assms(3) len le by (simp add: n2_def x(1) lastN_def snapN_def)
  note pub = publish_returns [OF assms(1,2) ext this, of OriginProposal "is"]
  have m: "nMembership n2 = nMembership n" by (simp add: n2_def x(1))
  show ?thesis
  proof (cases "es = []")
    case True
    have "unat (nCommit n) \<le> lastN n" using t(2) by (simp add: node_ok_def)
    then have "proposes n [] no_update n"
      using assms(1,2) evolves_core [of n n no_update] by (simp add: proposes_def)
    then show ?thesis using True r x assms(2) by (auto simp: raft_ProposeBatch_def)
  next
    case False
    have "raft_ProposeBatch n data = rbind (broadcastAppend n2 OriginProposal) (\<lambda>(n, ms).
        rbind (then_merge (no_update\<lparr>uEntries := es, uMessages := ms\<rparr>) (maybeCommit n)) (\<lambda>(n, u). Inr (n, Inr (is, u))))"
      using False r assms(2) by (simp add: raft_ProposeBatch_def Let_def n2_def)
    then show ?thesis
      by (simp only:) (rule returns_mono [OF pub], use x m in auto)
  qed
qed


lemma equalVoters_eq: "equalVoters a b \<longleftrightarrow> a = b"
  by (auto simp: equalVoters_def list_all_iff intro: nth_equalityI)

lemma raft_ProposeMembership_returns:
  assumes "wf_node n" "nRole n = Leader" "room n 2"
  shows "returns (raft_ProposeMembership n voters) (\<lambda>(n', r). case r of
      Inl e \<Rightarrow> n' = n
    | Inr (i, u) \<Rightarrow> JointVoters (nMembership n) = [] \<and> mbIndex (nMembership n) \<le> nCommit n \<and>
        (\<exists>vs. normalizeVoters voters = Inr vs \<and> (vs = Voters (nMembership n) \<and> n' = n \<and> u = no_update \<or>
          (\<exists>e. unat i = lastN n + 2 \<and> eTerm e = nTerm n \<and> unat (eIndex e) = lastN n + 1 \<and>
             decodeMembership (eData e) = Inr (Some \<lparr>cPhase = configJoint, cOld = Voters (nMembership n), cNew = vs\<rparr>) \<and>
             proposes n [e] u n'))))"
proof (cases "JointVoters (nMembership n) \<noteq> [] \<or> mbIndex (nMembership n) > nCommit n")
  case True
  then show ?thesis using assms(2) by (simp add: raft_ProposeMembership_def)
next
  case False
  show ?thesis
  proof (cases "normalizeVoters voters")
    case (Inl x)
    then show ?thesis using False assms(2) by (auto simp: raft_ProposeMembership_def)
  next
    case (Inr vs)
    show ?thesis
    proof (cases "equalVoters vs (Voters (nMembership n))")
      case True
      then show ?thesis using False Inr assms(2) by (auto simp: raft_ProposeMembership_def equalVoters_eq)
    next
      case differ: False
      have ok: "node_ok n" "nTerm n \<noteq> 0" "room n 0" "armed n" using assms by (simp_all add: wf_node_def)
      define c where "c = \<lparr>cPhase = configJoint, cOld = Voters (nMembership n), cNew = vs\<rparr>"
      define e where "e = \<lparr>eIndex = lastIndex n + 1, eTerm = nTerm n, eData = encodeMembership c\<rparr>"
      define mm where "mm = \<lparr>Voters = Voters (nMembership n), JointVoters = vs, mbIndex = lastIndex n + 1\<rparr>"
      have vs: "voters_ok vs" using normalizeVoters_ok [OF Inr] by simp
      have mem: "membership_ok (nMembership n)" "JointVoters (nMembership n) = []" using node_ok_membership [OF ok(1)] False by simp_all
      have "command_ok c" using vs mem by (simp add: command_ok_def c_def membership_ok_def)
      note dec = decode_encode [OF this]
      then have fold: "fold_membership (nMembership n) [e] = Inr mm"
        using mem vs by (simp add: e_def c_def mm_def applyMembership_def)
      have cont: "contiguous (lastN n) [e]" using ok by (simp add: e_def unat_lastIndex_inc)
      have reb: "rebuildMembership (n\<lparr>nLog := nLog n @ [e]\<rparr>) = Inr (n\<lparr>nLog := nLog n @ [e], nMembership := mm\<rparr>)"
        using rebuild_append [OF ok(1) fold] .
      define n1 where "n1 = n\<lparr>nLog := nLog n @ [e], nMembership := mm\<rparr>"
      define n2 where "n2 = n1\<lparr>nNext := (foldl (\<lambda>nx p. if mget nx p = 0 then nx(p \<mapsto> eIndex e) else nx) (nNext n1) (peers n1))
          (nID n1 \<mapsto> eIndex e + 1), nMatch := (nMatch n1)(nID n1 \<mapsto> eIndex e)\<rparr>"
      have "node_ok n1" using append_entries_ok [OF ok(1) _ cont fold] assms(3) by (simp add: n1_def)
      moreover have "same_core n1 n2" by (simp add: n2_def)
      ultimately have "node_ok n2" by (simp add: same_core_node_ok)
      then have ext: "extends n [e] n2" by (simp add: extends_def n2_def n1_def)
      have "room n2 1" using assms(3) by (simp add: n2_def n1_def lastN_def snapN_def)
      note pub = publish_returns [OF assms(1,2) ext this, of OriginOther "eIndex e + 1"]
      have eq: "raft_ProposeMembership n voters = rbind (broadcastAppend n2 OriginOther) (\<lambda>(n, ms).
          rbind (then_merge (no_update\<lparr>uEntries := [e], uMessages := ms\<rparr>) (maybeCommit n)) (\<lambda>(n, u).
            Inr (n, Inr (eIndex e + 1, u))))"
        using False Inr differ reb assms(2)
        by (simp add: raft_ProposeMembership_def Let_def c_def [symmetric] e_def [symmetric] n1_def [symmetric])
          (simp add: n2_def)
      have i: "unat (eIndex e) = lastN n + 1" using ok(3) by (simp add: e_def unat_lastIndex_inc)
      then have "unat (eIndex e + 1) = lastN n + 2" using assms(3) by (simp add: unat_inc_u64)
      moreover have "eTerm e = nTerm n" "decodeMembership (eData e) = Inr (Some c)" using dec by (simp_all add: e_def)
      ultimately show ?thesis
        unfolding eq using Inr i False by (intro returns_mono [OF pub]) (auto simp: c_def not_less)
    qed
  qed
qed

lemma raft_ReadProbe_returns:
  assumes "wf_node n"
  shows "returns (raft_ReadProbe n context) (\<lambda>(n', r). case r of
      Inl e \<Rightarrow> n' = n \<and> (nRole n \<noteq> Leader \<and> e = ErrNotLeader \<or>
        nRole n = Leader \<and> (nCommit n = 0 \<or> termAt n (nCommit n) \<noteq> nTerm n) \<and> e = ErrReadNotReady)
    | Inr u \<Rightarrow> nRole n = Leader \<and> termAt n (nCommit n) = nTerm n \<and> leads n u n')"
proof (cases "nRole n \<noteq> Leader \<or> nCommit n = 0 \<or> termAt n (nCommit n) \<noteq> nTerm n")
  case True
  then show ?thesis by (auto simp: raft_ReadProbe_def)
next
  case False
  have "room n 0" "armed n" using assms False by (simp_all add: wf_node_def node_ok_def)
  then have out: "nOut n \<noteq> None" "nOutAge n \<noteq> None" by (simp_all add: armed_def)
  note app = append_messages_returns [OF \<open>room n 0\<close> out, of "filter (\<lambda>p. p \<noteq> nID n) (peers n)" "context" OriginOther]
  show ?thesis
    using False unfolding raft_ReadProbe_def returns_rbind returns_if
    by simp (rule returns_mono [OF app], use assms \<open>armed n\<close> leads_keeps in auto)
qed

section \<open>Compaction\<close>

lemma takeWhile_contiguous:
  assumes "contiguous base es" "base \<le> unat i"
  shows "takeWhile (\<lambda>e. eIndex e \<le> i) es = take (unat i - base) es"
  using assms
proof (induction es arbitrary: base)
  case (Cons e es)
  then have e: "unat (eIndex e) = base + 1" "contiguous (base + 1) es" by (simp_all add: contiguous_Cons)
  show ?case
  proof (cases "base + 1 \<le> unat i")
    case True
    then have "unat i - base = Suc (unat i - (base + 1))" by simp
    then show ?thesis using Cons.IH [OF e(2) True] True e(1) by (simp add: word_le_nat_alt)
  next
    case False
    then show ?thesis using e(1) Cons.prems(2) by (simp add: word_le_nat_alt)
  qed
qed simp

lemma raft_Compact_returns:
  assumes "wf_node n"
  shows "returns (raft_Compact n s) (\<lambda>(n', r). case r of
      Inl e \<Rightarrow> n' = n
    | Inr u \<Rightarrow> evolves n u n' \<and> nMembership n' = nMembership n \<and> nCommit n' = nCommit n \<and> nRole n' = nRole n \<and>
        nVotes n' = nVotes n \<and> uMessages u = [])"
proof -
  have ok: "node_ok n" "room n 0" using assms by (simp_all add: wf_node_def node_ok_def)
  have com: "unat (nCommit n) \<le> lastN n" "contiguous (snapN n) (nLog n)" using ok by (simp_all add: node_ok_def)
  consider "sIndex s \<le> sIndex (nSnap n)"
    | "\<not> sIndex s \<le> sIndex (nSnap n)" "sIndex s > nCommit n \<or> sTerm s = 0 \<or> termAt n (sIndex s) \<noteq> sTerm s"
    | (valid) "snapN n < unat (sIndex s)" "\<not> (sIndex s > nCommit n \<or> sTerm s = 0 \<or> termAt n (sIndex s) \<noteq> sTerm s)"
    by (cases "sIndex s \<le> sIndex (nSnap n)") (fastforce simp: snapN_def word_le_nat_alt not_le)+
  then show ?thesis
  proof cases
    case 1
    then show ?thesis using evolves_core [of n n no_update] assms by (simp add: raft_Compact_def)
  next
    case 2
    then show ?thesis by (simp add: raft_Compact_def)
  next
    case valid
    define k where "k = unat (sIndex s) - snapN n"
    have le: "unat (sIndex s) \<le> unat (nCommit n)" using valid(2) by (simp add: word_less_nat_alt not_less)
    have not: "\<not> sIndex s \<le> sIndex (nSnap n)" using valid(1) by (simp add: snapN_def word_le_nat_alt)
    have pos: "membershipAt n (sIndex s) = fold_membership (base_membership n) (take k (nLog n))"
      using takeWhile_contiguous [OF com(2)] valid(1) by (simp add: membershipAt_def k_def)
    have "rbind (fold_membership (base_membership n) (take k (nLog n))) (\<lambda>m. fold_membership m (drop k (nLog n))) = Inr (nMembership n)"
      using ok(1) by (simp add: node_ok_def flip: fold_membership_append)
    then obtain m where m: "fold_membership (base_membership n) (take k (nLog n)) = Inr m"
      "fold_membership m (drop k (nLog n)) = Inr (nMembership n)"
      by (auto simp: rbind_Inr_iff)
    have mok: "membership_ok m" using fold_membership_ok [OF base_membership_ok [OF ok(1)] m(1)] .
    define s1 where "s1 = (if Voters (sMembership s) = [] then s\<lparr>sMembership := m\<rparr> else s)"
    have s1: "sIndex s1 = sIndex s" "sTerm s1 = sTerm s" by (simp_all add: s1_def)
    show ?thesis
    proof (cases "sMembership s1 = m \<and> mbIndex m \<le> sIndex s")
      case False
      then show ?thesis
        unfolding raft_Compact_def if_not_P [OF not] if_not_P [OF valid(2)] pos m(1) sum.case Let_def s1_def [symmetric] s1(1)
        by (auto simp: equalVoters_eq intro: Membership.equality)
    next
      case True
      have c: "snapN n < unat (sIndex s1)" "unat (sIndex s1) < 2 ^ 64 - 1" "snapshot_ok s1"
        "unat (sIndex s1) \<le> unat (nCommit n) \<Longrightarrow> termAt n (sIndex s1) = sTerm s1"
        using valid le com(1) ok(2) True mok s1 by (auto simp: snapshot_ok_def)
      have base: "base_membership (compacted n s1) = m"
        using c(1) True mok by (auto simp: base_membership_def compacted_def membership_ok_def voters_ok_def word_less_nat_alt)
      have log: "nLog (compacted n s1) = drop k (nLog n)"
        using compacted_log [OF ok(1) c(1)] valid(2) le com(1) s1 by (simp add: k_def)
      have fold: "fold_membership (base_membership (compacted n s1)) (nLog (compacted n s1)) = Inr (nMembership n)"
        using m(2) base log by simp
      have max: "max (nCommit n) (sIndex s1) = nCommit n" using le s1 by (intro max_absorb1) (simp add: word_le_nat_alt)
      define n' where "n' = (compacted n s1)\<lparr>nMembership := nMembership n, nCommit := max (nCommit n) (sIndex s1)\<rparr>"
      note r = compacted_ok [OF ok(1) c(1,3,2,4) fold n'_def]
      have n': "n' = compacted n s1" "rebuildMembership (compacted n s1) = Inr n'"
        using fold by (simp_all add: n'_def max rebuildMembership_def compacted_def)
      have "evolves n (no_update\<lparr>uSnapshot := Some s1\<rparr>) n'"
        using r assms c(1) by (intro evolves_snapshot [where s = s1]) (auto simp: n'(1) max compacted_def hardState_def armed_def)
      moreover have "raft_Compact n s = Inr (n', Inr (no_update\<lparr>uSnapshot := Some s1\<rparr>))"
        unfolding raft_Compact_def if_not_P [OF not] if_not_P [OF valid(2)] pos m(1) sum.case Let_def s1_def [symmetric]
        using True compactLog_nat [OF ok(1) c(1)] n'(2) s1(1) by (simp add: equalVoters_eq not_less)
      ultimately show ?thesis by (simp add: n'(1) compacted_def)
    qed
  qed
qed

lemma raft_CreateSnapshot_returns:
  assumes "wf_node n"
  shows "returns (raft_CreateSnapshot n index data) (\<lambda>(n', r). case r of
      Inl e \<Rightarrow> n' = n
    | Inr u \<Rightarrow> evolves n u n' \<and> nMembership n' = nMembership n \<and> nCommit n' = nCommit n \<and> nRole n' = nRole n \<and>
        nVotes n' = nVotes n \<and> uMessages u = [])"
  using raft_Compact_returns [OF assms] by (simp add: raft_CreateSnapshot_def split: sum.split)

end
