(* ===== verification/Raft_Node.thy ===== *)
theory Raft_Node
  imports Raft_Handlers
begin

text \<open>
  The node as its driver sees it: construction from the durable state, the exported methods as one
  interface, and runs of calls. The lemmas of the handlers give the properties of every call and, by
  rule induction, of every run: no panic, the invariant, what is durable, votes, and what commits.
\<close>

section \<open>Construction\<close>

lemma if_Inl_iff: "(if c then Inl e else r) = Inr x \<longleftrightarrow> \<not> c \<and> r = Inr x"
  by simp

lemma check_peers_iff: "check_peers seen ps = Inr () \<longleftrightarrow> 0 \<notin> set ps \<and> distinct ps \<and> set ps \<inter> set seen = {}"
  by (induction ps arbitrary: seen) auto

lemma config_validate_iff:
  "config_validate c = Inr () \<longleftrightarrow> cfgID c \<noteq> 0 \<and> cfgPeers c \<noteq> [] \<and> 0 \<notin> set (cfgPeers c) \<and> distinct (cfgPeers c) \<and>
     0 < cfgElectionTickMin c \<and> cfgElectionTickMin c < cfgElectionTickMax c \<and> 0 < cfgHeartbeatTicks c \<and>
     cfgHeartbeatTicks c < cfgElectionTickMin c \<and> 0 < cfgCheckQuorumTicks c \<and> cfgCheckQuorumTicks c \<le> cfgElectionTickMin c"
  using check_peers_iff [of "[]" "cfgPeers c"]
  by (cases "check_peers [] (cfgPeers c)") (auto simp: config_validate_def not_le not_less)

lemma check_log_iff:
  "check_log base i es = Inr () \<longleftrightarrow> (\<forall>j < length es. eIndex (es ! j) = base + word_of_nat (i + j) + 1 \<and> eTerm (es ! j) \<noteq> 0)"
proof (induction es arbitrary: i)
  case (Cons e es)
  have all: "(\<forall>j < length (e # es). P j ((e # es) ! j)) \<longleftrightarrow> P 0 e \<and> (\<forall>j < length es. P (Suc j) (es ! j))" for P
    by (simp add: All_less_Suc2)
  show ?case
    unfolding all [of "\<lambda>j e. eIndex e = base + word_of_nat (i + j) + 1 \<and> eTerm e \<noteq> 0"]
    using Cons.IH [of "i + 1"] by auto
qed simp

lemma check_log_contiguous:
  assumes "unat base + length es < 2 ^ 64 - 1"
  shows "check_log base 0 es = Inr () \<longleftrightarrow> contiguous (unat base) es"
proof -
  have "eIndex e = base + word_of_nat j + 1 \<longleftrightarrow> unat (eIndex e) = unat base + j + 1" if "j < length es" for e :: Entry and j
  proof -
    have "unat (base + word_of_nat j) = unat base + j" using assms that by (simp add: unat_add_u64 unat_of_nat_u64)
    then have "unat (base + word_of_nat j + 1) = unat base + j + 1" using assms that by (simp add: unat_inc_u64)
    then show ?thesis by (auto simp: word_unat_eq_iff)
  qed
  then show ?thesis by (auto simp: check_log_iff contiguous_def)
qed

definition restorable :: "Snapshot list \<Rightarrow> bool" where
  "restorable rs \<longleftrightarrow> length rs \<le> 1 \<and> list_all snapshot_ok rs"

definition restored :: "Snapshot list \<Rightarrow> Snapshot" where
  "restored rs = (case rs of [] \<Rightarrow> zero_snapshot | s # _ \<Rightarrow> s)"

lemma restored_snapshot_Inr:
  "restored_snapshot rs = Inr s \<Longrightarrow> s = restored rs \<and> mbIndex (sMembership s) \<le> sIndex s \<and> (sIndex s = 0 \<longleftrightarrow> sTerm s = 0) \<and>
     (sIndex s = 0 \<longrightarrow> sData s = [])"
proof -
  assume r: "restored_snapshot rs = Inr s"
  consider "rs = []" | x where "rs = [x]" | x y zs where "rs = x # y # zs" by (metis neq_Nil_conv)
  then show ?thesis
  proof cases
    case 1
    then show ?thesis using r by (auto simp: restored_snapshot_def restored_def zero_snapshot_def zero_membership_def)
  next
    case 2
    then have "s = x" "\<not> ((sIndex x = 0) \<noteq> (sTerm x = 0) \<or> sIndex x = 0 \<and> sData x \<noteq> [])" "\<not> mbIndex (sMembership x) > sIndex x"
      using r unfolding restored_snapshot_def by (simp_all only: list.case) (simp_all only: sum.inject sum.distinct not_False_eq_True split: if_splits)
    then show ?thesis using 2 by (auto simp: restored_def)
  qed (use r in \<open>simp add: restored_snapshot_def\<close>)
qed

text \<open>A node that was constructed satisfies the invariant and has the durable state it was given.\<close>

lemma raft_New_ok:
  assumes new: "raft_New cfg hard es rs = Inr n"
    and bounds: "cfgElectionTickMax cfg < 2 ^ 63" "unat (sIndex (restored rs)) + length es < 2 ^ 64 - 1"
  shows "wf_node n" "durable_of n = \<lparr>pHard = hard, pSnap = restored rs, pLog = es\<rparr>" "nRole n = Follower"
    "nCommit n = cfgAppliedIndex cfg" "nID n = cfgID cfg" "nVotes n = Map.empty"
    "Voters (nInitial n) = sort (cfgPeers cfg)" "nLeader n = 0"
proof -
  define s where "s = restored rs"
  from new obtain u1 s' u2 ps where *: "config_validate cfg = Inr u1" "restored_snapshot rs = Inr s'"
    "check_log (sIndex s') 0 es = Inr u2" and norm: "normalizeVoters (cfgPeers cfg) = Inr ps" and
    rest: "(let cfg = cfg\<lparr>cfgPeers := ps\<rparr>; initial = \<lparr>Voters = ps, JointVoters = [], mbIndex = 0\<rparr>
       in rbind (if sIndex s' > 0 \<and> Voters (sMembership s') \<noteq> []
                 then rbind (validateMembership (sMembership s')) (\<lambda>_. Inr (sMembership s'))
                 else Inr initial) (\<lambda>snapshotMembership.
          let n = \<lparr>nCfg = cfg, nRole = Follower, nTerm = hTerm hard, nVotedFor = hVotedFor hard, nLeader = 0,
                   nSnap = s', nLog = es, nCommit = cfgAppliedIndex cfg, nInitial = initial,
                   nMembership = snapshotMembership, nElectionElapsed = 0, nElectionTimeout = 0,
                   nHeartbeatElapsed = 0, nQuorumElapsed = 0, nRandom = cfgRandomSeed cfg,
                   nVotes = Map.empty, nNext = Map.empty, nMatch = Map.empty, nActive = Map.empty,
                   nOut = None, nOutAge = None, nMalformed = 0, nIgnored = 0\<rparr>
          in rbind (rebuildMembership n) (\<lambda>n.
             if cfgAppliedIndex cfg < sIndex s' \<or> cfgAppliedIndex cfg > lastIndex n
             then Inl (Err ''applied index is outside snapshot/log range'')
             else resetElectionTimer
               (if nRandom n = 0 then n\<lparr>nRandom := lcg (cfgID cfg)\<rparr> else n)))) = Inr n"
    unfolding raft_New_def rbind_Inr_iff [of "config_validate cfg"] rbind_Inr_iff [of "restored_snapshot rs"]
      rbind_Inr_iff [of "check_log _ _ _"] rbind_Inr_iff [of "normalizeVoters _"] by blast
  have s': "s' = s" using restored_snapshot_Inr [OF *(2)] by (simp add: s_def)
  have ps: "config_validate cfg = Inr ()" "restored_snapshot rs = Inr s" "check_log (sIndex s) 0 es = Inr ()"
    "normalizeVoters (cfgPeers cfg) = Inr ps"
    using * norm by (simp_all add: s')
  define initial where "initial = \<lparr>Voters = ps, JointVoters = [], mbIndex = 0\<rparr>"
  define n0 where "n0 = \<lparr>nCfg = cfg\<lparr>cfgPeers := ps\<rparr>, nRole = Follower, nTerm = hTerm hard, nVotedFor = hVotedFor hard, nLeader = 0,
                   nSnap = s, nLog = es, nCommit = cfgAppliedIndex cfg, nInitial = initial,
                   nMembership = initial, nElectionElapsed = 0, nElectionTimeout = 0,
                   nHeartbeatElapsed = 0, nQuorumElapsed = 0, nRandom = cfgRandomSeed cfg,
                   nVotes = Map.empty, nNext = Map.empty, nMatch = Map.empty, nActive = Map.empty,
                   nOut = None, nOutAge = None, nMalformed = 0, nIgnored = 0\<rparr>"
  obtain sm where sm: "sIndex s > 0 \<and> Voters (sMembership s) \<noteq> [] \<Longrightarrow> validateMembership (sMembership s) = Inr ()"
    and r: "rbind (rebuildMembership (n0\<lparr>nMembership := sm\<rparr>)) (\<lambda>n.
             if cfgAppliedIndex cfg < sIndex s \<or> cfgAppliedIndex cfg > lastIndex n
             then Inl (Err ''applied index is outside snapshot/log range'')
             else resetElectionTimer (if nRandom n = 0 then n\<lparr>nRandom := lcg (cfgID cfg)\<rparr> else n)) = Inr n"
    using rest by (auto simp: n0_def initial_def Let_def s' rbind_Inr_iff [of "if _ then _ else _"]
        rbind_Inr_iff [of "validateMembership _"] split: if_splits cong: if_cong)
  have rb: "rebuildMembership (n0\<lparr>nMembership := sm\<rparr>) =
      rbind (fold_membership (base_membership n0) es) (\<lambda>m. Inr (n0\<lparr>nMembership := m\<rparr>))"
    by (simp add: rebuildMembership_def n0_def base_membership_def)
  obtain mm where mm: "fold_membership (base_membership n0) es = Inr mm"
    using r unfolding rb by (auto simp: rbind_Inr_iff)
  define n1 where "n1 = n0\<lparr>nMembership := mm\<rparr>"
  have "(if cfgAppliedIndex cfg < sIndex s \<or> cfgAppliedIndex cfg > lastIndex n1
      then Inl (Err ''applied index is outside snapshot/log range'')
      else resetElectionTimer (if nRandom n1 = 0 then n1\<lparr>nRandom := lcg (cfgID cfg)\<rparr> else n1)) = Inr n"
    using r unfolding rb mm rbind_simps n1_def .
  then have cond: "\<not> (cfgAppliedIndex cfg < sIndex s \<or> cfgAppliedIndex cfg > lastIndex n1)"
    and t: "resetElectionTimer (if nRandom n1 = 0 then n1\<lparr>nRandom := lcg (cfgID cfg)\<rparr> else n1) = Inr n"
    unfolding if_Inl_iff by blast+
  then have n1: "n1 = n0\<lparr>nMembership := mm\<rparr>" "\<not> cfgAppliedIndex cfg < sIndex s" "\<not> cfgAppliedIndex cfg > lastIndex n1"
    by (simp_all add: n1_def)
  define n2 where "n2 = (if nRandom n1 = 0 then n1\<lparr>nRandom := lcg (cfgID cfg)\<rparr> else n1)"
  have c2: "same_core n1 n2" "nRole n2 = Follower" "nVotes n2 = Map.empty" "nLeader n2 = 0"
    by (simp_all add: n2_def n1(1) n0_def same_core_def)
  have cfg: "config_ok (cfg\<lparr>cfgPeers := ps\<rparr>)" using ps(1) bounds(1) by (simp add: config_validate_iff config_ok_def)
  have "config_ok (nCfg n2)" using cfg same_core_eqs(1) [OF c2(1)] by (simp add: n1(1) n0_def)
  from returns_Inr [OF t resetElectionTimer_returns [OF this, unfolded n2_def]]
  have k: "keeps n2 n" "nLeader n = 0" using c2(4) by (simp_all add: n2_def)
  have c: "same_core n1 n" using c2(1) k(1) same_core_trans by (auto simp: keeps_def)
  have sok: "snapshot_ok s" using restored_snapshot_Inr [OF ps(2)] sm by (auto simp: snapshot_ok_def validateMembership_iff)
  have lst: "snapN n1 = unat (sIndex s)" "lastN n1 = unat (sIndex s) + length es"
    by (simp_all add: n1(1) n0_def snapN_def lastN_def)
  have f1: "nCfg n1 = cfg\<lparr>cfgPeers := ps\<rparr>" "nSnap n1 = s" "nInitial n1 = initial" "nLog n1 = es" "nCommit n1 = cfgAppliedIndex cfg"
    "nMembership n1 = mm" "base_membership n1 = base_membership n0"
    unfolding n1(1) base_membership_update by (simp_all add: n0_def)
  have init: "initial_ok initial" "Voters initial = ps"
    using normalizeVoters_ok [OF ps(4)] by (simp_all add: initial_ok_def initial_def)
  have room: "room n1 0" using bounds(2) lst by (simp add: s_def)
  have "contiguous (unat (sIndex s)) es" using check_log_contiguous ps(3) bounds(2) by (simp add: s_def)
  moreover have "unat (sIndex s) \<le> unat (cfgAppliedIndex cfg)" "unat (cfgAppliedIndex cfg) \<le> lastN n1"
    using n1(2,3) room by (simp_all add: word_less_nat_alt not_less unat_lastIndex)
  ultimately have "node_ok n1"
    using cfg sok room init mm
    by (simp add: node_ok_def lst f1)
  then have "node_ok n" by (simp add: same_core_node_ok [OF c])
  moreover show role: "nRole n = Follower" "nVotes n = Map.empty" using k(1) c2(2,3) by (simp_all add: keeps_def)
  ultimately show "wf_node n" by (simp add: wf_node_def)
  show "durable_of n = \<lparr>pHard = hard, pSnap = restored rs, pLog = es\<rparr>" "nCommit n = cfgAppliedIndex cfg" "nID n = cfgID cfg"
    "Voters (nInitial n) = sort (cfgPeers cfg)"
    using same_core_eqs [OF c] ps(4)
    by (simp_all add: durable_of_def n1(1) n0_def hardState_def s_def initial_def normalizeVoters_iff)
  show "nLeader n = 0" using k(2) .
qed


text \<open>Conversely a well-formed durable state is accepted.\<close>

definition start_membership :: "Config \<Rightarrow> Snapshot \<Rightarrow> Membership" where
  "start_membership cfg s =
     (if sIndex s > 0 \<and> Voters (sMembership s) \<noteq> [] then sMembership s
      else \<lparr>Voters = sort (cfgPeers cfg), JointVoters = [], mbIndex = 0\<rparr>)"

lemma raft_New_accepts:
  assumes "config_validate cfg = Inr ()" "cfgElectionTickMax cfg < 2 ^ 63" "snapshot_ok s" "contiguous (unat (sIndex s)) es"
    and "unat (sIndex s) + length es < 2 ^ 64 - 1" "sIndex s \<le> cfgAppliedIndex cfg"
    and "unat (cfgAppliedIndex cfg) \<le> unat (sIndex s) + length es"
    and "fold_membership (start_membership cfg s) es = Inr m"
  shows "\<exists>n. raft_New cfg hard es [s] = Inr n \<and> nMembership n = m"
proof -
  define ps where "ps = sort (cfgPeers cfg)"
  define initial where "initial = \<lparr>Voters = ps, JointVoters = [], mbIndex = 0\<rparr>"
  have "\<not> ((sIndex s = 0) \<noteq> (sTerm s = 0) \<or> sIndex s = 0 \<and> sData s \<noteq> [])" "\<not> mbIndex (sMembership s) > sIndex s"
    using assms(3) by (auto simp: snapshot_ok_def)
  then have rs: "restored_snapshot [s] = Inr s" unfolding restored_snapshot_def list.case by (simp only: if_False)
  have cl: "check_log (sIndex s) 0 es = Inr ()" using check_log_contiguous [OF assms(5)] assms(4) by simp
  have nv: "normalizeVoters (cfgPeers cfg) = Inr ps" using assms(1) by (simp add: config_validate_iff normalizeVoters_iff ps_def)
  have sm: "(if sIndex s > 0 \<and> Voters (sMembership s) \<noteq> []
      then rbind (validateMembership (sMembership s)) (\<lambda>_. Inr (sMembership s)) else Inr initial) = Inr (start_membership cfg s)"
    using assms(3) by (simp add: start_membership_def initial_def ps_def snapshot_ok_def validateMembership_iff [THEN iffD2])
  define n0 where "n0 = \<lparr>nCfg = cfg\<lparr>cfgPeers := ps\<rparr>, nRole = Follower, nTerm = hTerm hard, nVotedFor = hVotedFor hard, nLeader = 0,
                   nSnap = s, nLog = es, nCommit = cfgAppliedIndex cfg, nInitial = initial,
                   nMembership = start_membership cfg s, nElectionElapsed = 0, nElectionTimeout = 0,
                   nHeartbeatElapsed = 0, nQuorumElapsed = 0, nRandom = cfgRandomSeed cfg,
                   nVotes = Map.empty, nNext = Map.empty, nMatch = Map.empty, nActive = Map.empty,
                   nOut = None, nOutAge = None, nMalformed = 0, nIgnored = 0\<rparr>"
  have f0: "nSnap n0 = s" "nLog n0 = es" "nInitial n0 = initial" "nCfg n0 = cfg\<lparr>cfgPeers := ps\<rparr>" by (simp_all add: n0_def)
  have "base_membership n0 = start_membership cfg s"
    by (simp add: base_membership_def f0 start_membership_def initial_def ps_def)
  then have rb: "rebuildMembership n0 = Inr (n0\<lparr>nMembership := m\<rparr>)" using assms(8) by (simp add: rebuildMembership_def f0)
  define n1 where "n1 = n0\<lparr>nMembership := m\<rparr>"
  have "lastN n1 = unat (sIndex s) + length es" by (simp add: n1_def lastN_def snapN_def f0)
  then have range: "\<not> (cfgAppliedIndex cfg < sIndex s \<or> cfgAppliedIndex cfg > lastIndex n1)"
    using assms(5-7) by (simp add: not_less le_lastIndex)
  have eq: "raft_New cfg hard es [s] = resetElectionTimer (if nRandom n1 = 0 then n1\<lparr>nRandom := lcg (cfgID cfg)\<rparr> else n1)"
    unfolding raft_New_def assms(1) rs cl nv rbind_simps Let_def initial_def [symmetric] sm
    using rb range by (simp add: n0_def [symmetric] n1_def [symmetric] cong: if_cong)
  define n2 where "n2 = (if nRandom n1 = 0 then n1\<lparr>nRandom := lcg (cfgID cfg)\<rparr> else n1)"
  have n2: "nMembership n2 = m" "nCfg n2 = cfg\<lparr>cfgPeers := ps\<rparr>" by (simp_all add: n2_def n1_def f0)
  have "config_ok (nCfg n2)" using assms(1,2) by (simp add: n2 config_validate_iff config_ok_def)
  from resetElectionTimer_returns [OF this] show ?thesis
    unfolding eq n2_def [symmetric] using n2(1) by (auto simp: returns_ex keeps_def same_core_eqs)
qed

text \<open>
  A restart: the configuration of the node with the applied index the caller kept, the hard state, log
  and snapshot of its store.
\<close>

definition restart :: "Node \<Rightarrow> u64 \<Rightarrow> durable \<Rightarrow> Node result" where
  "restart n applied p = raft_New ((nCfg n)\<lparr>cfgAppliedIndex := applied\<rparr>) (pHard p) (pLog p) [pSnap p]"

lemma restart_returns:
  assumes "wf_node n" "snapN n \<le> unat applied" "unat applied \<le> lastN n"
  shows "returns (restart n applied (durable_of n)) (\<lambda>n'. wf_node n' \<and> durable_of n' = durable_of n \<and>
    nMembership n' = nMembership n \<and> nRole n' = Follower \<and> nCommit n' = applied \<and> nID n' = nID n \<and> nInitial n' = nInitial n)"
proof -
  let ?cfg = "(nCfg n)\<lparr>cfgAppliedIndex := applied\<rparr>"
  have ok: "config_ok (nCfg n)" "snapshot_ok (nSnap n)" "initial_ok (nInitial n)" "Voters (nInitial n) = cfgPeers (nCfg n)"
    "contiguous (snapN n) (nLog n)" "room n 0" "fold_membership (base_membership n) (nLog n) = Inr (nMembership n)"
    using assms(1) by (simp_all add: wf_node_def node_ok_def)
  have peers: "voters_ok (cfgPeers (nCfg n))" using ok(3,4) by (simp add: initial_ok_def)
  then have srt: "sort (cfgPeers (nCfg n)) = cfgPeers (nCfg n)" using voters_ok_distinct by (simp add: sorted_sort_id)
  have cfg: "config_validate ?cfg = Inr ()"
    using ok(1) peers voters_ok_distinct [OF peers] by (simp add: config_validate_iff config_ok_def voters_ok_def)
  have init: "nInitial n = \<lparr>Voters = cfgPeers (nCfg n), JointVoters = [], mbIndex = 0\<rparr>"
    using ok(3,4) by (simp add: initial_ok_def)
  have "start_membership ?cfg (nSnap n) = base_membership n"
    by (simp add: start_membership_def base_membership_def init srt)
  then have "\<exists>n'. raft_New ?cfg (hardState n) (nLog n) [nSnap n] = Inr n' \<and> nMembership n' = nMembership n"
    using cfg ok assms(2,3)
    by (intro raft_New_accepts) (simp_all add: config_ok_def snapN_def lastN_def word_le_nat_alt)
  then obtain n' where n': "raft_New ?cfg (hardState n) (nLog n) [nSnap n] = Inr n'" "nMembership n' = nMembership n" by blast
  have "cfgElectionTickMax ?cfg < 2 ^ 63" "unat (sIndex (restored [nSnap n])) + length (nLog n) < 2 ^ 64 - 1"
    using ok(1,6) by (simp_all add: config_ok_def restored_def lastN_def snapN_def)
  note r = raft_New_ok [OF n'(1) this]
  have "initial_ok (nInitial n')" using r(1) by (simp add: wf_node_def node_ok_def)
  moreover have "Voters (nInitial n') = Voters (nInitial n)" using r(7) by (simp add: srt init)
  ultimately have "nInitial n' = nInitial n" using ok(3) by (simp add: initial_ok_def)
  then show ?thesis
    using n' r by (simp add: restart_def durable_of_def returns_ex restored_def)
qed

section \<open>The interface\<close>

datatype call =
  CallStep Message | CallTick | CallPropose bytes | CallProposeBatch "bytes list" | CallProposeMembership "u64 list"
| CallReadProbe u64 | CallCompact Snapshot | CallCreateSnapshot u64 bytes

text \<open>What a call does to the node and the update it hands to the driver; a returned error has none.\<close>

definition update_of :: "('a \<Rightarrow> Update) \<Rightarrow> 'a result step \<Rightarrow> Update step" where
  "update_of f r = rbind r (\<lambda>(n, x). Inr (n, case x of Inl e \<Rightarrow> no_update | Inr y \<Rightarrow> f y))"

fun raft_call :: "Node \<Rightarrow> call \<Rightarrow> Update step" where
  "raft_call n (CallStep m) = raft_Step n m"
| "raft_call n CallTick = raft_Tick n"
| "raft_call n (CallPropose d) = update_of snd (raft_Propose n d)"
| "raft_call n (CallProposeBatch ds) = update_of snd (raft_ProposeBatch n ds)"
| "raft_call n (CallProposeMembership vs) = update_of snd (raft_ProposeMembership n vs)"
| "raft_call n (CallReadProbe c) = update_of (\<lambda>u. u) (raft_ReadProbe n c)"
| "raft_call n (CallCompact s) = update_of (\<lambda>u. u) (raft_Compact n s)"
| "raft_call n (CallCreateSnapshot i d) = update_of (\<lambda>u. u) (raft_CreateSnapshot n i d)"

fun call_ok :: "Node \<Rightarrow> call \<Rightarrow> bool" where
  "call_ok n (CallStep m) = (message_ok n m \<and> nTerm n + 1 \<noteq> 0)"
| "call_ok n CallTick = (room n 2 \<and> nTerm n + 1 \<noteq> 0)"
| "call_ok n (CallPropose d) = (room n 2 \<and> \<not> hasMembershipPrefix d)"
| "call_ok n (CallProposeBatch ds) = (room n (length ds + 1) \<and> list_all (\<lambda>d. \<not> hasMembershipPrefix d) ds)"
| "call_ok n (CallProposeMembership vs) = room n 2"
| "call_ok n (CallReadProbe c) = True"
| "call_ok n (CallCompact s) = True"
| "call_ok n (CallCreateSnapshot i d) = True"

lemma evolves_idle: "wf_node n \<Longrightarrow> evolves n no_update n"
  by (intro evolves_core) simp_all

lemma returns_update_of:
  assumes "wf_node n" "returns r (\<lambda>(n', x). case x of Inl e \<Rightarrow> n' = n | Inr y \<Rightarrow> evolves n (f y) n')"
  shows "returns (update_of f r) (\<lambda>(n', u). evolves n u n')"
  unfolding update_of_def returns_rbind
  by (rule returns_mono [OF assms(2)]) (use evolves_idle [OF assms(1)] in \<open>auto split: sum.splits\<close>)

lemma proposal_not_leader:
  assumes "nRole n \<noteq> Leader"
  shows "raft_ProposeBatch n ds = Inr (n, Inl ErrNotLeader)" "raft_ProposeMembership n vs = Inr (n, Inl ErrNotLeader)"
  using assms by (simp_all add: raft_ProposeBatch_def raft_ProposeMembership_def)

lemma raft_Propose_returns:
  assumes "wf_node n" "room n 2" "\<not> hasMembershipPrefix d"
  shows "returns (raft_Propose n d) (\<lambda>(n', r). case r of
      Inl e \<Rightarrow> n' = n \<and> (length d > MaxEntryBytes \<and> e = ErrEntryTooLarge \<or> nRole n \<noteq> Leader \<and> e = ErrNotLeader)
    | Inr (i, u) \<Rightarrow> nRole n = Leader \<and> unat i = lastN n + 1 \<and> (\<exists>e. unat (eIndex e) = lastN n + 1 \<and> eTerm e = nTerm n \<and> eData e = d \<and>
        proposes n [e] u n'))"
proof (cases "length d > MaxEntryBytes \<or> nRole n \<noteq> Leader")
  case True
  then show ?thesis by (auto simp: raft_Propose_def proposal_not_leader)
next
  case False
  have "returns (raft_ProposeBatch n [d]) (\<lambda>(n', r). \<exists>is u es. r = Inr (is, u) \<and> map unat is = assigned (lastN n) [d] \<and>
    map eData es = accepted [d] \<and> (\<forall>e \<in> set es. eTerm e = nTerm n) \<and> contiguous (lastN n) es \<and> proposes n es u n' \<and>
    (JointVoters (nMembership n) = [] \<longrightarrow> nMembership n' = nMembership n))"
    using assms False by (intro raft_ProposeBatch_returns) simp_all
  then have "returns (raft_ProposeBatch n [d]) (\<lambda>(n', r). \<exists>i u e. r = Inr ([i], u) \<and> unat i = lastN n + 1 \<and> eData e = d \<and>
      eTerm e = nTerm n \<and> unat (eIndex e) = lastN n + 1 \<and> proposes n [e] u n')"
    by (rule returns_mono) (use False in \<open>auto simp: accepted_def map_eq_Cons_conv\<close>)
  then show ?thesis
    using False unfolding raft_Propose_def returns_if returns_rbind by (auto elim!: returns_mono)
qed

lemma raft_call_evolves:
  assumes "wf_node n" "call_ok n c"
  shows "returns (raft_call n c) (\<lambda>(n', u). evolves n u n')"
proof (cases c)
  case (CallProposeBatch ds)
  have "returns (raft_ProposeBatch n ds) (\<lambda>(n', x). case x of Inl e \<Rightarrow> n' = n | Inr y \<Rightarrow> evolves n (snd y) n')"
  proof (cases "nRole n = Leader")
    case True
    show ?thesis
      by (rule returns_mono [OF raft_ProposeBatch_returns [OF assms(1) True]])
        (use assms(2) CallProposeBatch in \<open>auto simp: proposes_def list_all_iff\<close>)
  qed (simp add: proposal_not_leader)
  then show ?thesis using returns_update_of [OF assms(1)] CallProposeBatch by simp
next
  case (CallProposeMembership vs)
  have "returns (raft_ProposeMembership n vs) (\<lambda>(n', x). case x of Inl e \<Rightarrow> n' = n | Inr y \<Rightarrow> evolves n (snd y) n')"
  proof (cases "nRole n = Leader")
    case True
    have room: "room n 2" using assms(2) CallProposeMembership by simp
    show ?thesis
      by (rule returns_mono [OF raft_ProposeMembership_returns [OF assms(1) True room]])
        (use evolves_idle [OF assms(1)] in \<open>auto simp: proposes_def split: sum.splits prod.splits\<close>)
  qed (simp add: proposal_not_leader)
  then show ?thesis using returns_update_of [OF assms(1)] CallProposeMembership by simp
next
  case (CallPropose d)
  have "returns (raft_Propose n d) (\<lambda>(n', x). case x of Inl e \<Rightarrow> n' = n | Inr y \<Rightarrow> evolves n (snd y) n')"
    by (rule returns_mono [OF raft_Propose_returns])
      (use assms CallPropose in \<open>auto simp: proposes_def split: sum.splits prod.splits\<close>)
  then show ?thesis using returns_update_of [OF assms(1)] CallPropose by simp
next
  case (CallReadProbe i)
  have "returns (raft_ReadProbe n i) (\<lambda>(n', x). case x of Inl e \<Rightarrow> n' = n | Inr y \<Rightarrow> evolves n y n')"
    by (rule returns_mono [OF raft_ReadProbe_returns [OF assms(1)]]) (auto simp: leads_def split: sum.splits)
  then show ?thesis using returns_update_of [OF assms(1)] CallReadProbe by simp
next
  case (CallCompact s)
  have "returns (raft_Compact n s) (\<lambda>(n', x). case x of Inl e \<Rightarrow> n' = n | Inr y \<Rightarrow> evolves n y n')"
    by (rule returns_mono [OF raft_Compact_returns [OF assms(1)]]) (auto split: sum.splits)
  then show ?thesis using returns_update_of [OF assms(1)] CallCompact by simp
next
  case (CallCreateSnapshot i d)
  have "returns (raft_CreateSnapshot n i d) (\<lambda>(n', x). case x of Inl e \<Rightarrow> n' = n | Inr y \<Rightarrow> evolves n y n')"
    by (rule returns_mono [OF raft_CreateSnapshot_returns [OF assms(1)]]) (auto split: sum.splits)
  then show ?thesis using returns_update_of [OF assms(1)] CallCreateSnapshot by simp
qed (use assms raft_Step_evolves raft_Tick_evolves in simp_all)


section \<open>Runs\<close>

inductive raft_run :: "Node \<Rightarrow> Update list \<Rightarrow> Node \<Rightarrow> bool" where
  run_start: "raft_run n [] n"
| run_call: "raft_run n us n1 \<Longrightarrow> call_ok n1 c \<Longrightarrow> raft_call n1 c = Inr (n2, u) \<Longrightarrow> raft_run n (us @ [u]) n2"

text \<open>The life of a node: runs, and restarts from what it had persisted, with an applied index it had committed.\<close>

inductive life :: "Node \<Rightarrow> Update list \<Rightarrow> Node \<Rightarrow> bool" where
  life_start: "life n [] n"
| life_run: "life n us n1 \<Longrightarrow> raft_run n1 vs n2 \<Longrightarrow> life n (us @ vs) n2"
| life_restart: "life n us n1 \<Longrightarrow> snapN n1 \<le> unat a \<Longrightarrow> unat a \<le> unat (nCommit n1) \<Longrightarrow>
    restart n1 a (durable_of n1) = Inr n2 \<Longrightarrow> life n us n2"

lemma raft_call_step:
  assumes "wf_node n" "call_ok n c" "raft_call n c = Inr (n', u)"
  shows "evolves n u n'"
  using returns_Inr [OF assms(3) raft_call_evolves [OF assms(1,2)]] by simp

lemma raft_run_wf: "raft_run n us n' \<Longrightarrow> wf_node n \<Longrightarrow> wf_node n'"
  by (induction rule: raft_run.induct) (auto dest: raft_call_step evolves_wf)

text \<open>One vote per term, on what a node did so far.\<close>

definition votes_kept :: "Node \<Rightarrow> Update list \<Rightarrow> Node \<Rightarrow> bool" where
  "votes_kept n us n' \<longleftrightarrow> nID n' = nID n \<and> durable_of n' = foldl persist (durable_of n) us \<and>
     (nTerm n < nTerm n' \<or> nTerm n' = nTerm n \<and> (nVotedFor n \<noteq> 0 \<longrightarrow> nVotedFor n' = nVotedFor n)) \<and>
     (\<forall>u \<in> set us. \<forall>m \<in> set (uMessages u). msgFrom m = nID n \<and> (is_grant m \<longrightarrow>
        msgTerm m < nTerm n' \<or> msgTerm m = nTerm n' \<and> msgTo m = nVotedFor n' \<and> nVotedFor n' \<noteq> 0)) \<and>
     (\<forall>u \<in> set us. \<forall>v \<in> set us. \<forall>m \<in> set (uMessages u). \<forall>m' \<in> set (uMessages v).
        is_grant m \<and> is_grant m' \<and> msgTerm m = msgTerm m' \<longrightarrow> msgTo m = msgTo m')"

lemma votes_kept_start: "votes_kept n [] n"
  by (simp add: votes_kept_def)

lemma votes_kept_step:
  assumes "votes_kept n us n1" "evolves n1 u n2"
  shows "votes_kept n (us @ [u]) n2"
proof -
  note v = assms(1) [unfolded votes_kept_def]
  note e = evolvesD [OF assms(2)]
  have id: "nID n2 = nID n" using v e(2) by simp
  have new: "msgTerm m = nTerm n2 \<and> msgTo m = nVotedFor n2 \<and> nVotedFor n2 \<noteq> 0" if "m \<in> set (uMessages u)" "is_grant m" for m
    using e(11) that by blast
  have old: "msgTerm m < nTerm n2 \<or> msgTerm m = nTerm n2 \<and> msgTo m = nVotedFor n2 \<and> nVotedFor n2 \<noteq> 0"
    if "w \<in> set us" "m \<in> set (uMessages w)" "is_grant m" for w m
  proof -
    have "msgTerm m < nTerm n1 \<or> msgTerm m = nTerm n1 \<and> msgTo m = nVotedFor n1 \<and> nVotedFor n1 \<noteq> 0" using v that by blast
    then show ?thesis using e(4) by auto
  qed
  have sender: "msgFrom m = nID n" if "w \<in> set (us @ [u])" "m \<in> set (uMessages w)" for w m
    using that v e(10) by auto
  have all: "msgTerm m < nTerm n2 \<or> msgTerm m = nTerm n2 \<and> msgTo m = nVotedFor n2 \<and> nVotedFor n2 \<noteq> 0"
    if "w \<in> set (us @ [u])" "m \<in> set (uMessages w)" "is_grant m" for w m
    using that old new by auto
  have same: "msgTo m = msgTo m'" if "w \<in> set (us @ [u])" "w' \<in> set (us @ [u])" "m \<in> set (uMessages w)" "m' \<in> set (uMessages w')"
      "is_grant m" "is_grant m'" "msgTerm m = msgTerm m'" for w w' m m'
  proof (cases "w \<in> set us \<and> w' \<in> set us")
    case True
    then show ?thesis using v that by blast
  next
    case False
    then have "msgTerm m = nTerm n2" using that new by auto
    then have "msgTo m = nVotedFor n2" "msgTo m' = nVotedFor n2" using all [OF that(1,3,5)] all [OF that(2,4,6)] that(7) by auto
    then show ?thesis by simp
  qed
  have vt: "nTerm n < nTerm n1 \<or> nTerm n1 = nTerm n \<and> (nVotedFor n \<noteq> 0 \<longrightarrow> nVotedFor n1 = nVotedFor n)"
    and vd: "durable_of n1 = foldl persist (durable_of n) us" using v by blast+
  have "nTerm n < nTerm n2 \<or> nTerm n2 = nTerm n \<and> (nVotedFor n \<noteq> 0 \<longrightarrow> nVotedFor n2 = nVotedFor n)" using vt e(4) by auto
  moreover have "durable_of n2 = foldl persist (durable_of n) (us @ [u])" using vd e(5) by simp
  ultimately show ?thesis unfolding votes_kept_def using id sender all same by blast
qed

lemma votes_kept_run: "raft_run n1 vs n2 \<Longrightarrow> wf_node n1 \<Longrightarrow> votes_kept n us n1 \<Longrightarrow> votes_kept n (us @ vs) n2"
proof (induction rule: raft_run.induct)
  case (run_call n1 vs n2 c n3 u)
  then have "evolves n2 u n3" using raft_call_step raft_run_wf by blast
  from votes_kept_step [OF run_call.IH [OF run_call.prems] this] show ?case by simp
qed simp

lemma life_kept:
  assumes "life n us n'" "wf_node n"
  shows "wf_node n' \<and> votes_kept n us n'"
  using assms
proof (induction rule: life.induct)
  case (life_run n us n1 vs n2)
  then show ?case using raft_run_wf votes_kept_run by blast
next
  case (life_restart n us n1 a n2)
  then have w: "wf_node n1" "votes_kept n us n1" by simp_all
  then have "unat a \<le> lastN n1" using life_restart.hyps by (simp add: wf_node_def node_ok_def)
  from returns_Inr [OF life_restart.hyps(4) restart_returns [OF w(1) life_restart.hyps(2) this]]
  have r: "wf_node n2" "durable_of n2 = durable_of n1" "nID n2 = nID n1" by simp_all
  then have t: "nTerm n2 = nTerm n1" "nVotedFor n2 = nVotedFor n1" by (simp_all add: durable_of_def hardState_def)
  have "votes_kept n us n2" using w(2) unfolding votes_kept_def r(2,3) t .
  then show ?case using r(1) by blast
qed (simp add: votes_kept_start)

text \<open>What is committed stays and is handed over once, in order.\<close>

lemma raft_run_commits:
  assumes "raft_run n us n'" "wf_node n"
  shows "nCommit n \<le> nCommit n' \<and> snapN n \<le> snapN n' \<and> (\<forall>i. snapN n' < i \<and> i \<le> unat (nCommit n) \<longrightarrow> entryAt n' i = entryAt n i) \<and>
    ((\<forall>u \<in> set us. uSnapshot u = None) \<longrightarrow> snapN n' = snapN n \<and>
       concat (map uCommitted us) = entries_upto n' (unat (nCommit n)) (unat (nCommit n')))"
  using assms
proof (induction rule: raft_run.induct)
  case (run_call n us n1 c n2 u)
  have wf1: "wf_node n1" using run_call raft_run_wf by blast
  note e = evolvesD [OF raft_call_step [OF wf1 run_call.hyps(2,3)]]
  note mono = evolves_snap_mono [OF raft_call_step [OF wf1 run_call.hyps(2,3)]]
  note ih = run_call.IH [OF run_call.prems]
  have le: "unat (nCommit n) \<le> unat (nCommit n1)" "unat (nCommit n1) \<le> unat (nCommit n2)"
    using ih e(6) by (simp_all add: word_le_nat_alt)
  have keep: "entryAt n2 i = entryAt n i" if "snapN n2 < i" "i \<le> unat (nCommit n)" for i
    using that ih e(7) [OF that(1)] le mono by auto
  have deliver: "snapN n2 = snapN n \<and> concat (map uCommitted (us @ [u])) = entries_upto n2 (unat (nCommit n)) (unat (nCommit n2))"
    if none: "\<forall>u \<in> set (us @ [u]). uSnapshot u = None"
  proof -
    have s: "snapN n2 = snapN n1" "snapN n1 = snapN n"
      using none ih evolves_nSnap [OF raft_call_step [OF wf1 run_call.hyps(2,3)]] by (simp_all add: snapN_def)
    have "snapN n \<le> unat (nCommit n)" using run_call.prems by (simp add: wf_node_def node_ok_def)
    then have "entries_upto n1 (unat (nCommit n)) (unat (nCommit n1)) = entries_upto n2 (unat (nCommit n)) (unat (nCommit n1))"
      using e(7) s by (intro entries_upto_cong) auto
    then show ?thesis using none ih e(8) entries_upto_append [OF le, of n2] s by simp
  qed
  show ?case using ih e(6) mono keep deliver by (auto intro: order_trans)
qed simp


section \<open>A three-node example\<close>

definition sample_cfg :: Config where
  "sample_cfg = \<lparr>cfgID = 1, cfgPeers = [1, 2, 3], cfgElectionTickMin = 10, cfgElectionTickMax = 20, cfgHeartbeatTicks = 2,
     cfgCheckQuorumTicks = 10, cfgRandomSeed = 7, cfgAppliedIndex = 0, cfgMaxAppendBytes = 0, cfgInflightResendTicks = 0\<rparr>"

definition sample_voters :: Membership where
  "sample_voters = \<lparr>Voters = [1, 2, 3], JointVoters = [], mbIndex = 0\<rparr>"

text \<open>A follower in term 2 with two entries of term 1, one of them committed.\<close>

definition sample_node :: Node where
  "sample_node = \<lparr>nCfg = sample_cfg, nRole = Follower, nTerm = 2, nVotedFor = 0, nLeader = 0, nSnap = zero_snapshot,
     nLog = [\<lparr>eIndex = 1, eTerm = 1, eData = []\<rparr>, \<lparr>eIndex = 2, eTerm = 1, eData = [7]\<rparr>], nCommit = 1,
     nInitial = sample_voters, nMembership = sample_voters, nElectionElapsed = 0, nElectionTimeout = 12,
     nHeartbeatElapsed = 0, nQuorumElapsed = 0, nRandom = 7, nVotes = Map.empty, nNext = Map.empty, nMatch = Map.empty,
     nActive = Map.empty, nOut = None, nOutAge = None, nMalformed = 0, nIgnored = 0\<rparr>"

text \<open>The same node as leader of term 2.\<close>

definition sample_leader :: Node where
  "sample_leader = sample_node\<lparr>nRole := Leader, nLeader := 1, nVotedFor := 1, nNext := [1 \<mapsto> 3, 2 \<mapsto> 3, 3 \<mapsto> 3],
     nMatch := [1 \<mapsto> 2], nOut := Some Map.empty, nOutAge := Some Map.empty,
     nLog := [\<lparr>eIndex = 1, eTerm = 1, eData = []\<rparr>, \<lparr>eIndex = 2, eTerm = 2, eData = []\<rparr>]\<rparr>"

text \<open>An append that replaces the second entry.\<close>

definition sample_append :: Message where
  "sample_append = (message MsgAppend 2 1 2)\<lparr>msgLogIndex := 1, msgLogTerm := 1, msgLeaderCommit := 2,
     msgEntries := [\<lparr>eIndex = 2, eTerm = 2, eData = [8]\<rparr>]\<rparr>"

lemma sample_wf: "wf_node sample_node" "wf_node sample_leader" "nRole sample_leader = Leader" "nTerm sample_node = 2"
  "nTerm sample_leader = 2" "lastN sample_node = 2" "lastN sample_leader = 2" "snapN sample_leader = 0" "snapN sample_node = 0"
  "unat (nCommit sample_node) = 1"
  by (simp_all add: wf_node_def node_ok_def armed_def config_ok_def snapshot_ok_def initial_ok_def contiguous_def
      snapN_def lastN_def base_membership_def voters_ok_def decodeMembership_def hasMembershipPrefix_def membershipPrefix_def asc_def
      sample_leader_def sample_node_def sample_cfg_def sample_voters_def zero_snapshot_def zero_membership_def All_less_Suc)


lemma sample_append_ok: "call_ok sample_node (CallStep sample_append)"
  by (simp add: message_ok_def sample_append_def sample_wf)

lemma sample_run: "\<exists>u n'. raft_run sample_node [u] n' \<and> raft_call sample_node (CallStep sample_append) = Inr (n', u)"
proof -
  obtain n' u where "raft_call sample_node (CallStep sample_append) = Inr (n', u)"
    using raft_call_evolves [OF sample_wf(1) sample_append_ok] by (auto simp: returns_ex)
  then show ?thesis using run_call [OF run_start sample_append_ok] by auto
qed

section \<open>Properties\<close>

text \<open>
  C7: No call of the interface panics, and every call keeps the invariant of the node: contiguous log
  behind the snapshot, commit index inside it, the configuration the log spells out, a leader with its
  replication state, configuration of the node unchanged. The premises exclude only 64-bit wrap-around
  of indices and terms and client data that claims to be a configuration entry.
\<close>

theorem raft_call_invariant:
  assumes "wf_node n" "call_ok n c"
  shows "\<exists>n' u. raft_call n c = Inr (n', u) \<and> wf_node n' \<and> nCfg n' = nCfg n"
  using raft_call_evolves [OF assms] evolvesD(1,2) by (auto simp: returns_ex)

theorem raft_call_invariant_witness:
  "wf_node sample_node \<and> call_ok sample_node (CallStep sample_append) \<and>
   (\<exists>n' u. raft_call sample_node (CallStep sample_append) = Inr (n', u) \<and> wf_node n' \<and> nCfg n' = nCfg sample_node)"
  using raft_call_invariant [OF sample_wf(1) sample_append_ok] sample_wf(1) sample_append_ok by blast

text \<open>
  C8: The update of a call describes the durable effect completely: hard state, snapshot, truncation and
  new entries of the update, applied to the durable state before the call, are the durable state after
  it. A node restarted from that state, with an applied index between the snapshot and the last entry,
  is accepted and has the same log, hard state and configuration.
\<close>

theorem raft_call_durable:
  assumes "wf_node n" "call_ok n c"
  shows "\<exists>n' u. raft_call n c = Inr (n', u) \<and> durable_of n' = persist (durable_of n) u \<and>
    (\<forall>a. snapN n' \<le> unat a \<and> unat a \<le> lastN n' \<longrightarrow>
       (\<exists>n''. restart n a (persist (durable_of n) u) = Inr n'' \<and> wf_node n'' \<and> durable_of n'' = durable_of n' \<and>
          nMembership n'' = nMembership n' \<and> nRole n'' = Follower \<and> nCommit n'' = a))"
proof -
  obtain n' u where r: "raft_call n c = Inr (n', u)" and e: "evolves n u n'"
    using raft_call_evolves [OF assms] by (auto simp: returns_ex)
  have same: "restart n a p = restart n' a p" for a p using evolvesD(2) [OF e] by (simp add: restart_def)
  show ?thesis
    using r evolvesD(5) [OF e] restart_returns [OF evolves_wf [OF e]] by (auto simp: same returns_ex)
qed

theorem raft_call_durable_witness:
  "\<exists>n' u. raft_call sample_node (CallStep sample_append) = Inr (n', u) \<and> durable_of n' = persist (durable_of sample_node) u \<and>
    (\<forall>a. snapN n' \<le> unat a \<and> unat a \<le> lastN n' \<longrightarrow>
       (\<exists>n''. restart sample_node a (persist (durable_of sample_node) u) = Inr n'' \<and> wf_node n'' \<and> durable_of n'' = durable_of n' \<and>
          nMembership n'' = nMembership n' \<and> nRole n'' = Follower \<and> nCommit n'' = a))"
  using raft_call_durable [OF sample_wf(1) sample_append_ok] .

text \<open>
  C5: Over its whole life, restarts included, a node never lowers its term, votes at most once per term,
  and never sends two granted votes of one term to different candidates.
\<close>

theorem raft_votes_once:
  assumes "wf_node n" "life n us n'"
  shows "wf_node n' \<and> (nTerm n < nTerm n' \<or> nTerm n' = nTerm n \<and> (nVotedFor n \<noteq> 0 \<longrightarrow> nVotedFor n' = nVotedFor n)) \<and>
    durable_of n' = foldl persist (durable_of n) us \<and>
    (\<forall>u \<in> set us. \<forall>v \<in> set us. \<forall>m \<in> set (uMessages u). \<forall>m' \<in> set (uMessages v).
       is_grant m \<and> is_grant m' \<and> msgTerm m = msgTerm m' \<longrightarrow> msgTo m = msgTo m')"
  using life_kept [OF assms(2,1)] unfolding votes_kept_def by blast

theorem raft_votes_once_witness:
  "\<exists>us n'. us \<noteq> [] \<and> life sample_node us n' \<and>
    wf_node n' \<and> (nTerm sample_node < nTerm n' \<or> nTerm n' = nTerm sample_node \<and>
      (nVotedFor sample_node \<noteq> 0 \<longrightarrow> nVotedFor n' = nVotedFor sample_node)) \<and>
    durable_of n' = foldl persist (durable_of sample_node) us \<and>
    (\<forall>u \<in> set us. \<forall>v \<in> set us. \<forall>m \<in> set (uMessages u). \<forall>m' \<in> set (uMessages v).
       is_grant m \<and> is_grant m' \<and> msgTerm m = msgTerm m' \<longrightarrow> msgTo m = msgTo m')"
proof -
  obtain u n' where "raft_run sample_node [u] n'" using sample_run by blast
  then have l: "life sample_node [u] n'" using life_run [OF life_start] by fastforce
  show ?thesis by (rule exI [of _ "[u]"], rule exI [of _ n']) (use l raft_votes_once [OF sample_wf(1) l] in blast)
qed

text \<open>
  C3: During a run the commit index never goes back, an entry once committed keeps its place and content
  until a snapshot covers it, and as long as no snapshot is installed the committed entries reported by
  the updates are exactly the entries between the two commit indices, each once and in order.
\<close>

theorem raft_commits_once:
  assumes "wf_node n" "raft_run n us n'"
  shows "nCommit n \<le> nCommit n' \<and> (\<forall>i. snapN n' < i \<and> i \<le> unat (nCommit n) \<longrightarrow> entryAt n' i = entryAt n i) \<and>
    ((\<forall>u \<in> set us. uSnapshot u = None) \<longrightarrow>
       concat (map uCommitted us) = entries_upto n' (unat (nCommit n)) (unat (nCommit n')))"
  using raft_run_commits [OF assms(2,1)] by blast

theorem raft_commits_once_witness:
  "\<exists>us n'. us \<noteq> [] \<and> raft_run sample_node us n' \<and>
    nCommit sample_node \<le> nCommit n' \<and> (\<forall>i. snapN n' < i \<and> i \<le> unat (nCommit sample_node) \<longrightarrow> entryAt n' i = entryAt sample_node i) \<and>
    ((\<forall>u \<in> set us. uSnapshot u = None) \<longrightarrow>
       concat (map uCommitted us) = entries_upto n' (unat (nCommit sample_node)) (unat (nCommit n')))"
proof -
  obtain u n' where r: "raft_run sample_node [u] n'" using sample_run by blast
  show ?thesis by (rule exI [of _ "[u]"], rule exI [of _ n']) (use r raft_commits_once [OF sample_wf(1) r] in blast)
qed

end
