(* ===== verification/Raft_Props.thy ===== *)
theory Raft_Props
  imports Raft_Node
begin

text \<open>
  The operations of the node one by one: what an append does to the log of a follower, what a leader
  commits, how much it sends, how a rejection moves its probe, what compaction keeps, and what a
  proposal appends.
\<close>

lemma returns_pair: "returns r (\<lambda>(a, b). P a b) \<Longrightarrow> \<exists>a b. r = Inr (a, b) \<and> P a b"
  by (auto simp: returns_ex)

section \<open>Appends\<close>

lemma finish_append_exact:
  fixes m :: Message
  assumes "wf_node n" "uCommitted u = []"
  defines "lastNew \<equiv> min (msgLogIndex m + word_of_nat (length (msgEntries m))) (lastIndex n)"
  shows "returns (finish_append n m u) (\<lambda>(n', v). n' = n\<lparr>nCommit := max (nCommit n) (min (msgLeaderCommit m) lastNew)\<rparr> \<and>
    uMessages v = uMessages u @ [(append_response n m)\<lparr>msgLogIndex := lastNew, msgContext := msgContext m\<rparr>])"
proof -
  obtain n' v where r: "finish_append n m u = Inr (n', v)" using finish_append_returns [OF assms(1,2), of m] by (auto simp: returns_ex)
  show ?thesis
  proof (cases "min (msgLeaderCommit m) lastNew > nCommit n")
    case True
    have max: "max (nCommit n) (min (msgLeaderCommit m) lastNew) = min (msgLeaderCommit m) lastNew"
      using True by (intro max_absorb2) (rule less_imp_le)
    obtain es where "entriesBetween (n\<lparr>nCommit := min (msgLeaderCommit m) lastNew\<rparr>) (nCommit n + 1) (min (msgLeaderCommit m) lastNew + 1) = Inr es"
      using r True unfolding finish_append_def Let_def lastNew_def [symmetric] by (auto simp: rbind_Inr_iff)
    then show ?thesis
      using True unfolding finish_append_def Let_def lastNew_def [symmetric] max
      by (simp add: append_response_def)
  next
    case False
    then have max: "max (nCommit n) (min (msgLeaderCommit m) lastNew) = nCommit n" by (intro max_absorb1) (simp add: not_less min_le_iff_disj)
    show ?thesis unfolding finish_append_def Let_def lastNew_def [symmetric] max if_not_P [OF False] by simp
  qed
qed

text \<open>The outcome of an append at a follower whose log agrees with the message at its start.\<close>

definition append_outcome :: "Node \<Rightarrow> Message \<Rightarrow> Node \<Rightarrow> Message \<Rightarrow> bool" where
  "append_outcome n m n' r \<longleftrightarrow> msgType r = MsgAppendResponse \<and> msgTo r = msgFrom m \<and> msgTerm r = nTerm n' \<and>
     (if msgReject r then nLog n' = nLog n \<and> nCommit n' = nCommit n
      else unat (msgLogIndex m) \<le> lastN n \<and> termAt n (msgLogIndex m) = msgLogTerm m \<and>
        unat (msgLogIndex r) = unat (msgLogIndex m) + length (msgEntries m) \<and> unat (msgLogIndex r) \<le> lastN n' \<and>
        (\<forall>e \<in> set (msgEntries m). termAt n' (eIndex e) = eTerm e) \<and>
        (\<forall>i. i \<le> unat (msgLogIndex m) \<longrightarrow> entryAt n' i = entryAt n i) \<and>
        nCommit n' = max (nCommit n) (min (msgLeaderCommit m) (msgLogIndex r)))"

lemma termAt_same: "nSnap n' = nSnap n \<Longrightarrow> nLog n' = nLog n \<Longrightarrow> termAt n' i = termAt n i"
  by (simp add: termAt_def lastIndex_def)

lemma finish_outcome:
  assumes "wf_node n2" "uCommitted u = []" "uMessages u = []" "room n2 0"
    and "unat (msgLogIndex m) \<le> lastN n" "termAt n (msgLogIndex m) = msgLogTerm m"
    and "unat (msgLogIndex m) + length (msgEntries m) \<le> lastN n2" "\<forall>e \<in> set (msgEntries m). termAt n2 (eIndex e) = eTerm e"
    and "\<forall>i. i \<le> unat (msgLogIndex m) \<longrightarrow> entryAt n2 i = entryAt n i" "nCommit n2 = nCommit n"
  shows "returns (finish_append n2 m u) (\<lambda>(n', v). \<exists>r. uMessages v = [r] \<and> append_outcome n m n' r)"
proof -
  have u: "unat (msgLogIndex m + word_of_nat (length (msgEntries m))) = unat (msgLogIndex m) + length (msgEntries m)"
    using assms(4,7) by (simp add: unat_add_u64 unat_of_nat_u64)
  then have min: "min (msgLogIndex m + word_of_nat (length (msgEntries m))) (lastIndex n2) =
      msgLogIndex m + word_of_nat (length (msgEntries m))"
    using assms(4,7) by (intro min_absorb1) (simp add: le_lastIndex)
  note fin = finish_append_exact [OF assms(1,2), of m, unfolded min]
  have same: "termAt (n2\<lparr>nCommit := c\<rparr>) i = termAt n2 i" "entryAt (n2\<lparr>nCommit := c\<rparr>) k = entryAt n2 k" "lastN (n2\<lparr>nCommit := c\<rparr>) = lastN n2"
    for c i k by (rule termAt_same, simp, simp) (rule entryAt_same, simp, simp, simp add: lastN_def snapN_def)
  show ?thesis
  proof (rule returns_mono [OF fin], clarify)
    fix v assume v: "uMessages v = uMessages u @ [(append_response n2 m)
      \<lparr>msgLogIndex := msgLogIndex m + word_of_nat (length (msgEntries m)), msgContext := msgContext m\<rparr>]"
    have "append_outcome n m (n2\<lparr>nCommit := max (nCommit n2) (min (msgLeaderCommit m) (msgLogIndex m + word_of_nat (length (msgEntries m))))\<rparr>)
      ((append_response n2 m)\<lparr>msgLogIndex := msgLogIndex m + word_of_nat (length (msgEntries m)), msgContext := msgContext m\<rparr>)"
      using assms(5-10) u
      by (simp add: append_outcome_def append_response_def same)
    then show "\<exists>r. uMessages v = [r] \<and>
      append_outcome n m (n2\<lparr>nCommit := max (nCommit n2) (min (msgLeaderCommit m) (msgLogIndex m + word_of_nat (length (msgEntries m))))\<rparr>) r"
      using v assms(3) by simp
  qed
qed


lemma termAt_entry:
  assumes "room n 0" "snapN n < unat i" "unat i \<le> lastN n"
  shows "termAt n i = eTerm (nLog n ! (unat i - snapN n - 1))"
proof -
  have "i \<noteq> 0" using assms(2) by auto
  then show ?thesis using assms by (simp add: termAt_nat entryAt_def)
qed

text \<open>The log after the append: the part before the message, the entries already there, the rest of the message.\<close>

lemma extended_terms:
  assumes log: "room n2 0" "nSnap n2 = nSnap n" "nLog n2 = take j (nLog n) @ rest" "j \<le> length (nLog n)"
    and m: "snapN n + j = base + length pre" "contiguous base (pre @ rest)" "room n 0"
    and pre: "\<forall>e \<in> set pre. termAt n (eIndex e) = eTerm e"
  shows "\<forall>e \<in> set (pre @ rest). termAt n2 (eIndex e) = eTerm e" "\<forall>i. i \<le> base \<longrightarrow> entryAt n2 i = entryAt n i"
    "lastN n2 = base + length (pre @ rest)"
proof -
  have s: "snapN n2 = snapN n" using log(2) by (simp add: snapN_def)
  show l: "lastN n2 = base + length (pre @ rest)" using log m(1) by (simp add: lastN_def s)
  have keep: "entryAt n2 i = entryAt n i" if "i \<le> snapN n + j" for i
    using that log(3,4) l m(1) by (auto simp: entryAt_def s lastN_def nth_append)
  then show "\<forall>i. i \<le> base \<longrightarrow> entryAt n2 i = entryAt n i" using m(1) by auto
  show "\<forall>e \<in> set (pre @ rest). termAt n2 (eIndex e) = eTerm e"
  proof
    fix e assume "e \<in> set (pre @ rest)"
    then obtain k where k: "k < length (pre @ rest)" "(pre @ rest) ! k = e" unfolding in_set_conv_nth by blast
    then have i: "unat (eIndex e) = base + k + 1" using m(2) by (auto simp: contiguous_def)
    show "termAt n2 (eIndex e) = eTerm e"
    proof (cases "k < length pre")
      case True
      then have "e \<in> set pre" using k by (auto simp: nth_append)
      then have "termAt n (eIndex e) = eTerm e" using pre by blast
      moreover have "entryAt n2 (unat (eIndex e)) = entryAt n (unat (eIndex e))" using keep i m(1) True by simp
      then have "termAt n2 (eIndex e) = termAt n (eIndex e)" using log(2) s unfolding termAt_nat [OF log(1)] termAt_nat [OF m(3)] by simp
      ultimately show ?thesis by simp
    next
      case False
      then have "termAt n2 (eIndex e) = eTerm (nLog n2 ! (unat (eIndex e) - snapN n2 - 1))"
        using i l k(1) m(1) by (intro termAt_entry [OF log(1)]) (simp_all add: s)
      also have "unat (eIndex e) - snapN n2 - 1 = j + (k - length pre)" using i m(1) False by (simp add: s)
      also have "nLog n2 ! (j + (k - length pre)) = e"
        using k False log(3,4) by (auto simp: nth_append)
      finally show ?thesis .
    qed
  qed
qed

lemma append_entries_outcome:
  assumes wf: "wf_node n" "nRole n = Follower" "u = no_update\<lparr>uRoleChanged := c\<rparr>"
    and m: "room n (length (msgEntries m))" "contiguous (unat (msgLogIndex m)) (msgEntries m)" "unat (msgLogIndex m) \<le> lastN n"
    and t: "termAt n (msgLogIndex m) = msgLogTerm m"
  shows "returns (append_entries n m u) (\<lambda>(n', v). \<exists>r. uMessages v = [r] \<and> append_outcome n m n' r)"
proof -
  have ok: "node_ok n" "room n 0" using wf m by (simp_all add: wf_node_def)
  have rej: "append_outcome n m n (reject_append n m h)" for h
    by (simp add: append_outcome_def reject_append_def append_response_def)
  show ?thesis
  proof (cases "plan_append n (msgEntries m)")
    case Present
    have "returns (finish_append n m u) (\<lambda>(n', v). \<exists>r. uMessages v = [r] \<and> append_outcome n m n' r)"
      using plan_append_ok [OF ok(2) m(2,3)] Present wf ok m(3) t by (intro finish_outcome) (simp_all add: plan_ok_def)
    then show ?thesis using Present by (simp add: append_entries_def)
  next
    case Conflict_Committed
    then show ?thesis using rej wf(3) by (simp add: append_entries_def)
  next
    case (Extend cutAt rest)
    define ct where "ct = (case cutAt of None \<Rightarrow> 0 | Some i \<Rightarrow> i)"
    obtain pre where plan: "rest \<noteq> []" "msgEntries m = pre @ rest" "contiguous (unat (msgLogIndex m) + length pre) rest"
      "case cutAt of None \<Rightarrow> unat (msgLogIndex m) + length pre = lastN n
       | Some i \<Rightarrow> unat i = unat (msgLogIndex m) + length pre + 1 \<and> unat i \<le> lastN n \<and> nCommit n < i"
      "\<forall>e \<in> set pre. termAt n (eIndex e) = eTerm e"
      using plan_append_ok [OF ok(2) m(2,3)] Extend unfolding plan_ok_def by auto
    define j where "j = unat (msgLogIndex m) + length pre - snapN n"
    have cutAt: "case cutAt of None \<Rightarrow> True | Some i \<Rightarrow> unat (nCommit n) < unat i \<and> unat i \<le> lastN n"
      using plan(4) by (auto simp: word_less_nat_alt split: option.splits)
    have com: "snapN n \<le> unat (nCommit n)" "unat (nCommit n) \<le> lastN n" using ok by (simp_all add: node_ok_def)
    have j: "snapN n + j = unat (msgLogIndex m) + length pre" "j \<le> length (nLog n)" "unat (nCommit n) \<le> snapN n + j"
      using plan(4) com cutAt by (auto simp: j_def lastN_def split: option.splits)
    have tr: "truncated ct (nSnap n) (nLog n) = take j (nLog n)"
      using plan(4) com cutAt by (auto simp: ct_def truncated_def j_def lastN_def snapN_def split: option.splits)
    have room: "snapN n + j + length rest < 2 ^ 64 - 1" using m(1) j(2) plan(2) by (auto simp: lastN_def)
    define n1 where "n1 = n\<lparr>nLog := take j (nLog n) @ rest\<rparr>"
    define u1 where "u1 = u\<lparr>uTruncateFrom := (case cutAt of None \<Rightarrow> uTruncateFrom u | Some i \<Rightarrow> i), uEntries := uEntries u @ rest\<rparr>"
    have fin: "returns (finish_append (n1\<lparr>nMembership := mm\<rparr>) m u1) (\<lambda>(n', v). \<exists>r. uMessages v = [r] \<and> append_outcome n m n' r)"
      if "fold_membership (base_membership n) (nLog n1) = Inr mm" for mm
    proof -
      have "contiguous (snapN n + j) rest" using plan(3) j(1) by simp
      then have nok: "node_ok (n1\<lparr>nMembership := mm\<rparr>)"
        using node_ok_cut [OF ok(1) j(2,3) _ room, of mm] that by (simp add: n1_def)
      then have r2: "room (n1\<lparr>nMembership := mm\<rparr>) 0" by (simp add: node_ok_def)
      note x = extended_terms [OF r2 _ _ j(2,1) m(2) [unfolded plan(2)] ok(2) plan(5), unfolded n1_def, simplified]
      show ?thesis
        using wf nok m(3) t r2 x by (intro finish_outcome) (auto simp: wf_node_def n1_def u1_def plan(2))
    qed
    have n1m: "n1\<lparr>nMembership := nMembership n\<rparr> = n1" by (simp add: n1_def)
    have "fold_membership (base_membership n) (nLog n1) = Inr (nMembership n)" if "cutAt = None" "plain rest"
      using that ok(1) tr by (simp add: n1_def ct_def truncated_def node_ok_def fold_membership_append fold_membership_plain)
    note same = fin [OF this, unfolded n1m]
    have reb: "returns (case rebuildMembership n1 of
            Inl _ \<Rightarrow> Inr (n, add_messages (u\<lparr>uTruncateFrom := 0, uEntries := []\<rparr>) [reject_append n m (lastIndex n + 1)])
          | Inr n2 \<Rightarrow> finish_append n2 m u1) (\<lambda>(n', v). \<exists>r. uMessages v = [r] \<and> append_outcome n m n' r)"
    proof (cases "fold_membership (base_membership n) (nLog n1)")
      case (Inl e)
      then have "rebuildMembership n1 = Inl e" by (simp add: rebuildMembership_def n1_def)
      then show ?thesis using rej wf(3) by simp
    next
      case (Inr mm)
      then have "rebuildMembership n1 = Inr (n1\<lparr>nMembership := mm\<rparr>)" by (simp add: rebuildMembership_def n1_def)
      then show ?thesis using fin [OF Inr] by simp
    qed
    show ?thesis
      unfolding append_entries_def Extend append_plan.case extend_log_nat [OF ok(1) cutAt] rbind_simps Let_def u1_def [symmetric]
        ct_def [symmetric] tr n1_def [symmetric]
      using same reb by (simp add: plain_def)
  qed
qed

lemma handleAppend_outcome:
  assumes "wf_node n" "room n (length (msgEntries m))" "malformedAppend m = ''''"
  shows "returns (handleAppend n m) (\<lambda>(n', v). \<exists>r. uMessages v = [r] \<and> append_outcome n m n' r)"
  unfolding handleAppend_def returns_rbind
proof (rule returns_mono [OF follow_returns [OF assms(1)]], clarify)
  fix n1 c assume c1: "same_core n n1" and wf1: "wf_node n1" "nRole n1 = Follower"
  have ok1: "room n1 (length (msgEntries m))" "room n1 0" using assms(2) by (simp_all add: same_core_eqs [OF c1])
  have out: "append_outcome n m n' r = append_outcome n1 m n' r" for n' r
    using same_core_eqs [OF c1] same_core_funs [OF c1] by (simp add: append_outcome_def)
  have rej: "append_outcome n1 m n1 (reject_append n1 m h)" for h
    by (simp add: append_outcome_def reject_append_def append_response_def)
  show "returns (if msgLogIndex m > lastIndex n1 \<or> termAt n1 (msgLogIndex m) \<noteq> msgLogTerm m
      then let hint = (if msgLogIndex m \<le> lastIndex n1
             then conflict_hint n1 (termAt n1 (msgLogIndex m)) (msgLogIndex m) else lastIndex n1 + 1)
           in Inr (n1, add_messages (no_update\<lparr>uRoleChanged := c\<rparr>) [reject_append n1 m hint])
      else append_entries n1 m (no_update\<lparr>uRoleChanged := c\<rparr>)) (\<lambda>(n', v). \<exists>r. uMessages v = [r] \<and> append_outcome n m n' r)"
  proof (cases "msgLogIndex m > lastIndex n1 \<or> termAt n1 (msgLogIndex m) \<noteq> msgLogTerm m")
    case True
    then show ?thesis using rej by (simp add: Let_def out)
  next
    case False
    then have le: "unat (msgLogIndex m) \<le> lastN n1" using ok1 by (simp add: not_less le_lastIndex)
    have "contiguous (unat (msgLogIndex m)) (msgEntries m)"
      using malformedAppend_contiguous [OF assms(3)] le ok1 by simp
    from append_entries_outcome [OF wf1 refl ok1(1) this le] False show ?thesis by (simp add: out)
  qed
qed



lemma sample_append_shape:
  "room sample_node (length (msgEntries sample_append))" "malformedAppend sample_append = ''''"
proof -
  show "room sample_node (length (msgEntries sample_append))" by (simp add: sample_wf sample_append_def)
  show "malformedAppend sample_append = ''''"
    unfolding malformedAppend_def malformed_loop_ok by (simp add: sample_append_def message_def MaxEntryBytes_def)
qed


text \<open>
  C27: Exactly which appends are malformed, and that a malformed one addressed to the node by a peer is
  counted and reported and changes nothing else: no term, no role, no timer, no log, no answer.
\<close>

theorem malformed_append_dropped:
  "(malformedAppend m = '''' \<longleftrightarrow>
     (\<forall>j < length (msgEntries m). eIndex (msgEntries m ! j) = msgLogIndex m + word_of_nat j + 1 \<and> eTerm (msgEntries m ! j) \<noteq> 0 \<and>
        length (eData (msgEntries m ! j)) \<le> MaxEntryBytes \<and> eTerm (msgEntries m ! j) \<le> msgTerm m) \<and>
     sorted_wrt (\<le>) (msgLogTerm m # map eTerm (msgEntries m))) \<and>
   (msgType m = MsgAppend \<and> msgTo m = nID n \<and> isCommunicationPeer n (msgFrom m) \<and> msgFrom m \<noteq> nID n \<and> malformedAppend m \<noteq> '''' \<longrightarrow>
     (\<exists>d. d \<noteq> '''' \<and> raft_Step n m = Inr (n\<lparr>nMalformed := nMalformed n + 1\<rparr>, no_update\<lparr>uDropped := d\<rparr>)))"
proof (rule conjI, simp add: malformedAppend_def malformed_loop_ok, rule impI)
  let ?d = "''from '' @ show_nat (unat (msgFrom m)) @ '' at term '' @ show_nat (unat (msgTerm m)) @ '': '' @ malformedAppend m"
  assume "msgType m = MsgAppend \<and> msgTo m = nID n \<and> isCommunicationPeer n (msgFrom m) \<and> msgFrom m \<noteq> nID n \<and> malformedAppend m \<noteq> ''''"
  then have "raft_Step n m = Inr (n\<lparr>nMalformed := nMalformed n + 1\<rparr>, no_update\<lparr>uDropped := ?d\<rparr>)" by (simp add: raft_Step_def)
  moreover have "?d \<noteq> ''''" by simp
  ultimately show "\<exists>d. d \<noteq> '''' \<and> raft_Step n m = Inr (n\<lparr>nMalformed := nMalformed n + 1\<rparr>, no_update\<lparr>uDropped := d\<rparr>)" by blast
qed

definition gap_append :: Message where
  "gap_append = sample_append\<lparr>msgEntries := [\<lparr>eIndex = 5, eTerm = 2, eData = []\<rparr>]\<rparr>"

lemma gap_append_fields: "msgType gap_append = MsgAppend" "msgTo gap_append = nID sample_node" "msgFrom gap_append = 2"
  "nID sample_node = 1" "length (msgEntries gap_append) = 1" "eIndex (msgEntries gap_append ! 0) = 5" "msgLogIndex gap_append = 1"
  by (simp_all add: gap_append_def sample_append_def message_def sample_node_def sample_cfg_def)

lemma gap_append_sender: "isCommunicationPeer sample_node 2"
  by (simp add: isCommunicationPeer_def replicationPeers_def peers_def sample_node_def sample_voters_def) code_simp

theorem malformed_append_dropped_witness:
  "malformedAppend gap_append \<noteq> '''' \<and> (\<exists>d. d \<noteq> '''' \<and>
     raft_Step sample_node gap_append = Inr (sample_node\<lparr>nMalformed := nMalformed sample_node + 1\<rparr>, no_update\<lparr>uDropped := d\<rparr>))"
proof -
  note p = malformed_append_dropped [of gap_append sample_node]
  have "malformedAppend gap_append \<noteq> ''''" using p by (simp add: gap_append_fields)
  then show ?thesis using p gap_append_sender by (simp add: gap_append_fields)
qed

section \<open>Commitment\<close>

definition may_commit :: "Node \<Rightarrow> u64 \<Rightarrow> bool" where
  "may_commit n c \<longleftrightarrow> termAt n c = nTerm n \<and> hasQuorum (nMembership n) (\<lambda>x. mget (nMatch n) x \<ge> c)"

text \<open>
  C16: A leader commits exactly what it may: the commit index moves to the largest index of its own term
  that a quorum of the configuration, of both configurations during a change, has acknowledged, and
  stays where it is when there is none above it.
\<close>

theorem maybeCommit_exact:
  assumes "wf_node n" "nRole n = Leader" "room n 1"
  shows "\<exists>n' u. maybeCommit n = Inr (n', u) \<and> wf_node n' \<and> nCommit n \<le> nCommit n' \<and>
    (nCommit n' = nCommit n \<or> may_commit n (nCommit n')) \<and> (\<forall>c. nCommit n' < c \<and> c \<le> lastIndex n \<longrightarrow> \<not> may_commit n c)"
proof -
  obtain n' u where m: "maybeCommit n = Inr (n', u)" "leads n u n'" "nCommit n' = commit_candidate n (lastIndex n)"
    using maybeCommit_returns [OF assms(1-3)] by (auto simp: returns_ex)
  have "nCommit n \<le> lastIndex n" using assms(1) by (simp add: wf_node_def node_ok_def le_lastIndex)
  from commit_candidate_spec [OF this] show ?thesis
    using m evolvesD(1,6) [of n u n'] by (auto simp: may_commit_def leads_def)
qed

theorem maybeCommit_exact_witness:
  "\<exists>n' u. maybeCommit sample_leader = Inr (n', u) \<and> wf_node n' \<and> nCommit sample_leader \<le> nCommit n' \<and>
    (nCommit n' = nCommit sample_leader \<or> may_commit sample_leader (nCommit n')) \<and>
    (\<forall>c. nCommit n' < c \<and> c \<le> lastIndex sample_leader \<longrightarrow> \<not> may_commit sample_leader c)"
  using maybeCommit_exact [OF sample_wf(2,3)] by (simp add: sample_wf)


section \<open>Replication\<close>

definition entry_size :: "Entry \<Rightarrow> nat" where
  "entry_size e = length (eData e) + EntryOverheadBytes"

definition entries_size :: "Entry list \<Rightarrow> nat" where
  "entries_size es = sum_list (map entry_size es)"

definition append_limit :: "Node \<Rightarrow> u64" where
  "append_limit n = (if cfgMaxAppendBytes (nCfg n) = 0 then word_of_nat defaultMaxAppendBytes else cfgMaxAppendBytes (nCfg n))"

lemma entries_size_simps [simp]: "entries_size [] = 0" "entries_size (e # es) = entry_size e + entries_size es"
  by (simp_all add: entries_size_def)

lemma entries_size_take: "entries_size (take k es) \<le> entries_size es"
proof -
  have "entries_size es = entries_size (take k es) + entries_size (drop k es)"
    unfolding entries_size_def map_append [symmetric] sum_list_append [symmetric] append_take_drop_id ..
  then show ?thesis by simp
qed

lemma capped_count_spec:
  assumes "unat sz + entries_size es < 2 ^ 64" "k = capped_count limit sz first es"
  shows "(k = 0 \<or> first \<and> k = 1 \<or> unat sz + entries_size (take k es) \<le> unat limit) \<and>
    (k < length es \<longrightarrow> unat limit < unat sz + entries_size (take (k + 1) es)) \<and> (first \<and> es \<noteq> [] \<longrightarrow> 1 \<le> k)"
  using assms
proof (induction limit sz first es arbitrary: k rule: capped_count.induct)
  case (2 limit sz first e es)
  define s :: u64 where "s = word_of_nat (length (eData e)) + word_of_nat EntryOverheadBytes"
  have "unat s = entry_size e" using 2(2) by (simp add: s_def entry_size_def EntryOverheadBytes_def unat_add_u64 unat_of_nat_u64)
  then have sz: "unat (sz + s) = unat sz + entry_size e" using 2(2) by (simp add: unat_add_u64)
  show ?case
  proof (cases "\<not> first \<and> sz + s > limit")
    case True
    then have "k = 0" using 2(3) by (simp add: Let_def s_def)
    then show ?thesis using True sz by (simp add: word_less_nat_alt)
  next
    case False
    define k1 where "k1 = capped_count limit (sz + s) False es"
    have k: "k = 1 + k1" using 2(3) False by (auto simp: Let_def s_def k1_def)
    have "unat (sz + s) + entries_size es < 2 ^ 64" using 2(2) sz by simp
    from 2(1) [OF s_def False this k1_def] show ?thesis
      using False sz k by (auto simp: not_less word_le_nat_alt)
  qed
qed simp

text \<open>
  C34: What one append carries to a follower: a run of log entries starting at the requested index, at
  least one when the log has it, never more than the configured number of bytes unless it is a single
  entry, and as many as fit. Total log size below 2^64 bytes keeps the 64-bit sum from wrapping.
\<close>

theorem cappedEntries_bounded:
  assumes "room n 0" "entries_size (nLog n) < 2 ^ 64" "snapN n < unat i" "unat i \<le> lastN n"
  shows "\<exists>k rest. rest = drop (unat i - snapN n - 1) (nLog n) \<and> cappedEntries n i = Inr (take k rest) \<and> 1 \<le> k \<and> k \<le> length rest \<and>
    (k = 1 \<or> entries_size (take k rest) \<le> unat (append_limit n)) \<and>
    (k < length rest \<longrightarrow> unat (append_limit n) < entries_size (take (k + 1) rest))"
proof -
  define rest where "rest = drop (unat i - snapN n - 1) (nLog n)"
  define k where "k = capped_count (append_limit n) 0 True rest"
  have "entries_size (nLog n) = entries_size (take (unat i - snapN n - 1) (nLog n)) + entries_size rest"
    unfolding rest_def entries_size_def map_append [symmetric] sum_list_append [symmetric] append_take_drop_id ..
  then have "unat (0 :: u64) + entries_size rest < 2 ^ 64" using assms(2) by simp
  note s = capped_count_spec [OF this k_def]
  have "rest \<noteq> []" using assms(3,4) by (auto simp: rest_def lastN_def)
  moreover have "cappedEntries n i = Inr (take k rest)"
    using assms(3,4) cappedEntries_nat [OF assms(1), of i] by (simp add: k_def rest_def append_limit_def)
  moreover have "k \<le> length rest" unfolding k_def by (rule capped_count_le)
  ultimately show ?thesis using s by (intro exI [of _ k] exI [of _ rest]) (auto simp: rest_def)
qed

theorem cappedEntries_bounded_witness:
  "\<exists>k rest. rest = drop 0 (nLog sample_leader) \<and> cappedEntries sample_leader 1 = Inr (take k rest) \<and> 1 \<le> k \<and> k \<le> length rest \<and>
    (k = 1 \<or> entries_size (take k rest) \<le> unat (append_limit sample_leader)) \<and>
    (k < length rest \<longrightarrow> unat (append_limit sample_leader) < entries_size (take (k + 1) rest))"
proof -
  have "entries_size (nLog sample_leader) < 2 ^ 64"
    by (simp add: sample_leader_def entry_size_def EntryOverheadBytes_def)
  from cappedEntries_bounded [OF _ this, of 1] show ?thesis by (simp add: sample_wf)
qed

text \<open>
  C35: A rejected append makes progress: the next index the leader probes is at least one above what the
  follower is known to have, and strictly below the previous one as long as there is anything left to
  probe, whatever hint the follower sends. So at most as many rejections as the difference follow.
\<close>

theorem rejected_next_progress:
  assumes "unat (mget (nMatch n) (msgFrom m)) < 2 ^ 64 - 1"
  shows "mget (nMatch n) (msgFrom m) + 1 \<le> rejected_next n m \<and>
    (mget (nMatch n) (msgFrom m) + 1 < mget (nNext n) (msgFrom m) \<longrightarrow> rejected_next n m < mget (nNext n) (msgFrom m)) \<and>
    (mget (nNext n) (msgFrom m) \<le> mget (nMatch n) (msgFrom m) + 1 \<longrightarrow> rejected_next n m = mget (nMatch n) (msgFrom m) + 1)"
proof -
  define nxt where "nxt = mget (nNext n) (msgFrom m)"
  define matched where "matched = mget (nMatch n) (msgFrom m)"
  define probe where "probe = (if msgRejectHint m > 0 \<and> msgRejectHint m < nxt then msgRejectHint m
      else if nxt > 1 then nxt - 1 else nxt)"
  have m1: "unat (matched + 1) = unat matched + 1" using assms by (simp add: unat_inc_u64 matched_def)
  have r: "rejected_next n m = max 1 (max probe (matched + 1))"
    by (simp add: rejected_next_def Let_def probe_def nxt_def matched_def)
  have one: "1 \<le> matched + 1" by (simp add: word_le_nat_alt m1)
  have less: "probe < nxt" if "matched + 1 < nxt"
  proof -
    have "1 < nxt" using one that by (rule order.strict_trans1)
    then show ?thesis by (auto simp: probe_def word_less_nat_alt unat_sub_u64 word_le_nat_alt)
  qed
  have le: "probe \<le> nxt" by (auto simp: probe_def word_le_nat_alt word_less_nat_alt unat_sub_u64)
  show ?thesis
    unfolding r nxt_def [symmetric] matched_def [symmetric]
    using one less le by (auto simp: max_def)
qed

theorem rejected_next_progress_witness:
  "rejected_next sample_leader (message MsgAppendResponse 2 1 2) < mget (nNext sample_leader) 2 \<and>
   mget (nMatch sample_leader) 2 + 1 \<le> rejected_next sample_leader (message MsgAppendResponse 2 1 2)"
proof -
  have v: "mget (nMatch sample_leader) 2 = 0" "mget (nNext sample_leader) 2 = 3"
    by (simp_all add: sample_leader_def mget_def)
  show ?thesis using rejected_next_progress [of sample_leader "message MsgAppendResponse 2 1 2"] by (simp add: v)
qed



text \<open>
  Arming the election timer never panics under a valid configuration, and the timeout it draws lies
  between the configured bounds, whatever the state of the random generator.
\<close>

lemma election_timeout_bounds:
  assumes "config_ok (nCfg n)"
  shows "\<exists>n'. resetElectionTimer n = Inr n' \<and> nElectionElapsed n' = 0 \<and>
    cfgElectionTickMin (nCfg n) \<le> nElectionTimeout n' \<and> nElectionTimeout n' < cfgElectionTickMax (nCfg n) \<and> same_core n n'"
  using resetElectionTimer_returns [OF assms] by (auto simp: returns_ex keeps_def)

section \<open>Proposals and compaction\<close>

text \<open>
  C26: A batch proposed to a leader: every command within the size limit becomes one entry of the current
  term, in the order of the batch and directly behind the log; the indices returned are those of the
  entries, and zero for the commands that are too large; the update persists exactly these entries,
  followed at most by the closing entry of a configuration change. Any other node answers with
  \<open>ErrNotLeader\<close> and keeps its state.
\<close>

theorem raft_ProposeBatch_exact:
  assumes "wf_node n" "room n (length data + 1)" "\<forall>c \<in> set data. \<not> hasMembershipPrefix c"
  shows "if nRole n = Leader
    then \<exists>n' is u es fs. raft_ProposeBatch n data = Inr (n', Inr (is, u)) \<and> map unat is = assigned (lastN n) data \<and>
      map eData es = filter (\<lambda>c. length c \<le> MaxEntryBytes) data \<and> (\<forall>e \<in> set es. eTerm e = nTerm n) \<and>
      contiguous (lastN n) es \<and> uEntries u = es @ fs \<and> length fs \<le> 1 \<and> nLog n' = nLog n @ uEntries u \<and> wf_node n'
    else raft_ProposeBatch n data = Inr (n, Inl ErrNotLeader)"
proof (cases "nRole n = Leader")
  case True
  then obtain n' "is" u es where r: "raft_ProposeBatch n data = Inr (n', Inr (is, u))" "map unat is = assigned (lastN n) data"
    "map eData es = accepted data" "\<forall>e \<in> set es. eTerm e = nTerm n" "contiguous (lastN n) es" "proposes n es u n'"
    using raft_ProposeBatch_returns [OF assms(1) True assms(2,3)] by (auto simp: returns_ex)
  obtain fs where "uEntries u = es @ fs" "length fs \<le> 1" using r(6) by (auto simp: proposes_def)
  moreover have "nLog n' = nLog n @ uEntries u" "wf_node n'"
    using r(6) evolves_snap evolves_wf by (auto simp: proposes_def)
  ultimately show ?thesis unfolding if_P [OF True] using r unfolding accepted_def by blast
qed (simp add: proposal_not_leader)

theorem raft_ProposeBatch_exact_witness:
  "\<exists>n' is u es fs. raft_ProposeBatch sample_leader [[1], [2, 3]] = Inr (n', Inr (is, u)) \<and> map unat is = [3, 4] \<and>
    map eData es = [[1], [2, 3]] \<and> (\<forall>e \<in> set es. eTerm e = 2) \<and> contiguous 2 es \<and> uEntries u = es @ fs \<and> length fs \<le> 1 \<and>
    nLog n' = nLog sample_leader @ uEntries u \<and> wf_node n'"
proof -
  have m: "\<not> hasMembershipPrefix [1]" "\<not> hasMembershipPrefix [2, 3]" by code_simp+
  have "map unat is = assigned 2 [[1], [2, 3]] \<Longrightarrow> map unat is = [3, 4]" for "is" by (simp add: MaxEntryBytes_def)
  then show ?thesis
    using raft_ProposeBatch_exact [OF sample_wf(2), of "[[1], [2, 3]]"] m by (simp add: sample_wf MaxEntryBytes_def)
qed

lemma raft_Compact_fields:
  assumes "raft_Compact n s = Inr (n', Inr u)" "sIndex s > sIndex (nSnap n)" "wf_node n"
  shows "sIndex (nSnap n') = sIndex s \<and> sTerm (nSnap n') = sTerm s \<and> sData (nSnap n') = sData s \<and>
    sIndex s \<le> nCommit n \<and> termAt n (sIndex s) = sTerm s \<and> lastN n' = lastN n \<and> nTerm n' = nTerm n"
proof -
  have ok: "node_ok n" using assms(3) by (simp add: wf_node_def)
  have nle: "\<not> sIndex s \<le> sIndex (nSnap n)" using assms(2) by simp
  have valid: "\<not> (sIndex s > nCommit n \<or> sTerm s = 0 \<or> termAt n (sIndex s) \<noteq> sTerm s)"
  proof
    assume bad: "sIndex s > nCommit n \<or> sTerm s = 0 \<or> termAt n (sIndex s) \<noteq> sTerm s"
    show False using assms(1) unfolding raft_Compact_def if_not_P [OF nle] if_P [OF bad] by simp
  qed
  obtain m where m: "membershipAt n (sIndex s) = Inr m"
    using assms(1) unfolding raft_Compact_def if_not_P [OF nle] if_not_P [OF valid] by (auto split: sum.splits)
  define s1 where "s1 = (if Voters (sMembership s) = [] then s\<lparr>sMembership := m\<rparr> else s)"
  have s1: "sIndex s1 = sIndex s" "sTerm s1 = sTerm s" "sData s1 = sData s" by (simp_all add: s1_def)
  have lt: "snapN n < unat (sIndex s1)" using assms(2) by (simp add: snapN_def word_less_nat_alt s1)
  have "(case rebuildMembership (compacted n s1) of Inl e \<Rightarrow> Inr (compacted n s1, Inl e)
      | Inr n \<Rightarrow> Inr (n, Inr (no_update\<lparr>uSnapshot := Some s1\<rparr>))) = (Inr (n', Inr u) :: Update result step)"
    using assms(1) unfolding raft_Compact_def if_not_P [OF nle] if_not_P [OF valid] m sum.case Let_def s1_def [symmetric]
      compactLog_nat [OF ok lt] rbind_simps by (auto split: if_splits)
  then have n': "nSnap n' = s1" "nLog n' = nLog (compacted n s1)" "nTerm n' = nTerm n"
    by (auto simp: rebuildMembership_def rbind_Inr_iff compacted_def split: sum.splits)
  have "unat (sIndex s) \<le> lastN n"
    using valid ok by (auto simp: node_ok_def not_less word_le_nat_alt)
  then have "lastN n' = lastN n"
    using n' compacted_log [OF ok lt] valid lt by (simp add: lastN_def snapN_def s1)
  then show ?thesis using n' valid s1 by (auto simp: not_less)
qed




section \<open>Configuration changes\<close>

text \<open>
  C20: Two quorums of one valid configuration share a voter, so with one vote per voter two candidates
  cannot both win; during a change a quorum of the joint configuration is a quorum of the old and of the
  new one, so no decision of the joint phase goes past either; and a candidate the code counts as lost
  cannot reach a quorum any more, however the remaining voters decide.
\<close>

theorem quorums_agree:
  assumes "membership_ok m"
  shows "(hasQuorum m (\<lambda>x. vote x = Some a) \<and> hasQuorum m (\<lambda>x. vote x = Some b) \<longrightarrow> a = b) \<and>
    (JointVoters m \<noteq> [] \<and> hasQuorum m P \<longrightarrow> hasQuorum \<lparr>Voters = Voters m, JointVoters = [], mbIndex = i\<rparr> P \<and>
       hasQuorum \<lparr>Voters = JointVoters m, JointVoters = [], mbIndex = j\<rparr> P) \<and>
    (voteLost m (\<lambda>x. votes x = Some False) \<and> (\<forall>x. votes x \<noteq> None \<longrightarrow> votes' x = votes x) \<longrightarrow>
       \<not> hasQuorum m (\<lambda>x. votes' x = Some True))"
  using assms mq.one_winner [of m vote a b] joint_quorum_covers [of m P] mq.lost_stays_lost [of m votes votes'] by blast

theorem quorums_agree_witness:
  "membership_ok \<lparr>Voters = [1, 2, 3], JointVoters = [3, 4, 5], mbIndex = 7\<rparr> \<and>
   hasQuorum \<lparr>Voters = [1, 2, 3], JointVoters = [3, 4, 5], mbIndex = 7\<rparr> (\<lambda>x. x \<in> {2, 3, 4}) \<and>
   hasQuorum \<lparr>Voters = [3, 4, 5], JointVoters = [], mbIndex = 8\<rparr> (\<lambda>x. x \<in> {2, 3, 4})"
proof -
  let ?m = "\<lparr>Voters = [1, 2, 3], JointVoters = [3, 4, 5], mbIndex = 7\<rparr>"
  have m: "membership_ok ?m" by (simp add: membership_ok_def voters_ok_def)
  moreover have q: "hasQuorum ?m (\<lambda>x. x \<in> {2, 3, 4})" by code_simp
  ultimately show ?thesis
    using quorums_agree [OF m, of "\<lambda>_. None" "()" "()" "\<lambda>x. x \<in> {2, 3, 4}" 8 8 "\<lambda>_. None" "\<lambda>_. None"] by simp
qed

text \<open>
  C28: A configuration command survives its encoding, and only valid commands decode: whatever bytes an
  entry holds, a command that \<open>decodeMembership\<close> accepts, applied to a valid configuration, gives a valid
  configuration stamped with the entry's index.
\<close>

theorem membership_entries:
  "(command_ok c \<longrightarrow> hasMembershipPrefix (encodeMembership c) \<and> decodeMembership (encodeMembership c) = Inr (Some c)) \<and>
   (decodeMembership data = Inr (Some d) \<and> membership_ok cur \<and> applyMembership cur d i = Inr m \<longrightarrow>
      command_ok d \<and> membership_ok m \<and> mbIndex m = i)"
  using decode_encode decode_ok applyMembership_ok hasMembershipPrefix_encode by blast

theorem membership_entries_witness:
  "decodeMembership (encodeMembership \<lparr>cPhase = configJoint, cOld = [1, 2], cNew = [2, 3]\<rparr>) =
     Inr (Some \<lparr>cPhase = configJoint, cOld = [1, 2], cNew = [2, 3]\<rparr>) \<and>
   membership_ok \<lparr>Voters = [1, 2], JointVoters = [2, 3], mbIndex = 5\<rparr>"
proof -
  let ?c = "\<lparr>cPhase = configJoint, cOld = [1, 2], cNew = [2, 3]\<rparr>"
  have c: "command_ok ?c" by (simp add: command_ok_def voters_ok_def)
  have a: "membership_ok \<lparr>Voters = [1, 2], JointVoters = [], mbIndex = 0\<rparr>" by (simp add: membership_ok_def voters_ok_def)
  have b: "applyMembership \<lparr>Voters = [1, 2], JointVoters = [], mbIndex = 0\<rparr> ?c 5 = Inr \<lparr>Voters = [1, 2], JointVoters = [2, 3], mbIndex = 5\<rparr>"
    by code_simp
  show ?thesis
    using membership_entries [of ?c "encodeMembership ?c" ?c "\<lparr>Voters = [1, 2], JointVoters = [], mbIndex = 0\<rparr>" 5
        "\<lparr>Voters = [1, 2], JointVoters = [2, 3], mbIndex = 5\<rparr>"] c a b by blast
qed

lemma proposes_log:
  assumes "proposes n es u n'"
  obtains fs where "uEntries u = es @ fs" "length fs \<le> 1" "nLog n' = nLog n @ es @ fs" "wf_node n'" "nTerm n' = nTerm n"
  using assms evolves_snap [of n u n'] evolves_wf [of n u n'] by (auto simp: proposes_def)



end
