(* ===== verification/Raftstore.thy ===== *)
theory Raftstore
  imports Raft Disk
begin

text \<open>
  Package \<open>internal/raftstore\<close>: the stable store of a consensus node. Hard state and snapshot are
  published by a synced temporary file and a rename; log entries are framed with a CRC-32 and appended
  to \<open>raft.log\<close>, which is read back up to the last valid frame and rewritten when a snapshot is
  installed. The state of the store carries the cursor of the open log file, and whether the file is
  still open: a rewrite that fails after closing the old file leaves it closed. Seeks do not fail.
\<close>

section \<open>Files\<close>

definition hardStateFile :: string where
  "hardStateFile = ''HARDSTATE''"

definition hardTmp :: string where
  "hardTmp = ''.HARDSTATE.tmp''"

definition snapshotFile :: string where
  "snapshotFile = ''SNAPSHOT''"

definition snapTmp :: string where
  "snapTmp = ''.SNAPSHOT.tmp''"

definition logFile :: string where
  "logFile = ''raft.log''"

definition logTmp :: string where
  "logTmp = ''.raft.log.tmp''"

definition entryHeader :: nat where
  "entryHeader = 8 + 8 + 4"

definition snapshotHeader :: nat where
  "snapshotHeader = 8 + 8 + 8"

definition maxEntryData :: nat where
  "maxEntryData = MaxEntryBytes"

definition maxSnapshotData :: nat where
  "maxSnapshotData = 64 * 2 ^ 30"

record Store =
  rsEntries :: "Entry list"
  rsOffsets :: "nat list"
  rsHard :: HardState
  rsSnapshot :: Snapshot
  rsSnapshotSize :: u64
  rsSnapshotChecksum :: u32
  rsPos :: nat
  rsClosed :: bool

text \<open>Sequencing of calls that may fail.\<close>

definition dbind :: "disk \<times> 'a result \<Rightarrow> (disk \<Rightarrow> 'a \<Rightarrow> disk \<times> 'b result) \<Rightarrow> disk \<times> 'b result" where
  "dbind r f = (case r of (d, Inl e) \<Rightarrow> (d, Inl e) | (d, Inr x) \<Rightarrow> f d x)"

lemma dbind_simps [simp]: "dbind (d, Inl e) f = (d, Inl e)" "dbind (d, Inr x) f = f d x"
  by (simp_all add: dbind_def)

definition os_mkdirAll :: "disk \<Rightarrow> disk \<times> unit result" where
  "os_mkdirAll d = syscall d (\<lambda>d. d) (\<lambda>_ d. d) ''mkdir''"

definition syncDir :: "disk \<Rightarrow> disk \<times> unit result" where
  "syncDir d = dbind (os_open_dir d) (\<lambda>d _. os_sync d ''.'')"

text \<open>The deferred removal of a temporary file when the function returns an error before publishing.\<close>

definition or_remove :: "string \<Rightarrow> disk \<times> 'a result \<Rightarrow> disk \<times> 'a result" where
  "or_remove tmp r = (case r of (d, Inl e) \<Rightarrow> (fst (os_remove d tmp), Inl e) | (d, Inr x) \<Rightarrow> (d, Inr x))"

section \<open>Hard state\<close>

definition zero_hard :: HardState where
  "zero_hard = \<lparr>hTerm = 0, hVotedFor = 0\<rparr>"

definition hard_json :: "HardState \<Rightarrow> json" where
  "hard_json h = JObj [(asc ''Term'', num (unat (hTerm h))), (asc ''VotedFor'', num (unat (hVotedFor h)))]"

definition hard_field :: "HardState \<Rightarrow> bytes \<times> json \<Rightarrow> HardState option" where
  "hard_field h m =
     (case m of (k, v) \<Rightarrow>
        if key_is ''Term'' k then map_option (\<lambda>x. h\<lparr>hTerm := x\<rparr>) (get_uint64 (hTerm h) v)
        else if key_is ''VotedFor'' k then map_option (\<lambda>x. h\<lparr>hVotedFor := x\<rparr>) (get_uint64 (hVotedFor h) v)
        else Some h)"

fun hard_fields :: "HardState \<Rightarrow> (bytes \<times> json) list \<Rightarrow> HardState option" where
  "hard_fields h [] = Some h"
| "hard_fields h (m # ms) = (case hard_field h m of None \<Rightarrow> None | Some h \<Rightarrow> hard_fields h ms)"

definition hard_Unmarshal :: "bytes \<Rightarrow> HardState option" where
  "hard_Unmarshal data =
     (case json_parse data of
        Some (JObj ms) \<Rightarrow> hard_fields zero_hard ms
      | Some JNull \<Rightarrow> Some zero_hard
      | _ \<Rightarrow> None)"

definition hard_encode :: "HardState \<Rightarrow> bytes" where
  "hard_encode h = json_Marshal (hard_json h) @ [10]"

definition loadHardState :: "disk \<Rightarrow> HardState result" where
  "loadHardState d =
     (case dFiles d hardStateFile of
        None \<Rightarrow> Inr zero_hard
      | Some data \<Rightarrow> (case hard_Unmarshal data of None \<Rightarrow> Inl (Err ''decode raft hard state'') | Some h \<Rightarrow> Inr h))"

definition storeHardState :: "disk \<Rightarrow> HardState \<Rightarrow> disk \<times> unit result" where
  "storeHardState d h =
     dbind (os_create d hardTmp) (\<lambda>d _.
     dbind (or_remove hardTmp
        (dbind (os_write d hardTmp 0 (hard_encode h)) (\<lambda>d _.
         dbind (os_sync d hardTmp) (\<lambda>d _. os_rename d hardTmp hardStateFile)))) (\<lambda>d _.
     syncDir d))"

section \<open>Snapshot file\<close>

definition membership_json :: "Membership \<Rightarrow> json" where
  "membership_json m =
     JObj ([(asc ''voters'', voters_json (Voters m))] @
           (if JointVoters m = [] then [] else [(asc ''joint_voters'', voters_json (JointVoters m))]) @
           (if mbIndex m = 0 then [] else [(asc ''index'', num (unat (mbIndex m)))]))"

definition membership_field :: "Membership \<Rightarrow> bytes \<times> json \<Rightarrow> Membership option" where
  "membership_field c m =
     (case m of (k, v) \<Rightarrow>
        if key_is ''voters'' k then map_option (\<lambda>x. c\<lparr>Voters := x\<rparr>) (get_slice (get_uint64 0) v)
        else if key_is ''joint_voters'' k then map_option (\<lambda>x. c\<lparr>JointVoters := x\<rparr>) (get_slice (get_uint64 0) v)
        else if key_is ''index'' k then map_option (\<lambda>x. c\<lparr>mbIndex := x\<rparr>) (get_uint64 (mbIndex c) v)
        else Some c)"

fun membership_fields :: "Membership \<Rightarrow> (bytes \<times> json) list \<Rightarrow> Membership option" where
  "membership_fields c [] = Some c"
| "membership_fields c (m # ms) = (case membership_field c m of None \<Rightarrow> None | Some c \<Rightarrow> membership_fields c ms)"

definition membership_Unmarshal :: "bytes \<Rightarrow> Membership option" where
  "membership_Unmarshal data =
     (case json_parse data of
        Some (JObj ms) \<Rightarrow> membership_fields zero_membership ms
      | Some JNull \<Rightarrow> Some zero_membership
      | _ \<Rightarrow> None)"

definition snap_header :: "u64 \<Rightarrow> u64 \<Rightarrow> u64 \<Rightarrow> bytes" where
  "snap_header index term len = putUint64 index @ putUint64 term @ putUint64 len"

text \<open>
  A snapshot's data arrives through a callback that writes chunks and may end with an error of its own.
  It is given here by the chunks it writes and the error it ends with; a failing write ends it at once,
  which is what \<open>io.Copy\<close> and \<open>WriteReplicaSnapshot\<close> do. \<open>boundedSnapshotWriter\<close> limits the total.
\<close>

type_synonym snapshot_source = "bytes list \<times> unit result"

fun write_data :: "disk \<Rightarrow> nat \<Rightarrow> nat \<Rightarrow> bytes list \<Rightarrow> unit result \<Rightarrow> disk \<times> nat result" where
  "write_data d pos written [] final = (d, rbind final (\<lambda>_. Inr pos))"
| "write_data d pos written (c # cs) final =
     (if length c > maxSnapshotData - written then (d, Inl (Err ''snapshot exceeds limit''))
      else case file_write d snapTmp pos c of
             (d, pos, Inl e) \<Rightarrow> (d, Inl e)
           | (d, pos, Inr _) \<Rightarrow> write_data d pos (written + length c) cs final)"

definition storeSnapshotStream :: "disk \<Rightarrow> Snapshot \<Rightarrow> snapshot_source \<Rightarrow> disk \<times> (u64 \<times> u32) result" where
  "storeSnapshotStream d s src =
     (let membership = json_Marshal (membership_json (sMembership s));
          data = concat (fst src)
      in dbind (os_create d snapTmp) (\<lambda>d _.
         dbind (or_remove snapTmp
           (dbind (os_write d snapTmp 0 (snap_header (sIndex s) (sTerm s) 0)) (\<lambda>d _.
            dbind (write_data d snapshotHeader 0 (fst src) (snd src)) (\<lambda>d pos.
            dbind (os_write d snapTmp 0 (snap_header (sIndex s) (sTerm s) (word_of_nat (pos - snapshotHeader)))) (\<lambda>d _.
            dbind (os_write d snapTmp pos (putUint32 (word_of_nat (length membership)))) (\<lambda>d _.
            dbind (os_write d snapTmp (pos + 4) membership) (\<lambda>d _.
              let checksumEnd = pos + 4 + length membership
              in dbind (os_write d snapTmp checksumEnd (putUint32 (crc32 (take checksumEnd (content d snapTmp))))) (\<lambda>d _.
                 dbind (os_sync d snapTmp) (\<lambda>d _.
                 dbind (os_rename d snapTmp snapshotFile) (\<lambda>d _. (d, Inr (pos - snapshotHeader)))))))))))) (\<lambda>d sz.
         dbind (syncDir d) (\<lambda>d _. (d, Inr (word_of_nat sz, crc32 data))))))"

definition inspect_membership :: "bytes \<Rightarrow> nat \<Rightarrow> Membership result" where
  "inspect_membership f baseEnd =
     (if length f = baseEnd + 4 then Inr zero_membership
      else if length f < baseEnd + 8 then Inl (Err ''raft snapshot membership is truncated'')
      else let membershipLen = unat (getUint32 (drop baseEnd f))
           in if membershipLen > 2 ^ 20 \<or> length f \<noteq> baseEnd + 4 + membershipLen + 4
              then Inl (Err ''raft snapshot membership length is invalid'')
              else (case membership_Unmarshal (take membershipLen (drop (baseEnd + 4) f)) of
                      None \<Rightarrow> Inl (Err ''decode snapshot membership'')
                    | Some m \<Rightarrow> Inr m))"

definition inspectSnapshot :: "disk \<Rightarrow> (Snapshot \<times> u64 \<times> u32) result" where
  "inspectSnapshot d =
     (case dFiles d snapshotFile of
        None \<Rightarrow> Inr (zero_snapshot, 0, 0)
      | Some f \<Rightarrow>
          if length f < snapshotHeader + 4 then Inl (Err ''raft snapshot is truncated'')
          else let index = getUint64 f; term = getUint64 (drop 8 f); len = getUint64 (drop 16 f)
               in if index = 0 \<or> term = 0 \<or> unat len > maxSnapshotData \<or> unat len > length f - snapshotHeader - 4 \<or>
                     unat len > 2 ^ 64 - 1 - snapshotHeader - 8
                  then Inl (Err ''raft snapshot header is invalid'')
                  else rbind (inspect_membership f (snapshotHeader + unat len)) (\<lambda>m.
                    if crc32 (take (length f - 4) f) \<noteq> getUint32 (drop (length f - 4) f)
                    then Inl (Err ''raft snapshot checksum mismatch'')
                    else Inr (\<lparr>sIndex = index, sTerm = term, sData = [], sMembership = m\<rparr>, len,
                              crc32 (take (unat len) (drop snapshotHeader f)))))"

section \<open>Log file\<close>

definition encodeEntry :: "Entry \<Rightarrow> bytes" where
  "encodeEntry e =
     (let body = putUint64 (eIndex e) @ putUint64 (eTerm e) @ putUint32 (word_of_nat (length (eData e))) @ eData e
      in body @ putUint32 (crc32 body))"

function readLog_loop ::
  "u64 \<Rightarrow> bytes \<Rightarrow> nat \<Rightarrow> u64 \<Rightarrow> Entry list \<Rightarrow> nat list \<Rightarrow> Entry list \<times> nat list \<times> nat" where
  "readLog_loop snapshotIndex rest start previous entries offsets =
     (case readFull rest entryHeader of
        Full hdr rest1 \<Rightarrow>
          let index = getUint64 hdr; term = getUint64 (drop 8 hdr); len = unat (getUint32 (drop 16 hdr))
          in if len > maxEntryData \<or> term = 0 \<or> previous \<noteq> 0 \<and> index \<noteq> previous + 1
             then (entries, offsets, start)
             else if previous = 0 \<and> index \<noteq> 1 \<and> index \<noteq> snapshotIndex + 1
             then (entries, offsets, start)
             else (case readFull rest1 (len + 4) of
                 Full body rest2 \<Rightarrow>
                   if crc32 (hdr @ take len body) \<noteq> getUint32 (drop len body) then (entries, offsets, start)
                   else let e = \<lparr>eIndex = index, eTerm = term, eData = take len body\<rparr>;
                            keep = (index > snapshotIndex)
                        in readLog_loop snapshotIndex rest2 (start + entryHeader + (len + 4)) index
                             (if keep then entries @ [e] else entries) (if keep then offsets @ [start] else offsets)
               | _ \<Rightarrow> (entries, offsets, start))
      | _ \<Rightarrow> (entries, offsets, start))"
  by pat_completeness auto
termination
  by (relation "measure (\<lambda>(_, rest, _). length rest)") (auto simp: readFull_def entryHeader_def split: if_splits)

declare readLog_loop.simps [simp del]

definition readLog :: "bytes \<Rightarrow> u64 \<Rightarrow> Entry list \<times> nat list \<times> nat" where
  "readLog f snapshotIndex = readLog_loop snapshotIndex f 0 0 [] []"

section \<open>Opening\<close>

definition raftstore_Open :: "disk \<Rightarrow> disk \<times> Store result" where
  "raftstore_Open d =
     dbind (os_mkdirAll d) (\<lambda>d _.
     dbind (d, loadHardState d) (\<lambda>d hard.
     dbind (d, inspectSnapshot d) (\<lambda>d (snapshot, sz, checksum).
     dbind (os_openFile d logFile) (\<lambda>d _.
       case readLog (content d logFile) (sIndex snapshot) of (entries, offsets, validEnd) \<Rightarrow>
         dbind (os_truncate d logFile validEnd) (\<lambda>d _.
           (d, Inr \<lparr>rsEntries = entries, rsOffsets = offsets, rsHard = hard, rsSnapshot = snapshot,
                    rsSnapshotSize = sz, rsSnapshotChecksum = checksum, rsPos = length (content d logFile),
                    rsClosed = False\<rparr>))))))"

section \<open>Reading\<close>

definition SnapshotMetadata :: "Store \<Rightarrow> Snapshot" where
  "SnapshotMetadata st = rsSnapshot st"

definition raftstore_Load :: "Store \<Rightarrow> HardState \<times> Entry list" where
  "raftstore_Load st = (rsHard st, rsEntries st)"

definition OpenSnapshot :: "disk \<Rightarrow> Store \<Rightarrow> u64 \<Rightarrow> (bytes \<times> u64 \<times> u32) result" where
  "OpenSnapshot d st index =
     (if index = 0 \<or> index \<noteq> sIndex (rsSnapshot st) then Inl (Err ''raft snapshot is not durable'')
      else case dFiles d snapshotFile of
             None \<Rightarrow> Inl (Err ''open raft snapshot'')
           | Some f \<Rightarrow> Inr (take (unat (rsSnapshotSize st)) (drop snapshotHeader f), rsSnapshotSize st, rsSnapshotChecksum st))"

definition LoadSnapshot :: "disk \<Rightarrow> Store \<Rightarrow> Snapshot" where
  "LoadSnapshot d st =
     (let metadata = SnapshotMetadata st
      in if sIndex metadata = 0 then metadata
         else case OpenSnapshot d st (sIndex metadata) of
                Inl _ \<Rightarrow> zero_snapshot
              | Inr (data, _, _) \<Rightarrow> metadata\<lparr>sData := data\<rparr>)"

section \<open>Writing\<close>

type_synonym 'a store_call = "disk \<times> Store \<times> 'a result"

definition ErrClosed :: failure where
  "ErrClosed = Err ''file already closed''"

definition store_truncate :: "disk \<Rightarrow> Store \<Rightarrow> u64 \<Rightarrow> unit store_call" where
  "store_truncate d st from =
     (let first = sIndex (rsSnapshot st) + 1;
          lst = sIndex (rsSnapshot st) + word_of_nat (length (rsEntries st))
      in if from < first \<or> from > lst + 1 then (d, st, Inl (Err ''invalid raft truncation index''))
         else if from = lst + 1 then (d, st, Inr ())
         else
           let offsetIndex = unat (from - first)
           in if offsetIndex \<ge> length (rsOffsets st) \<or> offsetIndex > length (rsEntries st) then (d, st, Inl Panic)
              else if rsClosed st then (d, st, Inl ErrClosed)
              else case os_truncate d logFile (rsOffsets st ! offsetIndex) of
                     (d, Inl e) \<Rightarrow> (d, st, Inl e)
                   | (d, Inr _) \<Rightarrow>
                       (let st = st\<lparr>rsPos := rsOffsets st ! offsetIndex, rsEntries := take offsetIndex (rsEntries st),
                                    rsOffsets := take offsetIndex (rsOffsets st)\<rparr>
                        in case os_sync d logFile of (d, r) \<Rightarrow> (d, st, r)))"

fun append_loop :: "disk \<Rightarrow> Store \<Rightarrow> Entry list \<Rightarrow> unit store_call" where
  "append_loop d st [] = (d, st, Inr ())"
| "append_loop d st (e # es) =
     (let want = sIndex (rsSnapshot st) + word_of_nat (length (rsEntries st)) + 1
      in if eIndex e \<noteq> want \<or> eTerm e = 0 then (d, st, Inl (Err ''append raft entry''))
         else if length (eData e) > maxEntryData then (d, st, Inl (Err ''raft entry exceeds limit''))
         else if rsClosed st then (d, st, Inl ErrClosed)
         else case file_write d logFile (rsPos st) (encodeEntry e) of
                (d, pos, Inl x) \<Rightarrow> (d, st\<lparr>rsPos := pos\<rparr>, Inl x)
              | (d, pos, Inr _) \<Rightarrow>
                  append_loop d (st\<lparr>rsPos := pos, rsOffsets := rsOffsets st @ [rsPos st], rsEntries := rsEntries st @ [e]\<rparr>) es)"

definition store_append :: "disk \<Rightarrow> Store \<Rightarrow> Entry list \<Rightarrow> unit store_call" where
  "store_append d st es =
     (case append_loop d st es of
        (d, st, Inl e) \<Rightarrow> (d, st, Inl e)
      | (d, st, Inr _) \<Rightarrow>
          if rsClosed st then (d, st, Inl ErrClosed)
          else case os_sync d logFile of (d, r) \<Rightarrow> (d, st, r))"

fun rewrite_entries :: "disk \<Rightarrow> nat \<Rightarrow> Entry list \<Rightarrow> disk \<times> unit result" where
  "rewrite_entries d pos [] = (d, Inr ())"
| "rewrite_entries d pos (e # es) =
     (case file_write d logTmp pos (encodeEntry e) of
        (d, pos, Inl x) \<Rightarrow> (d, Inl x)
      | (d, pos, Inr _) \<Rightarrow> rewrite_entries d pos es)"

fun entry_offsets :: "nat \<Rightarrow> Entry list \<Rightarrow> nat list" where
  "entry_offsets pos [] = []"
| "entry_offsets pos (e # es) = pos # entry_offsets (pos + length (encodeEntry e)) es"

text \<open>Closing the old file, which may already be closed, comes between syncing and renaming the new one.\<close>

definition rewriteLog :: "disk \<Rightarrow> Store \<Rightarrow> Entry list \<Rightarrow> unit store_call" where
  "rewriteLog d st entries =
     (case os_create d logTmp of
        (d, Inl e) \<Rightarrow> (d, st, Inl e)
      | (d, Inr _) \<Rightarrow>
          (case or_remove logTmp (dbind (rewrite_entries d 0 entries) (\<lambda>d _. os_sync d logTmp)) of
             (d, Inl e) \<Rightarrow> (d, st, Inl e)
           | (d, Inr _) \<Rightarrow>
               if rsClosed st then (fst (os_remove d logTmp), st, Inl ErrClosed)
               else
                 let st = st\<lparr>rsClosed := True\<rparr>
                 in case or_remove logTmp (os_rename d logTmp logFile) of
                      (d, Inl e) \<Rightarrow> (d, st, Inl e)
                    | (d, Inr _) \<Rightarrow>
                        (case dbind (syncDir d) (\<lambda>d _. os_openFile d logFile) of
                           (d, Inl e) \<Rightarrow> (d, st, Inl e)
                         | (d, Inr _) \<Rightarrow>
                             (d, st\<lparr>rsClosed := False, rsEntries := entries, rsOffsets := entry_offsets 0 entries,
                                    rsPos := length (content d logFile)\<rparr>, Inr ()))))"

definition installSnapshot :: "disk \<Rightarrow> Store \<Rightarrow> Snapshot \<Rightarrow> snapshot_source \<Rightarrow> unit store_call" where
  "installSnapshot d st s src =
     (if sIndex s = 0 \<or> sTerm s = 0 then (d, st, Inl (Err ''invalid raft snapshot''))
      else if sIndex s \<le> sIndex (rsSnapshot st) then (d, st, Inr ())
      else
        let k = unat (sIndex s - sIndex (rsSnapshot st));
            keepSuffix = (sIndex s \<le> sIndex (rsSnapshot st) + word_of_nat (length (rsEntries st)) \<and>
                          eTerm (rsEntries st ! (k - 1)) = sTerm s);
            suffix = (if keepSuffix then drop k (rsEntries st) else [])
        in case storeSnapshotStream d s src of
             (d, Inl e) \<Rightarrow> (d, st, Inl e)
           | (d, Inr (sz, checksum)) \<Rightarrow>
               (case rewriteLog d st suffix of
                  (d, st, Inl e) \<Rightarrow> (d, st, Inl e)
                | (d, st, Inr _) \<Rightarrow>
                    (d, st\<lparr>rsSnapshot := s\<lparr>sData := []\<rparr>, rsSnapshotSize := sz, rsSnapshotChecksum := checksum\<rparr>, Inr ())))"

definition sbind :: "'a store_call \<Rightarrow> (disk \<Rightarrow> Store \<Rightarrow> 'b store_call) \<Rightarrow> 'b store_call" where
  "sbind r f = (case r of (d, st, Inl e) \<Rightarrow> (d, st, Inl e) | (d, st, Inr _) \<Rightarrow> f d st)"

lemma sbind_simps [simp]: "sbind (d, st, Inl e) f = (d, st, Inl e)" "sbind (d, st, Inr x) f = f d st"
  by (simp_all add: sbind_def)

text \<open>
  \<open>bytes.Reader.WriteTo\<close>, which \<open>io.Copy\<close> uses for a snapshot held in memory, writes nothing when there
  is nothing and everything at once otherwise.
\<close>

definition memory_source :: "bytes \<Rightarrow> snapshot_source" where
  "memory_source data = (if data = [] then [] else [data], Inr ())"

definition persist_hard :: "disk \<Rightarrow> Store \<Rightarrow> Update \<Rightarrow> unit store_call" where
  "persist_hard d st u =
     (case uHard u of
        None \<Rightarrow> (d, st, Inr ())
      | Some h \<Rightarrow> (case storeHardState d h of
                     (d, Inl e) \<Rightarrow> (d, st, Inl e)
                   | (d, Inr _) \<Rightarrow> (d, st\<lparr>rsHard := h\<rparr>, Inr ())))"

definition persist_snapshot :: "disk \<Rightarrow> Store \<Rightarrow> Update \<Rightarrow> snapshot_source option \<Rightarrow> unit store_call" where
  "persist_snapshot d st u src =
     (case uSnapshot u of
        None \<Rightarrow> (d, st, Inr ())
      | Some s \<Rightarrow> installSnapshot d st s (case src of None \<Rightarrow> memory_source (sData s) | Some w \<Rightarrow> w))"

definition persist_log :: "disk \<Rightarrow> Store \<Rightarrow> Update \<Rightarrow> unit store_call" where
  "persist_log d st u =
     sbind (if uTruncateFrom u \<noteq> 0 then store_truncate d st (uTruncateFrom u) else (d, st, Inr ())) (\<lambda>d st.
     if uEntries u \<noteq> [] then store_append d st (uEntries u) else (d, st, Inr ()))"

definition store_persist :: "disk \<Rightarrow> Store \<Rightarrow> Update \<Rightarrow> snapshot_source option \<Rightarrow> unit store_call" where
  "store_persist d st u src =
     sbind (persist_hard d st u) (\<lambda>d st.
     sbind (persist_snapshot d st u src) (\<lambda>d st.
     persist_log d st u))"

definition raftstore_Persist :: "disk \<Rightarrow> Store \<Rightarrow> Update \<Rightarrow> unit store_call" where
  "raftstore_Persist d st u = store_persist d st u None"

definition raftstore_PersistSnapshot :: "disk \<Rightarrow> Store \<Rightarrow> Update \<Rightarrow> snapshot_source \<Rightarrow> unit store_call" where
  "raftstore_PersistSnapshot d st u src =
     (if uSnapshot u = None then (d, st, Inl (Err ''streamed snapshot persistence requires metadata and a writer''))
      else store_persist d st u (Some src))"

definition raftstore_Close :: "disk \<Rightarrow> Store \<Rightarrow> unit store_call" where
  "raftstore_Close d st =
     (if rsClosed st then (d, st, Inl ErrClosed)
      else case os_sync d logFile of
             (d, Inl e) \<Rightarrow> (d, st, Inl e)
           | (d, Inr _) \<Rightarrow> (d, st\<lparr>rsClosed := True\<rparr>, Inr ()))"

end
