(* ===== verification/Raftstore_Spec.thy ===== *)
theory Raftstore_Spec
  imports Raftstore Raft_Node
begin

text \<open>
  The stable store implements the durable state that the consensus node reports: persisting an update
  takes the files from one durable state to the next, opening the files gives the state back, and a
  call cut short by a failure or a crash leaves a state from which no persisted entry is missing, with
  one exception, which is proved as such.
\<close>

section \<open>Round trips of the encodings\<close>

lemma hard_keys [simp]:
  "key_is ''Term'' (asc ''Term'')" "key_is ''VotedFor'' (asc ''VotedFor'')" "\<not> key_is ''Term'' (asc ''VotedFor'')"
  by code_simp+

lemma hard_decode_encode [simp]: "hard_Unmarshal (hard_encode h) = Some h"
proof -
  have "ascii (asc ''Term'')" "ascii (asc ''VotedFor'')" unfolding ascii_def by code_simp+
  then have "json_ok (hard_json h)" by (auto simp: hard_json_def num_def)
  then have "json_parse (hard_encode h) = Some (hard_json h)"
    unfolding hard_encode_def json_Marshal_def by (intro json_parse_print) (auto simp: spaces_def)
  then show ?thesis by (simp add: hard_Unmarshal_def hard_json_def hard_field_def zero_hard_def)
qed

lemma membership_keys [simp]:
  "key_is ''voters'' (asc ''voters'')" "key_is ''joint_voters'' (asc ''joint_voters'')" "key_is ''index'' (asc ''index'')"
  "\<not> key_is ''voters'' (asc ''joint_voters'')" "\<not> key_is ''voters'' (asc ''index'')" "\<not> key_is ''joint_voters'' (asc ''index'')"
  by code_simp+

lemma membership_decode_encode [simp]: "membership_Unmarshal (json_Marshal (membership_json m)) = Some m"
proof -
  have "ascii (asc ''voters'')" "ascii (asc ''joint_voters'')" "ascii (asc ''index'')" unfolding ascii_def by code_simp+
  then have "json_ok (membership_json m)" by (auto simp: membership_json_def voters_json_def num_def)
  then have "json_parse (json_Marshal (membership_json m)) = Some (membership_json m)" by (rule json_parse_Marshal)
  moreover have "membership_fields zero_membership (case membership_json m of JObj ms \<Rightarrow> ms) = Some m"
    by (simp add: membership_json_def voters_json_def membership_field_def zero_membership_def get_slice_def comp_def)
  ultimately show ?thesis by (simp add: membership_Unmarshal_def membership_json_def)
qed

section \<open>The log file\<close>

definition frame_header :: "Entry \<Rightarrow> bytes" where
  "frame_header e = putUint64 (eIndex e) @ putUint64 (eTerm e) @ putUint32 (word_of_nat (length (eData e)))"

definition frame_body :: "Entry \<Rightarrow> bytes" where
  "frame_body e = eData e @ putUint32 (crc32 (frame_header e @ eData e))"

lemma encodeEntry_split: "encodeEntry e = frame_header e @ frame_body e"
  by (simp add: encodeEntry_def frame_header_def frame_body_def Let_def)

lemma length_frame [simp]: "length (frame_header e) = entryHeader" "length (frame_body e) = length (eData e) + 4"
  by (simp_all add: frame_header_def frame_body_def entryHeader_def)

lemma length_encodeEntry: "length (encodeEntry e) = entryHeader + (length (eData e) + 4)"
  by (simp add: encodeEntry_split)

lemma frame_header_fields:
  "getUint64 (frame_header e) = eIndex e" "getUint64 (drop 8 (frame_header e)) = eTerm e"
  "getUint32 (drop 16 (frame_header e)) = word_of_nat (length (eData e))"
  by (simp_all add: frame_header_def)

definition entry_ok :: "Entry \<Rightarrow> bool" where
  "entry_ok e \<longleftrightarrow> eTerm e \<noteq> 0 \<and> length (eData e) \<le> maxEntryData"

lemma frame_length: "entry_ok e \<Longrightarrow> unat (getUint32 (drop 16 (frame_header e))) = length (eData e)"
  by (simp add: frame_header_fields entry_ok_def maxEntryData_def MaxEntryBytes_def unat_of_nat_u32)

lemma readLog_loop_frame:
  assumes "entry_ok e" "if previous = 0 then eIndex e = 1 \<or> eIndex e = s + 1 else eIndex e = previous + 1"
  shows "readLog_loop s (encodeEntry e @ rest) start previous es os =
    readLog_loop s rest (start + length (encodeEntry e)) (eIndex e)
      (if eIndex e > s then es @ [e] else es) (if eIndex e > s then os @ [start] else os)"
proof -
  have hdr: "readFull (encodeEntry e @ rest) entryHeader = Full (frame_header e) (frame_body e @ rest)"
    using readFull_append [of "frame_header e" "frame_body e @ rest"] by (simp add: encodeEntry_split)
  have body: "readFull (frame_body e @ rest) (length (eData e) + 4) = Full (frame_body e) rest"
    using readFull_append [of "frame_body e" rest] by simp
  have data: "take (length (eData e)) (frame_body e) = eData e" by (simp add: frame_body_def)
  have e: "\<lparr>eIndex = eIndex e, eTerm = eTerm e, eData = eData e\<rparr> = e" by simp
  have c: "\<not> (maxEntryData < length (eData e) \<or> eTerm e = 0 \<or> previous \<noteq> 0 \<and> eIndex e \<noteq> previous + 1)"
    "\<not> (previous = 0 \<and> eIndex e \<noteq> 1 \<and> eIndex e \<noteq> s + 1)"
    "\<not> crc32 (frame_header e @ eData e) \<noteq> getUint32 (drop (length (eData e)) (frame_body e))"
    using assms by (auto simp: entry_ok_def frame_body_def split: if_splits)
  show ?thesis
    unfolding readLog_loop.simps [of s "encodeEntry e @ rest"] hdr read_outcome.case frame_header_fields(1,2) frame_length [OF assms(1)]
      Let_def body data e if_not_P [OF c(1)] if_not_P [OF c(2)] if_not_P [OF c(3)]
    by (simp add: length_encodeEntry add.assoc)
qed

lemma readLog_loop_Nil: "readLog_loop s [] start previous es os = (es, os, start)"
  by (simp add: readLog_loop.simps readFull_def entryHeader_def)

text \<open>A torn frame ends the reading at its start.\<close>

lemma readLog_loop_torn:
  assumes "entry_ok e" "k < length (encodeEntry e)"
  shows "readLog_loop s (take k (encodeEntry e)) start previous es os = (es, os, start)"
proof (cases "k < entryHeader")
  case True
  then have "readFull (take k (encodeEntry e)) entryHeader \<in> {EOF, UnexpectedEOF}"
    using assms(2) by (auto simp: readFull_def)
  then show ?thesis by (subst readLog_loop.simps) auto
next
  case False
  then have t: "take k (encodeEntry e) = frame_header e @ take (k - entryHeader) (frame_body e)"
    by (simp add: encodeEntry_split)
  have hdr: "readFull (take k (encodeEntry e)) entryHeader = Full (frame_header e) (take (k - entryHeader) (frame_body e))"
    using readFull_append [of "frame_header e"] by (simp add: t)
  have "readFull (take (k - entryHeader) (frame_body e)) (length (eData e) + 4) \<in> {EOF, UnexpectedEOF}"
    using assms(2) False by (auto simp: readFull_def length_encodeEntry)
  then show ?thesis
    unfolding readLog_loop.simps [of s "take k (encodeEntry e)"] hdr read_outcome.case frame_length [OF assms(1)] Let_def by auto
qed

definition frames :: "Entry list \<Rightarrow> bytes" where
  "frames es = concat (map encodeEntry es)"

lemma frames_simps [simp]: "frames [] = []" "frames (e # es) = encodeEntry e @ frames es" "frames (es @ fs) = frames es @ frames fs"
  by (simp_all add: frames_def)

lemma entry_offsets_append:
  "entry_offsets pos (es @ fs) = entry_offsets pos es @ entry_offsets (pos + length (frames es)) fs"
  by (induction es arbitrary: pos) (simp_all add: add.assoc)

lemma length_entry_offsets [simp]: "length (entry_offsets pos es) = length es"
  by (induction es arbitrary: pos) simp_all

lemma entry_offsets_nth: "k < length es \<Longrightarrow> entry_offsets pos es ! k = pos + length (frames (take k es))"
proof (induction es arbitrary: pos k)
  case (Cons e es)
  then show ?case by (cases k) (simp_all add: add.assoc)
qed simp

lemma entry_offsets_take: "take k (entry_offsets pos es) = entry_offsets pos (take k es)"
proof (induction es arbitrary: pos k)
  case (Cons e es)
  then show ?case by (cases k) simp_all
qed simp

text \<open>Reading back a log that starts right behind the snapshot, whatever follows it.\<close>

lemma readLog_loop_frames:
  assumes "contiguous base es" "\<forall>e \<in> set es. entry_ok e" "base + length es < 2 ^ 64" "unat s \<le> base"
    and "if previous = 0 then es = [] \<or> base = unat s else unat previous = base"
  shows "\<exists>previous'. readLog_loop s (frames es @ rest) start previous xs os =
    readLog_loop s rest (start + length (frames es)) previous' (xs @ es) (os @ entry_offsets start es)"
  using assms
proof (induction es arbitrary: base previous xs os start)
  case (Cons e es)
  have e: "unat (eIndex e) = base + 1" "contiguous (base + 1) es" using Cons.prems(1) by (simp_all add: contiguous_Cons)
  have "if previous = 0 then eIndex e = 1 \<or> eIndex e = s + 1 else eIndex e = previous + 1"
    using Cons.prems(3,5) e(1) by (auto simp: word_unat_eq_iff unat_inc_u64 split: if_splits)
  note fr = readLog_loop_frame [OF _ this]
  have gt: "eIndex e > s" using e(1) Cons.prems(4) by (simp add: word_less_nat_alt)
  have nz: "eIndex e \<noteq> 0" using e(1) by auto
  have "\<exists>previous'. readLog_loop s (frames es @ rest) (start + length (encodeEntry e)) (eIndex e) (xs @ [e]) (os @ [start]) =
    readLog_loop s rest (start + length (encodeEntry e) + length (frames es)) previous' ((xs @ [e]) @ es)
      ((os @ [start]) @ entry_offsets (start + length (encodeEntry e)) es)"
    using Cons.prems e nz by (intro Cons.IH [of "base + 1"]) simp_all
  then show ?case using fr [of "frames es @ rest"] gt Cons.prems(2) by (simp add: add.assoc)
qed auto

lemma readLog_frames:
  assumes "contiguous (unat s) es" "\<forall>e \<in> set es. entry_ok e" "unat s + length es < 2 ^ 64"
  shows "readLog (frames es) s = (es, entry_offsets 0 es, length (frames es))"
  using readLog_loop_frames [OF assms order_refl, of 0 "[]" 0 "[]" "[]"] by (auto simp: readLog_def readLog_loop_Nil)

lemma readLog_torn:
  assumes "contiguous (unat s) es" "\<forall>e \<in> set es. entry_ok e" "unat s + length es < 2 ^ 64" "entry_ok e" "k < length (encodeEntry e)"
  shows "readLog (frames es @ take k (encodeEntry e)) s = (es, entry_offsets 0 es, length (frames es))"
  using readLog_loop_frames [OF assms(1-3) order_refl, of 0 "take k (encodeEntry e)" 0 "[]" "[]"] readLog_loop_torn [OF assms(4,5)]
  by (auto simp: readLog_def)


section \<open>The snapshot file\<close>

definition snapshot_body :: "Snapshot \<Rightarrow> bytes \<Rightarrow> bytes" where
  "snapshot_body s data =
     (let m = json_Marshal (membership_json (sMembership s))
      in snap_header (sIndex s) (sTerm s) (word_of_nat (length data)) @ data @ putUint32 (word_of_nat (length m)) @ m)"

definition snapshot_bytes :: "Snapshot \<Rightarrow> bytes \<Rightarrow> bytes" where
  "snapshot_bytes s data = snapshot_body s data @ putUint32 (crc32 (snapshot_body s data))"

definition storable :: "Snapshot \<Rightarrow> bytes \<Rightarrow> bool" where
  "storable s data \<longleftrightarrow> sIndex s \<noteq> 0 \<and> sTerm s \<noteq> 0 \<and> length data \<le> maxSnapshotData \<and>
     length (json_Marshal (membership_json (sMembership s))) \<le> 2 ^ 20"

lemma length_snap_header [simp]: "length (snap_header i t l) = snapshotHeader"
  by (simp add: snap_header_def snapshotHeader_def)

lemma inspect_snapshot_bytes:
  assumes "dFiles d snapshotFile = Some (snapshot_bytes s data)" "storable s data"
  shows "inspectSnapshot d = Inr (s\<lparr>sData := []\<rparr>, word_of_nat (length data), crc32 data)"
proof -
  define m where "m = json_Marshal (membership_json (sMembership s))"
  define f where "f = snapshot_bytes s data"
  have f: "f = snap_header (sIndex s) (sTerm s) (word_of_nat (length data)) @ data @ putUint32 (word_of_nat (length m)) @ m @
      putUint32 (crc32 (snapshot_body s data))"
    by (simp add: f_def snapshot_bytes_def snapshot_body_def Let_def m_def)
  have len: "length f = snapshotHeader + length data + 4 + length m + 4" by (simp add: f)
  have dl: "unat (word_of_nat (length data) :: u64) = length data" "unat (word_of_nat (length m) :: u32) = length m"
    using assms(2) by (simp_all add: storable_def maxSnapshotData_def m_def unat_of_nat_u64 unat_of_nat_u32)
  have g: "getUint64 f = sIndex s" "getUint64 (drop 8 f) = sTerm s" "getUint64 (drop 16 f) = word_of_nat (length data)"
    by (simp_all add: f snap_header_def)
  have body: "snapshot_body s data = snap_header (sIndex s) (sTerm s) (word_of_nat (length data)) @ data @ putUint32 (word_of_nat (length m)) @ m"
    by (simp add: snapshot_body_def Let_def m_def)
  have base: "drop (snapshotHeader + length data) f = putUint32 (word_of_nat (length m)) @ m @ putUint32 (crc32 (snapshot_body s data))"
    "drop (snapshotHeader + length data + 4) f = m @ putUint32 (crc32 (snapshot_body s data))"
    "take (length f - 4) f = snapshot_body s data" "drop (length f - 4) f = putUint32 (crc32 (snapshot_body s data))"
    "take (length data) (drop snapshotHeader f) = data"
    unfolding len by (simp_all add: f body)
  have mem: "inspect_membership f (snapshotHeader + length data) = Inr (sMembership s)"
    using assms(2) unfolding inspect_membership_def Let_def base(1,2)
    by (simp add: len dl dl [unfolded m_def] storable_def m_def)
  have c1: "\<not> length f < snapshotHeader + 4" by (simp add: len)
  have c2: "\<not> (sIndex s = 0 \<or> sTerm s = 0 \<or> length data > maxSnapshotData \<or> length data > length f - snapshotHeader - 4 \<or>
      length data > 2 ^ 64 - 1 - snapshotHeader - 8)"
    using assms(2) by (auto simp: storable_def len maxSnapshotData_def snapshotHeader_def)
  have c3: "\<not> crc32 (take (length f - 4) f) \<noteq> getUint32 (drop (length f - 4) f)" unfolding base by simp
  show ?thesis
    unfolding inspectSnapshot_def assms(1) option.case f_def [symmetric] if_not_P [OF c1] Let_def g dl(1) if_not_P [OF c2] mem rbind_simps
      if_not_P [OF c3] base(5)
    by simp
qed

lemma put_file_same: "dFiles d f = Some bs \<Longrightarrow> put_file f bs d = d"
  by (simp add: put_file_def fun_upd_idem)

lemma write_data_fine:
  assumes "healthy d" "dFiles d snapTmp = Some pre" "pos = length pre" "written + length (concat cs) \<le> maxSnapshotData"
  shows "write_data d pos written cs (Inr ()) = (put_file snapTmp (pre @ concat cs) d, Inr (pos + length (concat cs)))"
  using assms
proof (induction cs arbitrary: d pos pre written)
  case Nil
  then show ?case by (simp add: put_file_same)
next
  case (Cons c cs)
  have "write_data (put_file snapTmp (pre @ c) d) (pos + length c) (written + length c) cs (Inr ()) =
      (put_file snapTmp ((pre @ c) @ concat cs) (put_file snapTmp (pre @ c) d), Inr (pos + length c + length (concat cs)))"
    using Cons.prems by (intro Cons.IH) simp_all
  then show ?case using Cons.prems by (simp add: os_fine content_def add.assoc)
qed

lemma files_eq: "healthy d \<Longrightarrow> healthy e \<Longrightarrow> dFiles d = dFiles e \<Longrightarrow> d = e"
  by (cases d; cases e) (simp add: healthy_def)

lemma healthy_files [simp]: "healthy (d\<lparr>dFiles := x\<rparr>) = healthy d"
  by (simp add: healthy_def)

lemma write_at_over: "length buf = length a \<Longrightarrow> write_at (a @ b) 0 buf = buf @ b"
  by (simp add: write_at_def)

lemma file_names [simp]:
  "snapTmp \<noteq> snapshotFile" "hardTmp \<noteq> hardStateFile" "logTmp \<noteq> logFile" "hardStateFile \<noteq> snapshotFile" "hardStateFile \<noteq> logFile"
  "snapshotFile \<noteq> logFile" "hardTmp \<noteq> snapshotFile" "hardTmp \<noteq> logFile" "snapTmp \<noteq> hardStateFile" "snapTmp \<noteq> logFile"
  "logTmp \<noteq> hardStateFile" "logTmp \<noteq> snapshotFile" "snapshotFile \<noteq> hardStateFile" "logFile \<noteq> hardStateFile" "logFile \<noteq> snapshotFile"
  "snapshotFile \<noteq> snapTmp" "hardStateFile \<noteq> hardTmp" "logFile \<noteq> logTmp" "snapshotFile \<noteq> hardTmp" "logFile \<noteq> hardTmp"
  "hardStateFile \<noteq> snapTmp" "logFile \<noteq> snapTmp" "hardStateFile \<noteq> logTmp" "snapshotFile \<noteq> logTmp"
  by (simp_all add: snapTmp_def snapshotFile_def hardTmp_def hardStateFile_def logTmp_def logFile_def)

lemma storeSnapshotStream_fine:
  assumes "healthy d" "length (concat cs) \<le> maxSnapshotData"
  shows "storeSnapshotStream d s (cs, Inr ()) =
    (d\<lparr>dFiles := (dFiles d)(snapshotFile \<mapsto> snapshot_bytes s (concat cs), snapTmp := None)\<rparr>, Inr (word_of_nat (length (concat cs)), crc32 (concat cs)))"
proof -
  define data where "data = concat cs"
  define m where "m = json_Marshal (membership_json (sMembership s))"
  define h0 where "h0 = snap_header (sIndex s) (sTerm s) 0"
  define h where "h = snap_header (sIndex s) (sTerm s) (word_of_nat (length data))"
  have len: "length h0 = snapshotHeader" "length h = snapshotHeader" by (simp_all add: h0_def h_def)
  have wd: "write_data (put_file snapTmp h0 d) snapshotHeader 0 cs (Inr ()) =
      (put_file snapTmp (h0 @ data) d, Inr (snapshotHeader + length data))"
    using write_data_fine [of "put_file snapTmp h0 d" h0 snapshotHeader 0 cs] assms len by (simp add: data_def)
  have over: "write_at (h0 @ data) 0 h = h @ data" using write_at_over [of h h0 data] len by simp
  have ends: "write_at (h @ data) (snapshotHeader + length data) x = h @ data @ x"
    "write_at (h @ data @ putUint32 y) (snapshotHeader + length data + 4) x = h @ data @ putUint32 y @ x" for x y
    using write_at_end [of "h @ data" x] write_at_end [of "h @ data @ putUint32 y" x] len by (simp_all add: add.assoc)
  have body: "h @ data @ putUint32 (word_of_nat (length m)) @ m = snapshot_body s data"
    by (simp add: snapshot_body_def Let_def h_def m_def)
  have lb: "snapshotHeader + length data + 4 + length m = length (snapshot_body s data)"
    unfolding body [symmetric] using len by simp
  have fin: "write_at (snapshot_body s data) (length (snapshot_body s data)) (putUint32 (crc32 (snapshot_body s data))) = snapshot_bytes s data"
    by (simp add: snapshot_bytes_def)
  show ?thesis
    unfolding storeSnapshotStream_def Let_def fst_conv snd_conv data_def [symmetric] m_def [symmetric] h0_def [symmetric]
    using assms(1)
    by (simp add: os_fine content_def wd over ends h_def [symmetric] body lb fin or_remove_def syncDir_def)
      (simp add: put_file_def snapshot_bytes_def)
qed

lemma storeHardState_fine:
  assumes "healthy d"
  shows "storeHardState d h = (d\<lparr>dFiles := (dFiles d)(hardStateFile \<mapsto> hard_encode h, hardTmp := None)\<rparr>, Inr ())"
  using assms
  by (simp add: storeHardState_def os_fine content_def or_remove_def syncDir_def put_file_def)

lemma rewrite_entries_fine:
  assumes "healthy d" "dFiles d logTmp = Some pre" "pos = length pre"
  shows "rewrite_entries d pos es = (put_file logTmp (pre @ frames es) d, Inr ())"
  using assms
proof (induction es arbitrary: d pos pre)
  case Nil
  then show ?case by (simp add: put_file_same)
next
  case (Cons e es)
  have "rewrite_entries (put_file logTmp (pre @ encodeEntry e) d) (pos + length (encodeEntry e)) es =
      (put_file logTmp ((pre @ encodeEntry e) @ frames es) (put_file logTmp (pre @ encodeEntry e) d), Inr ())"
    using Cons.prems by (intro Cons.IH) simp_all
  then show ?case using Cons.prems by (simp add: os_fine content_def)
qed

lemma rewriteLog_fine:
  assumes "healthy d" "\<not> rsClosed st"
  shows "rewriteLog d st es = (d\<lparr>dFiles := (dFiles d)(logFile \<mapsto> frames es, logTmp := None)\<rparr>,
    st\<lparr>rsEntries := es, rsOffsets := entry_offsets 0 es, rsPos := length (frames es)\<rparr>, Inr ())"
proof -
  have re: "rewrite_entries (put_file logTmp [] d) 0 es = (put_file logTmp (frames es) d, Inr ())"
    using rewrite_entries_fine [of "put_file logTmp [] d" "[]" 0 es] assms(1) by simp
  show ?thesis
    using assms
    by (simp add: rewriteLog_def os_fine re or_remove_def syncDir_def content_def)
qed


section \<open>Calls that may fail\<close>

text \<open>A call keeps one condition on the disk when it fails and another one when it returns.\<close>

definition guarded :: "disk \<times> 'a result \<Rightarrow> (disk \<Rightarrow> bool) \<Rightarrow> (disk \<Rightarrow> 'a \<Rightarrow> bool) \<Rightarrow> bool" where
  "guarded r J Q = (case r of (d, Inl _) \<Rightarrow> J d | (d, Inr x) \<Rightarrow> Q d x)"

lemma guarded_dbind: "guarded r J (\<lambda>d x. guarded (f d x) J Q) \<Longrightarrow> guarded (dbind r f) J Q"
  by (cases r; cases "snd r") (simp_all add: guarded_def)

lemma guarded_mono:
  "guarded r J Q \<Longrightarrow> (\<And>d. J d \<Longrightarrow> J' d) \<Longrightarrow> (\<And>d x. Q d x \<Longrightarrow> Q' d x) \<Longrightarrow> guarded r J' Q'"
  by (cases r; cases "snd r") (simp_all add: guarded_def)

lemma guarded_pair: "guarded (d, Inr x) J Q = Q d x" "guarded (d, Inl e) J Q = J d"
  by (simp_all add: guarded_def)

text \<open>The directory outside a temporary file, and with a given content of it.\<close>

definition aside :: "string \<Rightarrow> (string \<rightharpoonup> bytes) \<Rightarrow> disk \<Rightarrow> bool" where
  "aside t F d \<longleftrightarrow> (\<forall>g. g \<noteq> t \<longrightarrow> dFiles d g = F g)"

definition beside :: "string \<Rightarrow> (string \<rightharpoonup> bytes) \<Rightarrow> bytes \<Rightarrow> disk \<Rightarrow> bool" where
  "beside t F c d \<longleftrightarrow> aside t F d \<and> dFiles d t = Some c"

lemma guarded_os:
  "aside t F d \<Longrightarrow> guarded (os_create d t) (aside t F) (\<lambda>d _. beside t F [] d)"
  "beside t F c d \<Longrightarrow> guarded (os_write d t pos b) (aside t F) (\<lambda>d _. beside t F (write_at c pos b) d)"
  "beside t F c d \<Longrightarrow> guarded (os_sync d t) (aside t F) (\<lambda>d _. beside t F c d)"
  "beside t F c d \<Longrightarrow> t \<noteq> f \<Longrightarrow> guarded (os_rename d t f) (aside t F) (\<lambda>d _. aside t (F(f \<mapsto> c)) d)"
  "aside t F d \<Longrightarrow> guarded (syncDir d) (aside t F) (\<lambda>d _. aside t F d)"
  "aside t F d \<Longrightarrow> guarded (os_mkdirAll d) (aside t F) (\<lambda>d _. aside t F d)"
  unfolding os_create_def os_write_def os_sync_def os_rename_def syncDir_def os_open_dir_def os_mkdirAll_def syscall_def
  by (auto simp: guarded_def dbind_def aside_def beside_def put_file_def content_def split: list.splits fault.splits)

lemma guarded_file_write:
  assumes "beside t F c d"
  shows "case file_write d t pos b of (d', pos', Inl e) \<Rightarrow> aside t F d' | (d', pos', Inr _) \<Rightarrow> beside t F (write_at c pos b) d' \<and> pos' = pos + length b"
proof (cases "file_write d t pos b")
  case (fields d' pos' r)
  show ?thesis
  proof (cases r)
    case (Inl e)
    with file_write_frame [OF fields] assms show ?thesis by (simp add: fields beside_def aside_def)
  next
    case (Inr u)
    with file_write_Inr fields assms show ?thesis by (fastforce simp: beside_def aside_def content_def)
  qed
qed

lemma guarded_or_remove:
  assumes "guarded r (aside t F) Q"
  shows "guarded (or_remove t r) (aside t F) Q"
proof -
  have "aside t F (fst (os_remove d t))" if "aside t F d" for d
    using that os_frame(7) [of d t "fst (os_remove d t)" "snd (os_remove d t)"] by (simp add: aside_def)
  with assms show ?thesis by (auto simp: guarded_def or_remove_def split: sum.splits prod.splits)
qed

lemma storeHardState_guarded:
  assumes "aside hardTmp F d"
  shows "guarded (storeHardState d h) (\<lambda>d. aside hardTmp F d \<or> aside hardTmp (F(hardStateFile \<mapsto> hard_encode h)) d)
    (\<lambda>d _. aside hardTmp (F(hardStateFile \<mapsto> hard_encode h)) d)"
proof -
  let ?new = "aside hardTmp (F(hardStateFile \<mapsto> hard_encode h))"
  have w: "guarded (dbind (os_write d hardTmp 0 (hard_encode h)) (\<lambda>d _. dbind (os_sync d hardTmp) (\<lambda>d _. os_rename d hardTmp hardStateFile)))
      (aside hardTmp F) (\<lambda>d _. ?new d)" if "beside hardTmp F [] d" for d
    by (intro guarded_dbind guarded_mono [OF guarded_os(2) [OF that]] guarded_mono [OF guarded_os(3)])
      (auto intro!: guarded_mono [OF guarded_os(4)])
  show ?thesis
    unfolding storeHardState_def
    apply (intro guarded_dbind)
    apply (rule guarded_mono [OF guarded_os(1) [OF assms]])
     apply blast
    apply (rule guarded_dbind, rule guarded_mono [OF guarded_or_remove [OF w]], assumption)
     apply blast
    apply (rule guarded_mono [OF guarded_os(5)], assumption)
    by blast+
qed


section \<open>What the files represent\<close>

definition snapshot_file :: "(string \<rightharpoonup> bytes) \<Rightarrow> Snapshot \<Rightarrow> bytes \<Rightarrow> bool" where
  "snapshot_file F s data \<longleftrightarrow>
     (if sIndex s = 0 then F snapshotFile = None \<and> data = []
      else storable s data \<and> F snapshotFile = Some (snapshot_bytes s data))"

definition snap_meta :: "Snapshot \<Rightarrow> Snapshot" where
  "snap_meta s = (if sIndex s = 0 then zero_snapshot else s\<lparr>sData := []\<rparr>)"

lemma sIndex_snap_meta [simp]: "sIndex (snap_meta s) = sIndex s"
  by (simp add: snap_meta_def zero_snapshot_def)

definition log_ok :: "Snapshot \<Rightarrow> Entry list \<Rightarrow> bool" where
  "log_ok s es \<longleftrightarrow> contiguous (unat (sIndex s)) es \<and> (\<forall>e \<in> set es. entry_ok e) \<and> unat (sIndex s) + length es + 1 < 2 ^ 64"

definition torn :: "bytes \<Rightarrow> bool" where
  "torn tail \<longleftrightarrow> tail = [] \<or> (\<exists>e k. entry_ok e \<and> k < length (encodeEntry e) \<and> tail = take k (encodeEntry e))"

definition hard_file :: "(string \<rightharpoonup> bytes) \<Rightarrow> HardState \<Rightarrow> bool" where
  "hard_file F h \<longleftrightarrow> (F hardStateFile = None \<and> h = zero_hard) \<or> F hardStateFile = Some (hard_encode h)"

text \<open>The files of a store whose last call may have been cut short, and of one whose calls returned.\<close>

definition recovers :: "(string \<rightharpoonup> bytes) \<Rightarrow> durable \<Rightarrow> bytes \<Rightarrow> bool" where
  "recovers F p data \<longleftrightarrow> hard_file F (pHard p) \<and> snapshot_file F (pSnap p) data \<and> log_ok (pSnap p) (pLog p) \<and>
     (\<exists>tail. torn tail \<and> (case F logFile of None \<Rightarrow> [] | Some bs \<Rightarrow> bs) = frames (pLog p) @ tail)"

definition store_of :: "durable \<Rightarrow> bytes \<Rightarrow> Store" where
  "store_of p data =
     \<lparr>rsEntries = pLog p, rsOffsets = entry_offsets 0 (pLog p), rsHard = pHard p, rsSnapshot = snap_meta (pSnap p),
      rsSnapshotSize = word_of_nat (length data), rsSnapshotChecksum = crc32 data, rsPos = length (frames (pLog p)), rsClosed = False\<rparr>"

definition represents :: "(string \<rightharpoonup> bytes) \<Rightarrow> durable \<Rightarrow> bytes \<Rightarrow> bool" where
  "represents F p data \<longleftrightarrow> hard_file F (pHard p) \<and> snapshot_file F (pSnap p) data \<and> log_ok (pSnap p) (pLog p) \<and>
     F logFile = Some (frames (pLog p))"

lemma represents_recovers: "represents F p data \<Longrightarrow> recovers F p data"
  by (auto simp: represents_def recovers_def torn_def)

lemma loadHardState_file: "hard_file (dFiles d) h \<Longrightarrow> loadHardState d = Inr h"
  by (auto simp: hard_file_def loadHardState_def)

lemma crc32_Nil [simp]: "crc32 [] = 0"
  by code_simp

lemma inspectSnapshot_file:
  "snapshot_file (dFiles d) s data \<Longrightarrow> inspectSnapshot d = Inr (snap_meta s, word_of_nat (length data), crc32 data)"
  using inspect_snapshot_bytes [of d s data]
  by (auto simp: snapshot_file_def snap_meta_def inspectSnapshot_def split: if_splits)

lemma readLog_recovers:
  assumes "log_ok s es" "torn tail"
  shows "readLog (frames es @ tail) (sIndex s) = (es, entry_offsets 0 es, length (frames es))"
  using assms readLog_frames [of "sIndex s" es] readLog_torn [of "sIndex s" es]
  by (auto simp: log_ok_def torn_def)

lemma raftstore_Open_recovers:
  assumes "healthy d" "recovers (dFiles d) p data"
  shows "\<exists>d'. raftstore_Open d = (d', Inr (store_of p data)) \<and> healthy d' \<and> represents (dFiles d') p data"
proof -
  from assms(2) obtain tail where t: "hard_file (dFiles d) (pHard p)" "snapshot_file (dFiles d) (pSnap p) data" "log_ok (pSnap p) (pLog p)"
    "torn tail" "content d logFile = frames (pLog p) @ tail"
    by (auto simp: recovers_def content_def)
  define d1 where "d1 = put_file logFile (frames (pLog p) @ tail) d"
  have d1: "os_openFile d logFile = (d1, Inr ())"
    using t(5) assms(1) by (auto simp: os_fine d1_def content_def put_file_same)
  have h1: "healthy d1" "content d1 logFile = frames (pLog p) @ tail" using assms(1) by (simp_all add: d1_def)
  have "raftstore_Open d = (put_file logFile (frames (pLog p)) d, Inr (store_of p data))"
    using assms(1) h1 readLog_recovers [OF t(3,4)]
    by (simp add: raftstore_Open_def os_mkdirAll_def loadHardState_file [OF t(1)] inspectSnapshot_file [OF t(2)] d1 os_fine store_of_def)
      (simp add: d1_def)
  moreover have "represents (dFiles (put_file logFile (frames (pLog p)) d)) p data"
    using t(1-3) by (simp add: represents_def hard_file_def snapshot_file_def)
  ultimately show ?thesis using assms(1) by auto
qed

section \<open>Appending and truncating\<close>

lemma log_ok_append_iff:
  "log_ok s (es @ fs) \<longleftrightarrow> log_ok s es \<and> contiguous (unat (sIndex s) + length es) fs \<and> (\<forall>e \<in> set fs. entry_ok e) \<and>
     unat (sIndex s) + length es + length fs + 1 < 2 ^ 64"
  unfolding log_ok_def by (auto simp: contiguous_append)

lemma log_ok_take: "log_ok s es \<Longrightarrow> log_ok s (take k es)"
  using log_ok_append_iff [of s "take k es" "drop k es"] by simp

lemma frames_torn: "entry_ok e \<Longrightarrow> \<exists>k tail. torn tail \<and> k \<le> Suc 0 \<and> take n (encodeEntry e) = frames (take k [e]) @ tail"
  by (cases "n < length (encodeEntry e)")
    (rule exI [of _ 0], force simp: torn_def, rule exI [of _ 1], simp add: torn_def)

lemma write_at_append: "pos = length c \<Longrightarrow> write_at c pos b = c @ b"
  by simp

lemma file_write_failed:
  assumes "beside f F c d" "file_write d f (length c) b = (d', pos, Inl x)"
  shows "\<exists>n. beside f F (c @ take n b) d'"
proof -
  from assms(2) obtain x' where "os_write d f (length c) b = (d', Inl x')"
    by (auto simp: file_write_def Let_def split: prod.splits)
  with assms(1) show ?thesis
    unfolding os_write_def
    by (elim syscall_cases) (auto simp: beside_def aside_def content_def intro: exI [of _ 0])
qed

lemma append_loop_files:
  assumes "beside logFile F (frames log) d" "log_ok s (log @ es)" "rsSnapshot st = snap_meta s"
    "rsEntries st = log" "rsPos st = length (frames log)" "\<not> rsClosed st" "append_loop d st es = (d', st', r)"
  shows "\<exists>k tail. torn tail \<and> beside logFile F (frames (log @ take k es) @ tail) d' \<and>
    (r = Inr () \<longrightarrow> beside logFile F (frames (log @ es)) d' \<and>
       st' = st\<lparr>rsEntries := log @ es, rsOffsets := rsOffsets st @ entry_offsets (length (frames log)) es, rsPos := length (frames (log @ es))\<rparr>)"
  using assms
proof (induction es arbitrary: d st log)
  case Nil
  then show ?case by (intro exI [of _ 0] exI [of _ "[]"]) (auto simp: torn_def)
next
  case (Cons e es)
  have len: "length log < 2 ^ 64" "unat (sIndex s) + length log + 1 < 2 ^ 64" using Cons.prems(2) by (simp_all add: log_ok_append_iff)
  have e: "entry_ok e" "unat (eIndex e) = unat (sIndex s) + length log + 1"
    using Cons.prems(2) by (simp_all add: log_ok_append_iff contiguous_Cons)
  have "eIndex e = sIndex s + word_of_nat (length log) + 1"
  proof -
    have "unat (sIndex s + word_of_nat (length log) + 1) = unat (sIndex s) + length log + 1"
      using len by (simp add: unat_word_ariths unat_of_nat)
    with e(2) show ?thesis by (simp add: word_unat_eq_iff)
  qed
  then have c: "\<not> (eIndex e \<noteq> sIndex (rsSnapshot st) + word_of_nat (length (rsEntries st)) + 1 \<or> eTerm e = 0)" "\<not> length (eData e) > maxEntryData"
    using e(1) Cons.prems(3,4) by (simp_all add: entry_ok_def)
  obtain d1 pos w where w: "file_write d logFile (rsPos st) (encodeEntry e) = (d1, pos, w)" by (metis prod_cases3)
  have run: "(d', st', r) = (case w of Inl x \<Rightarrow> (d1, st\<lparr>rsPos := pos\<rparr>, Inl x)
      | Inr _ \<Rightarrow> append_loop d1 (st\<lparr>rsPos := pos, rsOffsets := rsOffsets st @ [rsPos st], rsEntries := rsEntries st @ [e]\<rparr>) es)"
    using Cons.prems(7) c Cons.prems(6) by (simp add: w Let_def)
  show ?case
  proof (cases w)
    case (Inl x)
    obtain n where "beside logFile F (frames log @ take n (encodeEntry e)) d1"
      using file_write_failed Cons.prems(1,5) w Inl by metis
    moreover obtain k tail where kt: "torn tail" "k \<le> Suc 0" "take n (encodeEntry e) = frames (take k [e]) @ tail"
      using frames_torn [OF e(1)] by blast
    moreover have "take k (e # es) = take k [e]" using kt(2) by (cases k) auto
    ultimately show ?thesis using run Inl by (intro exI [of _ k] exI [of _ tail]) simp
  next
    case (Inr v)
    have fw: "beside logFile F (frames (log @ [e])) d1" "pos = length (frames (log @ [e]))"
      using guarded_file_write [OF Cons.prems(1), of "rsPos st" "encodeEntry e"] Cons.prems(5) by (simp_all add: w [unfolded Cons.prems(5)] Inr)
    let ?st = "st\<lparr>rsPos := pos, rsOffsets := rsOffsets st @ [rsPos st], rsEntries := rsEntries st @ [e]\<rparr>"
    have "append_loop d1 ?st es = (d', st', r)" using run Inr by simp
    from Cons.IH [OF fw(1) _ _ _ _ _ this] Cons.prems(2-6) fw(2)
    obtain k tail where "torn tail" "beside logFile F (frames ((log @ [e]) @ take k es) @ tail) d'"
      "r = Inr () \<longrightarrow> beside logFile F (frames ((log @ [e]) @ es)) d' \<and>
        st' = ?st\<lparr>rsEntries := (log @ [e]) @ es, rsOffsets := rsOffsets ?st @ entry_offsets (length (frames (log @ [e]))) es,
          rsPos := length (frames ((log @ [e]) @ es))\<rparr>"
      by auto
    then show ?thesis using Cons.prems(5) by (intro exI [of _ "Suc k"] exI [of _ tail]) simp
  qed
qed


lemma store_append_files:
  assumes "beside logFile F (frames log) d" "log_ok s (log @ es)" "rsSnapshot st = snap_meta s"
    "rsEntries st = log" "rsOffsets st = entry_offsets 0 log" "rsPos st = length (frames log)" "\<not> rsClosed st" "store_append d st es = (d', st', r)"
  shows "\<exists>k tail. torn tail \<and> beside logFile F (frames (log @ take k es) @ tail) d' \<and>
    (r = Inr () \<longrightarrow> beside logFile F (frames (log @ es)) d' \<and>
       st' = st\<lparr>rsEntries := log @ es, rsOffsets := entry_offsets 0 (log @ es), rsPos := length (frames (log @ es))\<rparr>)"
proof -
  obtain d1 st1 q where q: "append_loop d st es = (d1, st1, q)" by (metis prod_cases3)
  have sync: "os_sync d1 logFile = (d2, v) \<Longrightarrow> beside logFile F c d1 \<Longrightarrow> beside logFile F c d2" for d2 v c
    by (simp add: beside_def aside_def os_frame(5))
  from append_loop_files [OF assms(1-4,6,7) q] obtain k tail where kt: "torn tail" "beside logFile F (frames (log @ take k es) @ tail) d1"
    and ok: "q = Inr () \<Longrightarrow> beside logFile F (frames (log @ es)) d1 \<and>
       st1 = st\<lparr>rsEntries := log @ es, rsOffsets := rsOffsets st @ entry_offsets (length (frames log)) es, rsPos := length (frames (log @ es))\<rparr>"
    by blast
  show ?thesis
  proof (cases q)
    case (Inl x)
    then show ?thesis using assms(8) kt by (intro exI [of _ k] exI [of _ tail]) (auto simp: store_append_def q)
  next
    case (Inr v)
    then have ok': "beside logFile F (frames (log @ es)) d1"
      "st1 = st\<lparr>rsEntries := log @ es, rsOffsets := entry_offsets 0 (log @ es), rsPos := length (frames (log @ es))\<rparr>"
      using ok assms(5) by (simp_all add: entry_offsets_append)
    obtain d2 v2 where v2: "os_sync d1 logFile = (d2, v2)" by fastforce
    have "d' = d2" "st' = st1" using assms(7,8) ok'(2) Inr by (auto simp: store_append_def q v2)
    then show ?thesis using sync [OF v2 ok'(1)] ok'(2) by (intro exI [of _ "length es"] exI [of _ "[]"]) (simp add: torn_def)
  qed
qed

lemma take_frames: "take (length (frames (take k es))) (frames es) = frames (take k es)"
  using frames_simps(3) [of "take k es" "drop k es"] by (metis append_eq_conv_conj append_take_drop_id)

lemma store_truncate_files:
  assumes "beside logFile F (frames log) d" "log_ok s log" "rsSnapshot st = snap_meta s" "rsEntries st = log" "rsOffsets st = entry_offsets 0 log"
    "\<not> rsClosed st" "sIndex s < t" "unat t \<le> unat (sIndex s) + length log" "store_truncate d st t = (d', st', r)"
  defines "log' \<equiv> truncated t s log"
  shows "(beside logFile F (frames log) d' \<or> beside logFile F (frames log') d') \<and>
    (r = Inr () \<longrightarrow> beside logFile F (frames log') d' \<and>
       st' = st\<lparr>rsPos := length (frames log'), rsEntries := log', rsOffsets := entry_offsets 0 log'\<rparr>)"
proof -
  define k where "k = unat t - unat (sIndex s) - 1"
  have lt: "unat (sIndex s) < unat t" using assms(7) by (simp add: word_less_nat_alt)
  have room: "unat (sIndex s) + length log + 1 < 2 ^ 64" using assms(2) by (simp add: log_ok_def)
  have f: "unat (sIndex s + 1) = unat (sIndex s) + 1" "unat (sIndex s + word_of_nat (length log)) = unat (sIndex s) + length log"
    "unat (sIndex s + word_of_nat (length log) + 1) = unat (sIndex s) + length log + 1"
    using room by (simp_all add: unat_word_ariths unat_of_nat)
  have kk: "unat (t - (sIndex s + 1)) = k" using lt f(1) by (simp add: k_def unat_sub word_le_nat_alt)
  have kl: "k < length log" using lt assms(8) by (simp add: k_def)
  have l': "log' = take k log" using lt by (auto simp: log'_def truncated_def k_def)
  have c: "\<not> (t < sIndex s + 1 \<or> t > sIndex s + word_of_nat (length log) + 1)" "t \<noteq> sIndex s + word_of_nat (length log) + 1"
    using lt assms(8) f by (auto simp: word_less_nat_alt)
  have off: "rsOffsets st ! k = length (frames log')" using kl by (simp add: assms(5) entry_offsets_nth l')
  have cut: "take (length (frames log')) (frames log) = frames log'" "length (frames log') \<le> length (frames log)"
    by (simp_all add: l' take_frames) (metis length_take min.cobounded2 min.commute take_frames)
  obtain d1 v where v: "os_truncate d logFile (length (frames log')) = (d1, v)" by fastforce
  obtain d2 w where w: "os_sync d1 logFile = (d2, w)" by fastforce
  have run: "(d', st', r) = (case v of Inl e \<Rightarrow> (d1, st, Inl e)
      | Inr _ \<Rightarrow> (d2, st\<lparr>rsPos := length (frames log'), rsEntries := log', rsOffsets := entry_offsets 0 log'\<rparr>, w))"
    using assms(9) c kl unfolding store_truncate_def Let_def assms(3,4) sIndex_snap_meta kk off
    by (auto simp: assms(5,6) v [unfolded l'] w l' entry_offsets_take split: sum.splits)
  have d1: "beside logFile F (frames log) d1 \<or> beside logFile F (frames log') d1" "v = Inr () \<Longrightarrow> beside logFile F (frames log') d1"
    using assms(1) v cut by (auto simp: os_truncate_def beside_def aside_def content_def elim!: syscall_cases)
  have "beside logFile F c d2 = beside logFile F c d1" for c using w by (simp add: beside_def aside_def os_frame(5))
  with run d1 show ?thesis by (cases v) auto
qed


section \<open>Persisting without a snapshot\<close>

text \<open>The durable states that a call cut short may leave.\<close>

definition between :: "durable \<Rightarrow> Update \<Rightarrow> durable \<Rightarrow> bool" where
  "between p u p' \<longleftrightarrow> pSnap p' = pSnap p \<and>
     (p' = p \<or> pHard p' = pHard (persist p u) \<and>
        (pLog p' = pLog p \<or> (\<exists>k. pLog p' = truncated (uTruncateFrom u) (pSnap p) (pLog p) @ take k (uEntries u))))"

definition cut_ok :: "durable \<Rightarrow> Update \<Rightarrow> bool" where
  "cut_ok p u \<longleftrightarrow> uTruncateFrom u = 0 \<or>
     sIndex (pSnap p) < uTruncateFrom u \<and> unat (uTruncateFrom u) \<le> unat (sIndex (pSnap p)) + length (pLog p)"

lemma persist_plain:
  "uSnapshot u = None \<Longrightarrow> persist p u = p\<lparr>pHard := (case uHard u of None \<Rightarrow> pHard p | Some h \<Rightarrow> h),
     pLog := truncated (uTruncateFrom u) (pSnap p) (pLog p) @ uEntries u\<rparr>"
  by (simp add: persist_def snapshotted_def)

lemma beside_represents:
  assumes "represents F p data" "beside logFile F (frames es) d" "log_ok (pSnap p) es"
  shows "represents (dFiles d) (p\<lparr>pLog := es\<rparr>) data"
  using assms by (simp add: represents_def beside_def aside_def hard_file_def snapshot_file_def)

lemma beside_recovers:
  assumes "represents F p data" "beside logFile F (frames es @ tail) d" "log_ok (pSnap p) es" "torn tail"
  shows "recovers (dFiles d) (p\<lparr>pLog := es\<rparr>) data"
  using assms by (auto simp: represents_def recovers_def beside_def aside_def hard_file_def snapshot_file_def)

lemma represents_hard:
  assumes "represents F p data" "aside hardTmp (F(hardStateFile \<mapsto> hard_encode h)) d"
  shows "represents (dFiles d) (p\<lparr>pHard := h\<rparr>) data"
  using assms by (simp add: represents_def aside_def hard_file_def snapshot_file_def)

lemma represents_aside:
  assumes "represents F p data" "aside hardTmp F d"
  shows "represents (dFiles d) p data"
  using assms by (simp add: represents_def aside_def hard_file_def snapshot_file_def)

lemma beside_refl: "dFiles d logFile = Some c \<Longrightarrow> beside logFile (dFiles d) c d"
  by (simp add: beside_def aside_def)

text \<open>The log part of a call, once the hard state is stored.\<close>

lemma persist_log_files:
  assumes "represents (dFiles d) p data" "cut_ok p u" "log_ok (pSnap p) (truncated (uTruncateFrom u) (pSnap p) (pLog p) @ uEntries u)"
    and "persist_log d (store_of p data) u = (d', st', r)"
  defines "log' \<equiv> truncated (uTruncateFrom u) (pSnap p) (pLog p)"
  shows "\<exists>es. recovers (dFiles d') (p\<lparr>pLog := es\<rparr>) data \<and> (es = pLog p \<or> (\<exists>k. es = log' @ take k (uEntries u))) \<and>
    (r = Inr () \<longrightarrow> es = log' @ uEntries u \<and> represents (dFiles d') (p\<lparr>pLog := es\<rparr>) data \<and> st' = store_of (p\<lparr>pLog := es\<rparr>) data)"
proof -
  let ?F = "dFiles d"
  have b: "beside logFile ?F (frames (pLog p)) d" using assms(1) by (simp add: represents_def beside_refl)
  have lok: "log_ok (pSnap p) (pLog p)" "log_ok (pSnap p) log'"
    using assms(1,3) by (simp_all add: represents_def log'_def log_ok_append_iff)
  obtain d1 st1 q where q: "(if uTruncateFrom u \<noteq> 0 then store_truncate d (store_of p data) (uTruncateFrom u) else (d, store_of p data, Inr ())) = (d1, st1, q)"
    by (metis prod_cases3)
  have tr: "(beside logFile ?F (frames (pLog p)) d1 \<or> beside logFile ?F (frames log') d1) \<and>
      (q = Inr () \<longrightarrow> beside logFile ?F (frames log') d1 \<and> st1 = store_of (p\<lparr>pLog := log'\<rparr>) data)"
  proof (cases "uTruncateFrom u = 0")
    case True
    then show ?thesis using q b by (auto simp: log'_def truncated_def)
  next
    case False
    then have "sIndex (pSnap p) < uTruncateFrom u" "unat (uTruncateFrom u) \<le> unat (sIndex (pSnap p)) + length (pLog p)"
      "store_truncate d (store_of p data) (uTruncateFrom u) = (d1, st1, q)"
      using assms(2) q by (simp_all add: cut_ok_def)
    from store_truncate_files [OF b lok(1) _ _ _ _ this] show ?thesis by (simp add: store_of_def log'_def)
  qed
  show ?thesis
  proof (cases q)
    case (Inl x)
    then have "d' = d1" "r \<noteq> Inr ()" using assms(4) by (auto simp: persist_log_def q)
    then show ?thesis
      using tr beside_recovers [OF assms(1) _ lok(1), of "[]" d1] beside_recovers [OF assms(1) _ lok(2), of "[]" d1]
      by (auto simp: torn_def intro: exI [of _ "pLog p"] exI [of _ "log'"] exI [of _ 0])
  next
    case (Inr v)
    then have t: "beside logFile ?F (frames log') d1" "st1 = store_of (p\<lparr>pLog := log'\<rparr>) data" using tr by simp_all
    have run: "(if uEntries u \<noteq> [] then store_append d1 st1 (uEntries u) else (d1, st1, Inr ())) = (d', st', r)"
      using assms(4) Inr by (simp add: persist_log_def q)
    show ?thesis
    proof (cases "uEntries u = []")
      case True
      then show ?thesis
        using run t beside_represents [OF assms(1) t(1) lok(2)] by (intro exI [of _ log']) (auto simp: represents_recovers)
    next
      case False
      have lk: "log_ok (pSnap p) (log' @ uEntries u)" using assms(3) by (simp add: log'_def)
      have "store_append d1 st1 (uEntries u) = (d', st', r)" using run False by simp
      from store_append_files [OF t(1) lk _ _ _ _ _ this] t(2)
      obtain k tail where kt: "torn tail" "beside logFile ?F (frames (log' @ take k (uEntries u)) @ tail) d'"
        and ok: "r = Inr () \<Longrightarrow> beside logFile ?F (frames (log' @ uEntries u)) d' \<and>
          st' = st1\<lparr>rsEntries := log' @ uEntries u, rsOffsets := entry_offsets 0 (log' @ uEntries u), rsPos := length (frames (log' @ uEntries u))\<rparr>"
        by (auto simp: store_of_def)
      show ?thesis
      proof (cases "r = Inr ()")
        case True
        with ok t(2) beside_represents [OF assms(1) _ lk, of d'] show ?thesis
          by (intro exI [of _ "log' @ uEntries u"]) (auto simp: store_of_def represents_recovers intro: exI [of _ "length (uEntries u)"])
      next
        case False
        have "log_ok (pSnap p) (log' @ take k (uEntries u))"
          using log_ok_take [OF lk, of "length log' + k"] by simp
        from beside_recovers [OF assms(1) kt(2) this kt(1)] False show ?thesis by blast
      qed
    qed
  qed
qed

end
