(* ===== verification/Raftstore_Safe.thy ===== *)
theory Raftstore_Safe
  imports Raftstore_Spec
begin

text \<open>
  The contract of the stable store with the consensus node: persisting an update takes the files from
  one durable state to the next, a call cut short leaves a durable state in between, and opening the
  directory gives the durable state back. The one window in which persisted entries are lost, between
  publishing a snapshot and rewriting the log behind it, is proved as such.
\<close>

section \<open>Persisting without a snapshot, completed\<close>

lemma persist_plain_files:
  assumes "represents (dFiles d) p data" "uSnapshot u = None" "cut_ok p u" "log_ok (pSnap p) (pLog (persist p u))"
    and "raftstore_Persist d (store_of p data) u = (d', st', r)"
  shows "\<exists>p'. recovers (dFiles d') p' data \<and> between p u p' \<and>
    (r = Inr () \<longrightarrow> p' = persist p u \<and> represents (dFiles d') p' data \<and> st' = store_of p' data)"
proof -
  define h where "h = (case uHard u of None \<Rightarrow> pHard p | Some h \<Rightarrow> h)"
  obtain d1 st1 q where q: "persist_hard d (store_of p data) u = (d1, st1, q)"
    by (metis prod_cases3)
  have hd: "(represents (dFiles d1) p data \<or> represents (dFiles d1) (p\<lparr>pHard := h\<rparr>) data) \<and>
      (q = Inr () \<longrightarrow> represents (dFiles d1) (p\<lparr>pHard := h\<rparr>) data \<and> st1 = store_of (p\<lparr>pHard := h\<rparr>) data)"
  proof (cases "uHard u")
    case None
    then show ?thesis using q assms(1) by (simp add: persist_hard_def h_def)
  next
    case (Some g)
    obtain d2 v where v: "storeHardState d g = (d2, v)" by fastforce
    have "guarded (d2, v) (\<lambda>d'. aside hardTmp (dFiles d) d' \<or> aside hardTmp ((dFiles d)(hardStateFile \<mapsto> hard_encode g)) d')
      (\<lambda>d' _. aside hardTmp ((dFiles d)(hardStateFile \<mapsto> hard_encode g)) d')"
      using storeHardState_guarded [of "dFiles d" d g] by (simp add: v aside_def)
    then show ?thesis
      using q Some represents_hard [OF assms(1), of g d2] represents_aside [OF assms(1), of d2]
      by (cases v) (auto simp: persist_hard_def v h_def guarded_pair store_of_def)
  qed
  have run: "sbind (d1, st1, q) (\<lambda>d st. persist_log d st u) = (d', st', r)"
    using assms(5) by (simp add: raftstore_Persist_def store_persist_def persist_snapshot_def assms(2) q)
  show ?thesis
  proof (cases q)
    case (Inl x)
    then have "d' = d1" "r \<noteq> Inr ()" using run by auto
    moreover have "between p u p" "between p u (p\<lparr>pHard := h\<rparr>)"
      by (simp_all add: between_def persist_plain [OF assms(2)] h_def)
    ultimately show ?thesis using hd represents_recovers by blast
  next
    case (Inr v)
    let ?p = "p\<lparr>pHard := h\<rparr>"
    have p: "represents (dFiles d1) ?p data" "st1 = store_of ?p data" using hd Inr by simp_all
    have eq: "persist p u = ?p\<lparr>pLog := truncated (uTruncateFrom u) (pSnap p) (pLog p) @ uEntries u\<rparr>"
      by (simp add: persist_plain [OF assms(2)] h_def)
    have "persist_log d1 (store_of ?p data) u = (d', st', r)" using run Inr by (simp add: p(2))
    from persist_log_files [OF p(1) _ _ this] assms(3,4)
    obtain es where "recovers (dFiles d') (?p\<lparr>pLog := es\<rparr>) data"
      "es = pLog p \<or> (\<exists>k. es = truncated (uTruncateFrom u) (pSnap p) (pLog p) @ take k (uEntries u))"
      "r = Inr () \<longrightarrow> es = truncated (uTruncateFrom u) (pSnap p) (pLog p) @ uEntries u \<and> represents (dFiles d') (?p\<lparr>pLog := es\<rparr>) data \<and>
         st' = store_of (?p\<lparr>pLog := es\<rparr>) data"
      by (auto simp: cut_ok_def eq)
    then show ?thesis by (intro exI [of _ "?p\<lparr>pLog := es\<rparr>"]) (auto simp: between_def eq)
  qed
qed

text \<open>On a disk that does not fail, every call returns.\<close>

lemma file_write_healthy: "healthy d \<Longrightarrow> \<exists>d'. file_write d f pos b = (d', pos + length b, Inr ()) \<and> healthy d'"
  by (simp add: os_fine)

lemma append_loop_healthy:
  assumes "healthy d" "log_ok s (log @ es)" "rsSnapshot st = snap_meta s" "rsEntries st = log" "\<not> rsClosed st"
  shows "\<exists>d' st'. append_loop d st es = (d', st', Inr ()) \<and> healthy d' \<and> \<not> rsClosed st'"
  using assms
proof (induction es arbitrary: d st log)
  case (Cons e es)
  have e: "entry_ok e" "unat (eIndex e) = unat (sIndex s) + length log + 1" "unat (sIndex s) + length log + 1 < 2 ^ 64"
    using Cons.prems(2) by (simp_all add: log_ok_append_iff contiguous_Cons)
  have "unat (sIndex s + word_of_nat (length log) + 1) = unat (sIndex s) + length log + 1"
    using e(3) by (simp add: unat_word_ariths unat_of_nat)
  then have "eIndex e = sIndex s + word_of_nat (length log) + 1" using e(2) by (simp add: word_unat_eq_iff)
  then have c: "\<not> (eIndex e \<noteq> sIndex (rsSnapshot st) + word_of_nat (length (rsEntries st)) + 1 \<or> eTerm e = 0)" "\<not> length (eData e) > maxEntryData"
    using e(1) Cons.prems(3,4) by (simp_all add: entry_ok_def)
  obtain d1 where d1: "file_write d logFile (rsPos st) (encodeEntry e) = (d1, rsPos st + length (encodeEntry e), Inr ())" "healthy d1"
    using file_write_healthy [OF Cons.prems(1)] by blast
  show ?case
    using c Cons.prems Cons.IH [OF d1(2), of "log @ [e]"] by (simp add: d1(1) Let_def)
qed simp

lemma persist_plain_healthy:
  assumes "represents (dFiles d) p data" "uSnapshot u = None" "cut_ok p u" "log_ok (pSnap p) (pLog (persist p u))" "healthy d"
  shows "\<exists>d' st'. raftstore_Persist d (store_of p data) u = (d', st', Inr ()) \<and> healthy d'"
proof -
  define h where "h = (case uHard u of None \<Rightarrow> pHard p | Some h \<Rightarrow> h)"
  let ?p = "p\<lparr>pHard := h\<rparr>"
  define log' where "log' = truncated (uTruncateFrom u) (pSnap p) (pLog p)"
  obtain d1 where d1: "persist_hard d (store_of p data) u = (d1, store_of ?p data, Inr ())"
    "healthy d1" "represents (dFiles d1) ?p data"
    using assms(1,5)
    by (cases "uHard u") (auto simp: persist_hard_def h_def storeHardState_fine store_of_def represents_def hard_file_def snapshot_file_def)
  have "\<exists>d2. (if uTruncateFrom u \<noteq> 0 then store_truncate d1 (store_of ?p data) (uTruncateFrom u) else (d1, store_of ?p data, Inr ())) =
      (d2, store_of (?p\<lparr>pLog := log'\<rparr>) data, Inr ()) \<and> healthy d2"
  proof (cases "uTruncateFrom u = 0")
    case True
    then show ?thesis using d1(2) by (auto simp: log'_def truncated_def)
  next
    case False
    let ?r = "store_truncate d1 (store_of ?p data) (uTruncateFrom u)"
    have lok: "log_ok (pSnap p) (pLog p)" using assms(1) by (simp add: represents_def)
    have c: "sIndex (pSnap p) < uTruncateFrom u" "unat (uTruncateFrom u) \<le> unat (sIndex (pSnap p)) + length (pLog p)"
      using False assms(3) by (simp_all add: cut_ok_def)
    have b: "beside logFile (dFiles d1) (frames (pLog p)) d1" using d1(3) by (simp add: represents_def beside_refl)
    have "snd (snd ?r) = Inr () \<and> healthy (fst ?r)"
    proof -
      have room: "unat (sIndex (pSnap p)) + length (pLog p) + 1 < 2 ^ 64" using lok by (simp add: log_ok_def)
      have f: "unat (sIndex (pSnap p) + 1) = unat (sIndex (pSnap p)) + 1"
        "unat (sIndex (pSnap p) + word_of_nat (length (pLog p)) + 1) = unat (sIndex (pSnap p)) + length (pLog p) + 1"
        using room by (simp_all add: unat_word_ariths unat_of_nat)
      have lt: "unat (sIndex (pSnap p)) < unat (uTruncateFrom u)" using c(1) by (simp add: word_less_nat_alt)
      then have "unat (uTruncateFrom u - (sIndex (pSnap p) + 1)) < length (pLog p)"
        using c f by (simp add: unat_sub word_le_nat_alt)
      moreover have "\<not> (uTruncateFrom u < sIndex (pSnap p) + 1 \<or> uTruncateFrom u > sIndex (pSnap p) + word_of_nat (length (pLog p)) + 1)"
        "uTruncateFrom u \<noteq> sIndex (pSnap p) + word_of_nat (length (pLog p)) + 1"
        using lt c(2) f by (auto simp: word_less_nat_alt)
      ultimately show ?thesis using d1(2) by (simp add: store_truncate_def store_of_def Let_def os_fine)
    qed
    then obtain d2 st2 where r: "?r = (d2, st2, Inr ())" "healthy d2" by (metis prod.exhaust_sel)
    from store_truncate_files [OF b lok _ _ _ _ c r(1)] have "st2 = store_of (?p\<lparr>pLog := log'\<rparr>) data"
      by (simp add: store_of_def log'_def)
    with r False show ?thesis by simp
  qed
  then obtain d2 where d2: "(if uTruncateFrom u \<noteq> 0 then store_truncate d1 (store_of ?p data) (uTruncateFrom u) else (d1, store_of ?p data, Inr ())) =
      (d2, store_of (?p\<lparr>pLog := log'\<rparr>) data, Inr ())" "healthy d2" by blast
  have lk: "log_ok (pSnap p) (log' @ uEntries u)" using assms(4) by (simp add: persist_plain [OF assms(2)] log'_def)
  obtain d3 st3 where d3: "append_loop d2 (store_of (?p\<lparr>pLog := log'\<rparr>) data) (uEntries u) = (d3, st3, Inr ())" "healthy d3" "\<not> rsClosed st3"
    using append_loop_healthy [OF d2(2) lk, of "store_of (?p\<lparr>pLog := log'\<rparr>) data"] by (auto simp: store_of_def)
  show ?thesis
    unfolding raftstore_Persist_def store_persist_def d1(1) persist_snapshot_def assms(2) option.case sbind_simps persist_log_def d2(1)
    using d2(2) d3 by (simp add: store_append_def os_fine)
qed


section \<open>Persisting a snapshot\<close>

lemma log_ok_kept:
  assumes "log_ok (pSnap p) (pLog p)" "sIndex (pSnap p) < sIndex s" "sIndex s + 1 \<noteq> 0"
  shows "log_ok s (kept_suffix p s)"
proof -
  define k where "k = unat (sIndex s) - unat (sIndex (pSnap p))"
  have k: "unat (sIndex s) = unat (sIndex (pSnap p)) + k" using assms(2) by (simp add: k_def word_less_nat_alt)
  have "Suc (unat (sIndex s)) = unat (1 + sIndex s)" using assms(3) by (metis add.commute unatSuc)
  then have "unat (sIndex s) + 1 < 2 ^ 64" using unat_u64_less by (metis Suc_eq_plus1)
  moreover have "contiguous (unat (sIndex s)) (drop k (pLog p))"
    using assms(1) by (auto simp: log_ok_def contiguous_def k)
  ultimately show ?thesis
    using assms(1) k by (auto simp: kept_suffix_def Let_def k_def [symmetric] log_ok_def contiguous_def dest: in_set_dropD)
qed

lemma installSnapshot_healthy:
  assumes "represents (dFiles d) p data" "healthy d" "sIndex (pSnap p) < sIndex s" "storable s (concat cs)" "sIndex s + 1 \<noteq> 0"
  defines "p' \<equiv> p\<lparr>pSnap := s, pLog := kept_suffix p s\<rparr>"
  shows "\<exists>d'. installSnapshot d (store_of p data) s (cs, Inr ()) = (d', store_of p' (concat cs), Inr ()) \<and>
    healthy d' \<and> represents (dFiles d') p' (concat cs)"
proof -
  have lok: "log_ok (pSnap p) (pLog p)" using assms(1) by (simp add: represents_def)
  define k where "k = unat (sIndex s - sIndex (pSnap p))"
  have k: "k = unat (sIndex s) - unat (sIndex (pSnap p))" "0 < k" using assms(3) by (simp_all add: k_def unat_sub_u64 word_le_nat_alt word_less_nat_alt)
  have "unat (sIndex (pSnap p) + word_of_nat (length (pLog p))) = unat (sIndex (pSnap p)) + length (pLog p)"
    using lok by (simp add: log_ok_def unat_word_ariths unat_of_nat)
  then have le: "sIndex s \<le> sIndex (pSnap p) + word_of_nat (length (pLog p)) \<longleftrightarrow> k \<le> length (pLog p)"
    using assms(3) by (auto simp: word_le_nat_alt word_less_nat_alt k(1))
  have suffix: "(if sIndex s \<le> sIndex (pSnap p) + word_of_nat (length (pLog p)) \<and> eTerm (pLog p ! (k - 1)) = sTerm s then drop k (pLog p) else [])
      = kept_suffix p s"
    using k(2) by (simp add: le kept_suffix_def Let_def k(1) [symmetric])
  have nz: "\<not> (sIndex s = 0 \<or> sTerm s = 0)" "\<not> sIndex s \<le> sIndex (pSnap p)" "length (concat cs) \<le> maxSnapshotData"
    using assms(3,4) by (auto simp: storable_def)
  define d1 where "d1 = d\<lparr>dFiles := (dFiles d)(snapshotFile \<mapsto> snapshot_bytes s (concat cs), snapTmp := None)\<rparr>"
  have d1: "storeSnapshotStream d s (cs, Inr ()) = (d1, Inr (word_of_nat (length (concat cs)), crc32 (concat cs)))" "healthy d1"
    using storeSnapshotStream_fine [OF assms(2) nz(3)] assms(2) by (simp_all add: d1_def)
  define d2 where "d2 = d1\<lparr>dFiles := (dFiles d1)(logFile \<mapsto> frames (kept_suffix p s), logTmp := None)\<rparr>"
  have d2: "rewriteLog d1 (store_of p data) (kept_suffix p s) =
      (d2, (store_of p data)\<lparr>rsEntries := kept_suffix p s, rsOffsets := entry_offsets 0 (kept_suffix p s), rsPos := length (frames (kept_suffix p s))\<rparr>, Inr ())"
    using rewriteLog_fine [OF d1(2), of "store_of p data"] by (simp add: d2_def store_of_def)
  have st: "rsEntries (store_of p data) = pLog p" "rsSnapshot (store_of p data) = snap_meta (pSnap p)" by (simp_all add: store_of_def)
  have "installSnapshot d (store_of p data) s (cs, Inr ()) = (d2, store_of p' (concat cs), Inr ())"
    unfolding installSnapshot_def if_not_P [OF nz(1)] st sIndex_snap_meta if_not_P [OF nz(2)] Let_def k_def [symmetric] suffix
      d1(1) d2 prod.case sum.case
    using nz(1) by (simp add: store_of_def p'_def snap_meta_def)
  moreover have "represents (dFiles d2) p' (concat cs)"
    using assms(1,4) nz(1) log_ok_kept [OF lok assms(3,5)]
    by (simp add: represents_def p'_def d2_def d1_def hard_file_def snapshot_file_def)
  ultimately show ?thesis using d1(2) by (simp add: d2_def)
qed


section \<open>The contract with the node\<close>

text \<open>What the store needs of an update besides what the node guarantees: sizes within its limits.\<close>

definition update_fits :: "durable \<Rightarrow> Update \<Rightarrow> bool" where
  "update_fits p u \<longleftrightarrow>
     (case uSnapshot u of
        None \<Rightarrow> cut_ok p u \<and> log_ok (pSnap p) (pLog (persist p u))
      | Some s \<Rightarrow> uTruncateFrom u = 0 \<and> uEntries u = [] \<and> sIndex (pSnap p) < sIndex s \<and> sIndex s + 1 \<noteq> 0 \<and> storable s (sData s))"

definition snapshot_data :: "bytes \<Rightarrow> Update \<Rightarrow> bytes" where
  "snapshot_data data u = (case uSnapshot u of None \<Rightarrow> data | Some s \<Rightarrow> sData s)"

lemma persist_hard_healthy:
  fixes u :: Update
  assumes "represents (dFiles d) p data" "healthy d"
  defines "p' \<equiv> p\<lparr>pHard := (case uHard u of None \<Rightarrow> pHard p | Some h \<Rightarrow> h)\<rparr>"
  shows "\<exists>d'. persist_hard d (store_of p data) u = (d', store_of p' data, Inr ()) \<and> healthy d' \<and> represents (dFiles d') p' data"
  using assms by (cases "uHard u")
    (auto simp: persist_hard_def p'_def storeHardState_fine store_of_def represents_def hard_file_def snapshot_file_def)

lemma concat_memory_source: "concat (fst (memory_source data)) = data" "snd (memory_source data) = Inr ()"
  by (simp_all add: memory_source_def)

lemma raftstore_Persist_refines:
  assumes "represents (dFiles d) p data" "healthy d" "update_fits p u"
  shows "\<exists>d'. raftstore_Persist d (store_of p data) u = (d', store_of (persist p u) (snapshot_data data u), Inr ()) \<and>
    healthy d' \<and> represents (dFiles d') (persist p u) (snapshot_data data u)"
proof (cases "uSnapshot u")
  case None
  then have c: "cut_ok p u" "log_ok (pSnap p) (pLog (persist p u))" using assms(3) by (simp_all add: update_fits_def)
  from persist_plain_healthy [OF assms(1) None c assms(2)] obtain d' st' where
    r: "raftstore_Persist d (store_of p data) u = (d', st', Inr ())" "healthy d'" by blast
  from persist_plain_files [OF assms(1) None c r(1)] r None show ?thesis by (auto simp: snapshot_data_def)
next
  case (Some s)
  then have u: "uTruncateFrom u = 0" "uEntries u = []" "sIndex (pSnap p) < sIndex s" "sIndex s + 1 \<noteq> 0" "storable s (sData s)"
    using assms(3) by (simp_all add: update_fits_def)
  let ?p = "p\<lparr>pHard := (case uHard u of None \<Rightarrow> pHard p | Some h \<Rightarrow> h)\<rparr>"
  obtain d1 where d1: "persist_hard d (store_of p data) u = (d1, store_of ?p data, Inr ())" "healthy d1" "represents (dFiles d1) ?p data"
    using persist_hard_healthy [OF assms(1,2)] by blast
  have src: "memory_source (sData s) = (fst (memory_source (sData s)), Inr ())" by (simp add: memory_source_def)
  have lt: "sIndex (pSnap ?p) < sIndex s" using u(3) by simp
  have "storable s (concat (fst (memory_source (sData s))))" using u(5) by (simp add: concat_memory_source)
  from installSnapshot_healthy [OF d1(3,2) lt this u(4)] obtain d2 where
    d2: "installSnapshot d1 (store_of ?p data) s (memory_source (sData s)) = (d2, store_of (?p\<lparr>pSnap := s, pLog := kept_suffix ?p s\<rparr>) (sData s), Inr ())"
      "healthy d2" "represents (dFiles d2) (?p\<lparr>pSnap := s, pLog := kept_suffix ?p s\<rparr>) (sData s)"
    unfolding concat_memory_source src [symmetric] by blast
  have eq: "persist p u = ?p\<lparr>pSnap := s, pLog := kept_suffix ?p s\<rparr>"
    using u by (simp add: persist_def snapshotted_def Some truncated_def kept_suffix_def Let_def)
  show ?thesis
    unfolding raftstore_Persist_def store_persist_def d1(1) sbind_simps persist_snapshot_def Some option.case d2(1)
    using d2(2,3) u(1,2) by (simp add: persist_log_def eq snapshot_data_def Some)
qed

lemma evolves_fits:
  assumes "wf_node n" "evolves n u n'" "\<forall>e \<in> set (nLog n'). length (eData e) \<le> maxEntryData" "\<forall>s. uSnapshot u = Some s \<longrightarrow> storable s (sData s)"
  shows "update_fits (durable_of n) u"
proof -
  have n: "snapN n \<le> unat (nCommit n)" using assms(1) by (simp add: wf_node_def node_ok_def)
  have n': "contiguous (snapN n') (nLog n')" "room n' 0" "durable_of n' = persist (durable_of n) u"
    using evolvesD(1,5) [OF assms(2)] by (simp_all add: wf_node_def node_ok_def)
  have pn': "pSnap (persist (durable_of n) u) = nSnap n'" "pLog (persist (durable_of n) u) = nLog n'"
    unfolding n'(3) [symmetric] by (simp_all add: durable_of_def)
  note cuts = evolvesD(12) [OF assms(2), unfolded cuts_ok_def]
  show ?thesis
  proof (cases "uSnapshot u")
    case None
    then have s: "nSnap n' = nSnap n" using pn'(1) by (simp add: persist_plain durable_of_def)
    have "entry_ok e" if "e \<in> set (nLog n')" for e
      using that n'(1) assms(3) by (auto simp: entry_ok_def contiguous_def in_set_conv_nth)
    then have "log_ok (nSnap n) (nLog n')" using n'(1,2) by (simp add: log_ok_def snapN_def lastN_def s)
    moreover have "cut_ok (durable_of n) u"
      using cuts n by (auto simp: cut_ok_def durable_of_def word_less_nat_alt snapN_def lastN_def)
    ultimately show ?thesis using None pn' by (simp add: update_fits_def) (simp add: durable_of_def)
  next
    case (Some s)
    then have c: "snapN n < unat (sIndex s)" "uTruncateFrom u = 0" "uEntries u = []" using cuts by auto
    then have "nSnap n' = s"
      using pn'(1) Some by (auto simp: persist_def snapshotted_def durable_of_def snapN_def word_le_nat_alt)
    then have "unat (sIndex s) < 2 ^ 64 - 1" using n'(2) by (simp add: lastN_def snapN_def)
    then have "unat (sIndex s + 1) = unat (sIndex s) + 1" by (rule unat_inc_u64)
    then have "sIndex s + 1 \<noteq> 0" by auto
    then show ?thesis
      using c Some assms(4) by (simp add: update_fits_def durable_of_def word_less_nat_alt snapN_def)
  qed
qed


section \<open>Properties\<close>

text \<open>
  C6: The store implements the durable state of the node. Persisting the update of any call of a
  well-formed node, on a disk that does not fail and within the size limits of the store, returns with
  files that represent the durable state of the node after the call; opening the directory again gives
  exactly that hard state, snapshot and log, and a node restarted from them has the durable state and
  the configuration of the node that was persisted.
\<close>

theorem store_implements_node:
  assumes "wf_node n" "call_ok n c" "raft_call n c = Inr (n', u)"
    and "represents (dFiles d) (durable_of n) data" "healthy d"
    and "\<forall>e \<in> set (nLog n'). length (eData e) \<le> maxEntryData" "\<forall>s. uSnapshot u = Some s \<longrightarrow> storable s (sData s)"
  shows "\<exists>d' d''. raftstore_Persist d (store_of (durable_of n) data) u =
      (d', store_of (durable_of n') (snapshot_data data u), Inr ()) \<and>
    represents (dFiles d') (durable_of n') (snapshot_data data u) \<and>
    raftstore_Open d' = (d'', Inr (store_of (durable_of n') (snapshot_data data u))) \<and>
    (\<exists>n''. restart n (nCommit n') (durable_of n') = Inr n'' \<and> durable_of n'' = durable_of n' \<and> nMembership n'' = nMembership n')"
proof -
  have e: "evolves n u n'" using raft_call_evolves [OF assms(1,2)] assms(3) by (auto simp: returns_ex)
  have n': "durable_of n' = persist (durable_of n) u" by (rule evolvesD(5) [OF e])
  obtain d' where d': "raftstore_Persist d (store_of (durable_of n) data) u = (d', store_of (durable_of n') (snapshot_data data u), Inr ())"
    "healthy d'" "represents (dFiles d') (durable_of n') (snapshot_data data u)"
    using raftstore_Persist_refines [OF assms(4,5) evolves_fits [OF assms(1) e assms(6,7)]] unfolding n' by blast
  obtain d'' where "raftstore_Open d' = (d'', Inr (store_of (durable_of n') (snapshot_data data u)))"
    using raftstore_Open_recovers [OF d'(2) represents_recovers [OF d'(3)]] by blast
  moreover have "wf_node n'" by (rule evolvesD(1) [OF e])
  then have "returns (restart n' (nCommit n') (durable_of n')) (\<lambda>n''. wf_node n'' \<and> durable_of n'' = durable_of n' \<and>
    nMembership n'' = nMembership n' \<and> nRole n'' = Follower \<and> nCommit n'' = nCommit n' \<and> nID n'' = nID n' \<and> nInitial n'' = nInitial n')"
    by (intro restart_returns) (simp_all add: wf_node_def node_ok_def)
  then obtain n'' where "restart n' (nCommit n') (durable_of n') = Inr n''" "durable_of n'' = durable_of n'" "nMembership n'' = nMembership n'"
    by (auto simp: returns_ex)
  moreover have "restart n a p = restart n' a p" for a p using evolvesD(2) [OF e] by (simp add: restart_def)
  ultimately show ?thesis using d' by metis
qed

text \<open>
  C9: A persist call without a snapshot is safe against failures and crashes at every system call and
  every byte of a write: the directory it leaves opens, with the old snapshot, and either the old hard
  state and log, or the new hard state with the old log or the truncated log and a prefix of the new
  entries. So no entry that the update does not truncate is lost, and the vote is never behind the log.
  A call that returns without an error has stored the whole update.
\<close>

theorem persist_crash_safe:
  assumes "represents (dFiles d) p data" "uSnapshot u = None" "update_fits p u"
    and "raftstore_Persist d (store_of p data) u = (d', st', r)"
  shows "\<exists>p' d''. raftstore_Open (reboot d') = (d'', Inr (store_of p' data)) \<and> between p u p' \<and>
    (r = Inr () \<longrightarrow> p' = persist p u \<and> st' = store_of p' data)"
proof -
  have c: "cut_ok p u" "log_ok (pSnap p) (pLog (persist p u))" using assms(2,3) by (simp_all add: update_fits_def)
  from persist_plain_files [OF assms(1,2) c assms(4)] obtain p' where p': "recovers (dFiles d') p' data" "between p u p'"
    "r = Inr () \<longrightarrow> p' = persist p u \<and> represents (dFiles d') p' data \<and> st' = store_of p' data"
    by blast
  have "recovers (dFiles (reboot d')) p' data" using p'(1) by simp
  from raftstore_Open_recovers [OF _ this] p' show ?thesis by auto
qed


text \<open>The files of the sample node, and its call that truncates and appends.\<close>

definition sample_disk :: disk where
  "sample_disk = \<lparr>dFiles = [hardStateFile \<mapsto> hard_encode (hardState sample_node), logFile \<mapsto> frames (nLog sample_node)], dFaults = [], dDead = False\<rparr>"

lemma sample_disk_represents: "represents (dFiles sample_disk) (durable_of sample_node) []" "healthy sample_disk"
  by (simp_all add: represents_def sample_disk_def durable_of_def hard_file_def snapshot_file_def log_ok_def healthy_def)
    (simp_all add: sample_node_def zero_snapshot_def contiguous_def All_less_Suc entry_ok_def maxEntryData_def MaxEntryBytes_def)

lemma sample_words: "containsVoter [1, 2, 3] 2" "\<not> (2 :: u64) \<le> 1"
  by code_simp+

lemma sample_call:
  "case raft_call sample_node (CallStep sample_append) of Inl _ \<Rightarrow> False | Inr (n', u) \<Rightarrow>
     uSnapshot u = None \<and> uTruncateFrom u = 2 \<and> list_all (\<lambda>e. length (eData e) \<le> 1) (nLog n') \<and> uEntries u = msgEntries sample_append"
  by (simp add: raft_Step_def sample_node_def sample_append_def message_def sample_cfg_def sample_voters_def sample_words
      isCommunicationPeer_def isVoter_def malformedAppend_def MaxEntryBytes_def replicationPeers_def peers_def unionVoters_def
      handleAppend_def follow_def becomeFollower_def resetElectionTimer_def lcg_def then_merge_def merge_def no_update_def
      append_entries_def lastIndex_def termAt_def zero_snapshot_def extend_log_def slice_def rebuildMembership_def
      base_membership_def decodeMembership_def hasMembershipPrefix_def membershipPrefix_def asc_def finish_append_def Let_def
      entriesBetween_def add_messages_def append_response_def)

theorem store_implements_node_witness:
  "\<exists>n' u d' d''. raft_call sample_node (CallStep sample_append) = Inr (n', u) \<and> uTruncateFrom u = 2 \<and> uEntries u = msgEntries sample_append \<and>
    raftstore_Persist sample_disk (store_of (durable_of sample_node) []) u = (d', store_of (durable_of n') (snapshot_data [] u), Inr ()) \<and>
    represents (dFiles d') (durable_of n') (snapshot_data [] u) \<and>
    raftstore_Open d' = (d'', Inr (store_of (durable_of n') (snapshot_data [] u))) \<and>
    (\<exists>n''. restart sample_node (nCommit n') (durable_of n') = Inr n'' \<and> durable_of n'' = durable_of n' \<and> nMembership n'' = nMembership n')"
proof -
  obtain n' u where r: "raft_call sample_node (CallStep sample_append) = Inr (n', u)" and
    s: "uSnapshot u = None" "uTruncateFrom u = 2" "list_all (\<lambda>e. length (eData e) \<le> 1) (nLog n')" "uEntries u = msgEntries sample_append"
    using sample_call by (auto split: sum.splits)
  have "\<forall>e \<in> set (nLog n'). length (eData e) \<le> maxEntryData" using s(3) by (auto simp: list_all_iff maxEntryData_def MaxEntryBytes_def)
  from store_implements_node [OF sample_wf(1) sample_append_ok r sample_disk_represents this] s r show ?thesis by auto
qed

text \<open>The update of that call, cut short in the middle of the frame of the new entry.\<close>

definition sample_update :: Update where
  "sample_update = no_update\<lparr>uTruncateFrom := 2, uEntries := msgEntries sample_append\<rparr>"

definition torn_disk :: disk where
  "torn_disk = sample_disk\<lparr>dFaults := [Fine, Fine, Crash 7]\<rparr>"

lemma sample_update_fits: "update_fits (durable_of sample_node) sample_update"
  by (simp add: update_fits_def sample_update_def durable_of_def sample_node_def sample_append_def message_def no_update_def cut_ok_def
      log_ok_def persist_def snapshotted_def truncated_def zero_snapshot_def contiguous_def All_less_Suc entry_ok_def maxEntryData_def MaxEntryBytes_def
      word_less_nat_alt)

theorem persist_crash_safe_witness:
  "\<exists>d' st' p' d''. raftstore_Persist torn_disk (store_of (durable_of sample_node) []) sample_update = (d', st', Inl (Err ''write'')) \<and>
    raftstore_Open (reboot d') = (d'', Inr (store_of p' [])) \<and> between (durable_of sample_node) sample_update p'"
proof -
  obtain d' st' r where r: "raftstore_Persist torn_disk (store_of (durable_of sample_node) []) sample_update = (d', st', r)" by (metis prod_cases3)
  have "represents (dFiles torn_disk) (durable_of sample_node) []" using sample_disk_represents(1) by (simp add: torn_disk_def)
  from persist_crash_safe [OF this _ sample_update_fits r]
  obtain p' d'' where "raftstore_Open (reboot d') = (d'', Inr (store_of p' []))" "between (durable_of sample_node) sample_update p'"
    by (auto simp: sample_update_def no_update_def)
  moreover have "r = Inl (Err ''write'')"
  proof -
    have "snd (snd (raftstore_Persist torn_disk (store_of (durable_of sample_node) []) sample_update)) = Inl (Err ''write'')"
      by (simp add: raftstore_Persist_def store_persist_def persist_hard_def persist_snapshot_def persist_log_def sample_update_def no_update_def
          store_truncate_def store_append_def store_of_def snap_meta_def zero_snapshot_def sample_append_def message_def sample_node_def
          durable_of_def torn_disk_def sample_disk_def os_truncate_def os_sync_def file_write_def os_write_def syscall_def Let_def sample_words
          maxEntryData_def MaxEntryBytes_def put_file_def)
    then show ?thesis by (simp add: r)
  qed
  ultimately show ?thesis using r by blast
qed


section \<open>The window between a snapshot and the log behind it\<close>

text \<open>A log whose first index is neither 1 nor the one behind the snapshot is read as empty.\<close>

lemma readLog_gap:
  assumes "entry_ok e" "eIndex e \<noteq> 1" "eIndex e \<noteq> s + 1"
  shows "readLog (encodeEntry e @ rest) s = ([], [], 0)"
proof -
  have hdr: "readFull (encodeEntry e @ rest) entryHeader = Full (frame_header e) (frame_body e @ rest)"
    using readFull_append [of "frame_header e" "frame_body e @ rest"] by (simp add: encodeEntry_split)
  show ?thesis
    unfolding readLog_def readLog_loop.simps [of s "encodeEntry e @ rest"] hdr read_outcome.case frame_header_fields(1,2)
      frame_length [OF assms(1)] Let_def
    using assms by simp
qed

lemma os_next:
  assumes "dFaults d = Fine # fs" "\<not> dDead d"
  shows "os_write d f pos buf = (put_file f (write_at (content d f) pos buf) (d\<lparr>dFaults := fs\<rparr>), Inr ())"
    "os_create d f = (put_file f [] (d\<lparr>dFaults := fs\<rparr>), Inr ())"
    "os_sync d f = (d\<lparr>dFaults := fs\<rparr>, Inr ())"
    "os_rename d a b = (d\<lparr>dFaults := fs, dFiles := ((dFiles d)(b := dFiles d a))(a := None)\<rparr>, Inr ())"
    "file_write d f pos buf = (put_file f (write_at (content d f) pos buf) (d\<lparr>dFaults := fs\<rparr>), pos + length buf, Inr ())"
    "os_open_dir d = (d\<lparr>dFaults := fs\<rparr>, Inr ())"
  using assms
  by (simp_all add: os_write_def os_create_def os_sync_def os_rename_def file_write_def os_open_dir_def syscall_def content_def)

lemma storeSnapshotStream_then_fail:
  assumes "healthy d" "length c \<le> maxSnapshotData"
  shows "\<exists>d'. storeSnapshotStream (d\<lparr>dFaults := replicate 11 Fine @ [Fail 0]\<rparr>) s ([c], Inr ()) = (d', Inr (word_of_nat (length c), crc32 c)) \<and>
    dFaults d' = [Fail 0] \<and> \<not> dDead d' \<and> dFiles d' = (dFiles d)(snapshotFile \<mapsto> snapshot_bytes s c, snapTmp := None)"
proof -
  have faults: "replicate 11 Fine @ [Fail 0] = [Fine, Fine, Fine, Fine, Fine, Fine, Fine, Fine, Fine, Fine, Fine, Fail 0]"
    by (simp add: eval_nat_numeral)
  define f0 where "f0 = [Fine, Fine, Fine, Fine, Fine, Fine, Fine, Fine, Fine, Fine, Fine, Fail 0]"
  let ?d = "d\<lparr>dFaults := f0\<rparr>"
  define r where "r = storeSnapshotStream ?d s ([c], Inr ())"
  have ok: "snd r = Inr (word_of_nat (length c), crc32 c) \<and> dFaults (fst r) = [Fail 0] \<and> \<not> dDead (fst r)"
    using assms unfolding r_def
    by (simp add: storeSnapshotStream_def Let_def or_remove_def syncDir_def os_next f0_def healthy_def)
  have "storeSnapshotStream ?d s ([c], Inr ()) = (fst r, Inr (word_of_nat (length c), crc32 c))"
    using ok by (simp add: r_def prod_eq_iff)
  moreover have "dFiles (fst r) = dFiles (fst (storeSnapshotStream d s ([c], Inr ())))"
    using assms unfolding r_def
    by (simp add: storeSnapshotStream_def Let_def or_remove_def syncDir_def os_next os_fine f0_def healthy_def content_def)
  ultimately show ?thesis
    using ok storeSnapshotStream_fine [of d "[c]" s] assms by (simp add: faults f0_def [symmetric])
qed


text \<open>
  C30: The one window in which persisted entries are lost. Once a node has a snapshot, a new snapshot
  that is published while the log behind it cannot be rewritten (here creating the temporary log fails)
  makes the next start read the old log as empty: its first index is neither 1 nor the one behind the
  new snapshot, so every entry behind the snapshot is dropped and the file is truncated to nothing.
\<close>

theorem snapshot_window_drops_log:
  assumes "represents (dFiles d) p data" "healthy d" "sIndex (pSnap p) \<noteq> 0" "sIndex (pSnap p) < sIndex s" "storable s c"
    and "pLog p \<noteq> []" "uSnapshot u = Some s" "uHard u = None"
  shows "\<exists>d' d'' st''. raftstore_PersistSnapshot (d\<lparr>dFaults := replicate 11 Fine @ [Fail 0]\<rparr>) (store_of p data) u ([c], Inr ()) =
      (d', store_of p data, Inl (Err ''create'')) \<and>
    raftstore_Open (reboot d') = (d'', Inr st'') \<and> rsSnapshot st'' = s\<lparr>sData := []\<rparr> \<and> rsEntries st'' = [] \<and> dFiles d'' logFile = Some []"
proof -
  obtain e es where log: "pLog p = e # es" using assms(6) by (cases "pLog p") auto
  have lok: "log_ok (pSnap p) (pLog p)" "hard_file (dFiles d) (pHard p)" "dFiles d logFile = Some (frames (pLog p))"
    using assms(1) by (simp_all add: represents_def)
  have e: "entry_ok e" "unat (eIndex e) = unat (sIndex (pSnap p)) + 1" using lok(1) by (simp_all add: log log_ok_def contiguous_Cons)
  have lt: "unat (sIndex (pSnap p)) < unat (sIndex s)" using assms(4) by (simp add: word_less_nat_alt)
  have "eIndex e \<noteq> 1" using e(2) assms(3) by (auto simp: unat_eq_0)
  moreover have "eIndex e \<noteq> sIndex s + 1"
  proof
    assume "eIndex e = sIndex s + 1"
    then have "sIndex s + 1 \<noteq> 0" "unat (sIndex s + 1) = unat (sIndex (pSnap p)) + 1" using e(2) by auto
    then show False using lt unatSuc [of "sIndex s"] by (simp add: add.commute)
  qed
  ultimately have gap: "readLog (frames (pLog p)) (sIndex s) = ([], [], 0)" using readLog_gap [OF e(1)] by (simp add: log)
  have c: "length c \<le> maxSnapshotData" "sIndex s \<noteq> 0" "sTerm s \<noteq> 0" "\<not> sIndex s \<le> sIndex (pSnap p)"
    using assms(4,5) by (auto simp: storable_def)
  obtain d' where d': "storeSnapshotStream (d\<lparr>dFaults := replicate 11 Fine @ [Fail 0]\<rparr>) s ([c], Inr ()) = (d', Inr (word_of_nat (length c), crc32 c))"
    "dFaults d' = [Fail 0]" "\<not> dDead d'" "dFiles d' = (dFiles d)(snapshotFile \<mapsto> snapshot_bytes s c, snapTmp := None)"
    using storeSnapshotStream_then_fail [OF assms(2) c(1)] by blast
  have rw: "rewriteLog d' st x = (d'\<lparr>dFaults := []\<rparr>, st, Inl (Err ''create''))" for st x
    using d'(2,3) by (simp add: rewriteLog_def os_create_def syscall_def)
  define d1 where "d1 = d'\<lparr>dFaults := []\<rparr>"
  have st: "rsSnapshot (store_of p data) = snap_meta (pSnap p)" by (simp add: store_of_def)
  have "installSnapshot (d\<lparr>dFaults := replicate 11 Fine @ [Fail 0]\<rparr>) (store_of p data) s ([c], Inr ()) = (d1, store_of p data, Inl (Err ''create''))"
    using c unfolding installSnapshot_def st sIndex_snap_meta Let_def d'(1) by (simp add: rw d1_def)
  then have run: "raftstore_PersistSnapshot (d\<lparr>dFaults := replicate 11 Fine @ [Fail 0]\<rparr>) (store_of p data) u ([c], Inr ()) = (d1, store_of p data, Inl (Err ''create''))"
    unfolding raftstore_PersistSnapshot_def store_persist_def persist_hard_def persist_snapshot_def assms(7,8) by simp
  have d1: "dFiles d1 = (dFiles d)(snapshotFile \<mapsto> snapshot_bytes s c, snapTmp := None)" by (simp add: d1_def d'(4))
  then have h: "loadHardState (reboot d1) = Inr (pHard p)" "inspectSnapshot (reboot d1) = Inr (s\<lparr>sData := []\<rparr>, word_of_nat (length c), crc32 c)"
    "dFiles (reboot d1) logFile = Some (frames (pLog p))"
    using loadHardState_file [of "reboot d1" "pHard p"] inspect_snapshot_bytes [of "reboot d1" s c] lok(2,3) assms(5)
    by (simp_all add: hard_file_def)
  have h1: "healthy (reboot d1)" by simp
  have op: "os_openFile (reboot d1) logFile = (reboot d1, Inr ())" using h(3) h1 by (simp add: os_fine)
  have ct: "content (reboot d1) logFile = frames (pLog p)" using h(3) by (simp add: content_def)
  have "raftstore_Open (reboot d1) = (put_file logFile [] (reboot d1), Inr \<lparr>rsEntries = [], rsOffsets = [], rsHard = pHard p,
      rsSnapshot = s\<lparr>sData := []\<rparr>, rsSnapshotSize = word_of_nat (length c), rsSnapshotChecksum = crc32 c, rsPos = 0, rsClosed = False\<rparr>)"
    using h1 by (simp add: raftstore_Open_def os_mkdirAll_def h op ct gap os_fine)
  with run show ?thesis by auto
qed

definition compacted_disk :: disk where
  "compacted_disk = \<lparr>dFiles = [snapshotFile \<mapsto> snapshot_bytes \<lparr>sIndex = 1, sTerm = 1, sData = [], sMembership = sample_voters\<rparr> [5],
     logFile \<mapsto> frames [\<lparr>eIndex = 2, eTerm = 1, eData = [7]\<rparr>, \<lparr>eIndex = 3, eTerm = 1, eData = [8]\<rparr>]], dFaults = [], dDead = False\<rparr>"

definition compacted_durable :: durable where
  "compacted_durable = \<lparr>pHard = zero_hard, pSnap = \<lparr>sIndex = 1, sTerm = 1, sData = [], sMembership = sample_voters\<rparr>,
     pLog = [\<lparr>eIndex = 2, eTerm = 1, eData = [7]\<rparr>, \<lparr>eIndex = 3, eTerm = 1, eData = [8]\<rparr>]\<rparr>"

definition newer_snapshot :: Snapshot where
  "newer_snapshot = \<lparr>sIndex = 2, sTerm = 1, sData = [], sMembership = sample_voters\<rparr>"

lemma sample_voters_json: "length (json_Marshal (membership_json sample_voters)) \<le> 2 ^ 20"
proof -
  have "length (json_Marshal (membership_json sample_voters)) = 18" by code_simp
  then show ?thesis by simp
qed

lemma compacted_represents: "represents (dFiles compacted_disk) compacted_durable [5]" "healthy compacted_disk"
  "kept_suffix compacted_durable newer_snapshot = [\<lparr>eIndex = 3, eTerm = 1, eData = [8]\<rparr>]"
  using sample_voters_json
  by (simp_all add: represents_def compacted_disk_def compacted_durable_def hard_file_def snapshot_file_def storable_def newer_snapshot_def
      kept_suffix_def log_ok_def contiguous_def All_less_Suc entry_ok_def maxEntryData_def MaxEntryBytes_def maxSnapshotData_def healthy_def)

theorem snapshot_window_drops_log_witness:
  "kept_suffix compacted_durable newer_snapshot = [\<lparr>eIndex = 3, eTerm = 1, eData = [8]\<rparr>] \<and>
   (\<exists>d' d'' st''. raftstore_PersistSnapshot (compacted_disk\<lparr>dFaults := replicate 11 Fine @ [Fail 0]\<rparr>) (store_of compacted_durable [5])
       (no_update\<lparr>uSnapshot := Some newer_snapshot\<rparr>) ([[6]], Inr ()) = (d', store_of compacted_durable [5], Inl (Err ''create'')) \<and>
     raftstore_Open (reboot d') = (d'', Inr st'') \<and> rsSnapshot st'' = newer_snapshot\<lparr>sData := []\<rparr> \<and> rsEntries st'' = [] \<and>
     dFiles d'' logFile = Some [])"
proof -
  have "sIndex (pSnap compacted_durable) \<noteq> 0" "sIndex (pSnap compacted_durable) < sIndex newer_snapshot" "storable newer_snapshot [6]"
    "pLog compacted_durable \<noteq> []"
    using sample_voters_json by (simp_all add: compacted_durable_def newer_snapshot_def storable_def maxSnapshotData_def word_less_nat_alt)
  then show ?thesis
    using compacted_represents snapshot_window_drops_log [of compacted_disk compacted_durable "[5]" newer_snapshot "[6]" "no_update\<lparr>uSnapshot := Some newer_snapshot\<rparr>"]
    by (simp add: no_update_def)
qed


section \<open>Reading a snapshot back\<close>

lemma OpenSnapshot_represents:
  assumes "represents (dFiles d) p data" "sIndex (pSnap p) \<noteq> 0"
  shows "OpenSnapshot d (store_of p data) (sIndex (pSnap p)) = Inr (data, word_of_nat (length data), crc32 data)"
proof -
  have f: "dFiles d snapshotFile = Some (snapshot_bytes (pSnap p) data)" "length data \<le> maxSnapshotData"
    using assms by (simp_all add: represents_def snapshot_file_def storable_def)
  have "unat (word_of_nat (length data) :: u64) = length data" using f(2) by (simp add: maxSnapshotData_def unat_of_nat_u64)
  moreover have "take (length data) (drop snapshotHeader (snapshot_bytes (pSnap p) data)) = data"
    by (simp add: snapshot_bytes_def snapshot_body_def Let_def)
  ultimately show ?thesis using assms(2) f(1) by (simp add: OpenSnapshot_def store_of_def)
qed

text \<open>
  C22: A snapshot that is streamed into the store is read back byte for byte, with its size and
  checksum, before and after a restart; the log behind it is kept exactly when the store's log has the
  snapshot's last entry with the snapshot's term.
\<close>

theorem snapshot_stream_roundtrip:
  assumes "represents (dFiles d) p data" "healthy d" "uSnapshot u = Some s" "sIndex (pSnap p) < sIndex s" "sIndex s + 1 \<noteq> 0"
    and "storable s (concat cs)" "uTruncateFrom u = 0" "uEntries u = []"
  shows "\<exists>d' st' d'' st''. raftstore_PersistSnapshot d (store_of p data) u (cs, Inr ()) = (d', st', Inr ()) \<and>
    LoadSnapshot d' st' = s\<lparr>sData := concat cs\<rparr> \<and>
    OpenSnapshot d' st' (sIndex s) = Inr (concat cs, word_of_nat (length (concat cs)), crc32 (concat cs)) \<and>
    rsEntries st' = kept_suffix p s \<and>
    raftstore_Open d' = (d'', Inr st'') \<and> LoadSnapshot d'' st'' = s\<lparr>sData := concat cs\<rparr> \<and> raftstore_Load st'' = raftstore_Load st'"
proof -
  let ?p = "p\<lparr>pHard := (case uHard u of None \<Rightarrow> pHard p | Some h \<Rightarrow> h)\<rparr>"
  obtain d1 where d1: "persist_hard d (store_of p data) u = (d1, store_of ?p data, Inr ())" "healthy d1" "represents (dFiles d1) ?p data"
    using persist_hard_healthy [OF assms(1,2)] by blast
  have lt: "sIndex (pSnap ?p) < sIndex s" using assms(4) by simp
  define p' where "p' = ?p\<lparr>pSnap := s, pLog := kept_suffix ?p s\<rparr>"
  obtain d2 where d2: "installSnapshot d1 (store_of ?p data) s (cs, Inr ()) = (d2, store_of p' (concat cs), Inr ())"
    "healthy d2" "represents (dFiles d2) p' (concat cs)"
    using installSnapshot_healthy [OF d1(3,2) lt assms(6,5)] unfolding p'_def by blast
  have run: "raftstore_PersistSnapshot d (store_of p data) u (cs, Inr ()) = (d2, store_of p' (concat cs), Inr ())"
    unfolding raftstore_PersistSnapshot_def store_persist_def d1(1) sbind_simps persist_snapshot_def assms(3) option.case d2(1)
    by (simp add: persist_log_def assms(7,8))
  have idx: "sIndex (pSnap p') = sIndex s" "sIndex s \<noteq> 0" using assms(6) by (simp_all add: p'_def storable_def)
  obtain d3 where d3: "raftstore_Open d2 = (d3, Inr (store_of p' (concat cs)))" "represents (dFiles d3) p' (concat cs)"
    using raftstore_Open_recovers [OF d2(2) represents_recovers [OF d2(3)]] by blast
  have load: "LoadSnapshot d' (store_of p' (concat cs)) = s\<lparr>sData := concat cs\<rparr>" if "represents (dFiles d') p' (concat cs)" for d'
    using OpenSnapshot_represents [OF that] idx
    by (simp add: LoadSnapshot_def Let_def SnapshotMetadata_def) (simp add: store_of_def snap_meta_def p'_def)
  have "rsEntries (store_of p' (concat cs)) = kept_suffix p s" by (simp add: store_of_def p'_def kept_suffix_def Let_def)
  then show ?thesis using run load [OF d2(3)] load [OF d3(2)] OpenSnapshot_represents [OF d2(3)] idx d3(1) by auto
qed

theorem snapshot_stream_roundtrip_witness:
  "\<exists>d' st' d'' st''. raftstore_PersistSnapshot compacted_disk (store_of compacted_durable [5]) (no_update\<lparr>uSnapshot := Some newer_snapshot\<rparr>) ([[6, 7], [8]], Inr ()) =
      (d', st', Inr ()) \<and>
    LoadSnapshot d' st' = newer_snapshot\<lparr>sData := [6, 7, 8]\<rparr> \<and>
    OpenSnapshot d' st' 2 = Inr ([6, 7, 8], 3, crc32 [6, 7, 8]) \<and> rsEntries st' = [\<lparr>eIndex = 3, eTerm = 1, eData = [8]\<rparr>] \<and>
    raftstore_Open d' = (d'', Inr st'') \<and> LoadSnapshot d'' st'' = newer_snapshot\<lparr>sData := [6, 7, 8]\<rparr> \<and> raftstore_Load st'' = raftstore_Load st'"
proof -
  have "sIndex (pSnap compacted_durable) < sIndex newer_snapshot" "sIndex newer_snapshot + 1 \<noteq> 0" "storable newer_snapshot (concat [[6, 7], [8]])"
    "sIndex newer_snapshot = 2"
    using sample_voters_json by (simp_all add: compacted_durable_def newer_snapshot_def storable_def maxSnapshotData_def word_less_nat_alt)
  then show ?thesis
    using compacted_represents snapshot_stream_roundtrip [of compacted_disk compacted_durable "[5]" "no_update\<lparr>uSnapshot := Some newer_snapshot\<rparr>" newer_snapshot "[[6, 7], [8]]"]
    by (simp add: no_update_def)
qed

end
