(* ===== verification/Runtime.thy ===== *)
theory Runtime
  imports Raftstore
begin

text \<open>
  Package \<open>internal/raftnode\<close>: the event loop that owns a consensus node. It persists what the node
  reports, restores snapshots, hands messages to the sender, applies committed entries in order, takes
  snapshots, and answers the requests that wait for a commit, a quorum of read acknowledgements or a
  configuration. The stable store and the state machine are the two interfaces of the package, records
  of their operations over a state of any type.

  A request carries the number of the channel on which it is answered; \<open>rtReplies\<close> lists the answers in
  the order in which they are sent. A channel has room for one answer. The queue holds the events that
  the loop finds when it reads it: an event that arrives while the loop drains the queue has the same
  effect as one that arrived before. The outgoing channel is a list, the sender takes messages from it.
  Timers and contexts choose when a tick, a cancellation or a read of the queue happens and are arguments of
  the steps. A panic ends the process without any answer (\<open>rtCrashed\<close>).
\<close>

section \<open>Interfaces\<close>

record 's StableStore =
  ssPersist :: "'s \<Rightarrow> Update \<Rightarrow> 's \<times> unit result"
  ssPersistSnapshot :: "'s \<Rightarrow> Update \<Rightarrow> snapshot_source \<Rightarrow> 's \<times> unit result"
  ssOpenSnapshot :: "'s \<Rightarrow> u64 \<Rightarrow> (bytes \<times> u64 \<times> u32) result"
  ssClose :: "'s \<Rightarrow> 's \<times> unit result"

text \<open>\<open>WriteSnapshot\<close> gives the chunks it writes and what it returns when every write succeeds.\<close>

record 'm StateMachine =
  smApply :: "'m \<Rightarrow> u64 \<Rightarrow> bytes \<Rightarrow> 'm \<times> unit result"
  smAppliedIndex :: "'m \<Rightarrow> u64"
  smWriteSnapshot :: "'m \<Rightarrow> bytes list \<times> u64 result"
  smRestoreSnapshot :: "'m \<Rightarrow> u64 \<Rightarrow> u64 \<Rightarrow> bytes \<Rightarrow> 'm \<times> unit result"
  smClose :: "'m \<Rightarrow> 'm \<times> unit result"

section \<open>State\<close>

record RtConfig =
  rcTickInterval :: int
  rcQueueSize :: int
  rcSnapshotThreshold :: u64

definition maxBatchEntries :: nat where
  "maxBatchEntries = 256"

definition maxBatchBytes :: nat where
  "maxBatchBytes = 2 ^ 20"

definition ErrStopped :: failure where
  "ErrStopped = Err ''raft node is stopped''"

record proposalResult =
  prIndex :: u64
  prTerm :: u64
  prErr :: "failure option"

record readResult =
  rrIndex :: u64
  rrErr :: "failure option"

datatype reply =
  ProposalReply proposalResult
| MessageReply "unit result"
| StatusReply Status
| ReadReply readResult
| StopReply "unit result"

datatype event =
  ProposalEvent bytes nat
| MembershipEvent "u64 list" nat
| MessageEvent Message "snapshot_source option" nat
| StatusEvent nat
| ReadEvent nat
| StopEvent nat

record pendingMembership =
  pmVoters :: "u64 list"
  pmResult :: nat

record pendingRead =
  rdResults :: "nat list"
  rdAcks :: "u64 list"

record ('s, 'm) Runtime =
  rtNode :: Node
  rtStore :: 's
  rtMachine :: 'm
  rtEvents :: "event list"
  rtCap :: nat
  rtOutgoing :: "Message list"
  rtDone :: bool
  rtCrashed :: bool
  rtSnapshotThreshold :: u64
  rtMembership :: "pendingMembership option"
  rtPending :: "(u64 \<times> nat) list"
  rtReads :: "(u64 \<times> pendingRead) list"
  rtNextRead :: u64
  rtDeferred :: "event list"
  rtReplies :: "(nat \<times> reply) list"
  rtDropped :: "string list"
  rtClosing :: bool

definition rt_Start :: "RtConfig \<Rightarrow> Node \<Rightarrow> 's \<Rightarrow> 'm \<Rightarrow> ('s, 'm) Runtime result" where
  "rt_Start cfg node st machine =
     (if rcTickInterval cfg \<le> 0 then Inl (Err ''raft runtime tick interval must be positive'')
      else Inr \<lparr>rtNode = node, rtStore = st, rtMachine = machine, rtEvents = [],
                rtCap = (if rcQueueSize cfg \<le> 0 then 256 else nat (rcQueueSize cfg)), rtOutgoing = [],
                rtDone = False, rtCrashed = False, rtSnapshotThreshold = rcSnapshotThreshold cfg, rtMembership = None,
                rtPending = [], rtReads = [], rtNextRead = 0, rtDeferred = [], rtReplies = [], rtDropped = [], rtClosing = False\<rparr>)"

section \<open>Answers and maps\<close>

definition reply_to :: "nat \<Rightarrow> reply \<Rightarrow> ('s, 'm) Runtime \<Rightarrow> ('s, 'm) Runtime" where
  "reply_to c x r = r\<lparr>rtReplies := rtReplies r @ [(c, x)]\<rparr>"

definition reply_all :: "nat list \<Rightarrow> reply \<Rightarrow> ('s, 'm) Runtime \<Rightarrow> ('s, 'm) Runtime" where
  "reply_all cs x r = r\<lparr>rtReplies := rtReplies r @ map (\<lambda>c. (c, x)) cs\<rparr>"

text \<open>Maps from indices, written as lists of pairs with one pair per key.\<close>

definition map_delete :: "'k \<Rightarrow> ('k \<times> 'v) list \<Rightarrow> ('k \<times> 'v) list" where
  "map_delete k m = filter (\<lambda>p. fst p \<noteq> k) m"

definition map_set :: "'k \<Rightarrow> 'v \<Rightarrow> ('k \<times> 'v) list \<Rightarrow> ('k \<times> 'v) list" where
  "map_set k v m = map_delete k m @ [(k, v)]"

definition committed_result :: "Entry \<Rightarrow> reply" where
  "committed_result e = ProposalReply \<lparr>prIndex = eIndex e, prTerm = eTerm e, prErr = None\<rparr>"

definition failed_proposal :: "u64 \<Rightarrow> failure \<Rightarrow> reply" where
  "failed_proposal index e = ProposalReply \<lparr>prIndex = index, prTerm = 0, prErr = Some e\<rparr>"

definition failed_read :: "failure \<Rightarrow> reply" where
  "failed_read e = ReadReply \<lparr>rrIndex = 0, rrErr = Some e\<rparr>"

definition read_index :: "u64 \<Rightarrow> reply" where
  "read_index index = ReadReply \<lparr>rrIndex = index, rrErr = None\<rparr>"

text \<open>The waiter at the index of a committed entry, if there is one.\<close>

definition answer_pending :: "Entry \<Rightarrow> ('s, 'm) Runtime \<Rightarrow> ('s, 'm) Runtime" where
  "answer_pending e r =
     (case map_of (rtPending r) (eIndex e) of
        None \<Rightarrow> r
      | Some c \<Rightarrow> (reply_to c (committed_result e) r)\<lparr>rtPending := map_delete (eIndex e) (rtPending r)\<rparr>)"

section \<open>Processing an update\<close>

type_synonym ('s, 'm) rt_call = "('s, 'm) Runtime \<times> unit result"

definition rt_bind :: "('s, 'm) rt_call \<Rightarrow> (('s, 'm) Runtime \<Rightarrow> ('s, 'm) rt_call) \<Rightarrow> ('s, 'm) rt_call" where
  "rt_bind c f = (case c of (r, Inl e) \<Rightarrow> (r, Inl e) | (r, Inr _) \<Rightarrow> f r)"

lemma rt_bind_simps [simp]: "rt_bind (r, Inl e) f = (r, Inl e)" "rt_bind (r, Inr x) f = f r"
  by (simp_all add: rt_bind_def)

text \<open>\<open>fmt.Errorf\<close> with \<open>%w\<close>; a panic is not an error.\<close>

definition wrap :: "string \<Rightarrow> failure \<Rightarrow> failure" where
  "wrap what e = (case e of Panic \<Rightarrow> Panic | Err m \<Rightarrow> Err (what @ '': '' @ m))"

definition logDroppedAppend :: "string \<Rightarrow> ('s, 'm) Runtime \<Rightarrow> ('s, 'm) Runtime" where
  "logDroppedAppend reason r = (if reason \<noteq> '''' then r\<lparr>rtDropped := rtDropped r @ [reason]\<rparr> else r)"

definition rt_persist :: "'s StableStore \<Rightarrow> ('s, 'm) Runtime \<Rightarrow> Update \<Rightarrow> snapshot_source option \<Rightarrow> ('s, 'm) rt_call" where
  "rt_persist S r u data =
     (case (if uSnapshot u \<noteq> None \<and> data \<noteq> None then ssPersistSnapshot S (rtStore r) u (the data) else ssPersist S (rtStore r) u) of
        (st, Inl e) \<Rightarrow> (r\<lparr>rtStore := st\<rparr>, Inl (wrap ''persist raft update'' e))
      | (st, Inr _) \<Rightarrow> (logDroppedAppend (uDropped u) (r\<lparr>rtStore := st\<rparr>), Inr ()))"

definition rt_restore :: "'s StableStore \<Rightarrow> 'm StateMachine \<Rightarrow> ('s, 'm) Runtime \<Rightarrow> Update \<Rightarrow> ('s, 'm) rt_call" where
  "rt_restore S M r u =
     (case uSnapshot u of
        None \<Rightarrow> (r, Inr ())
      | Some s \<Rightarrow>
          if \<not> smAppliedIndex M (rtMachine r) < sIndex s then (r, Inr ())
          else case ssOpenSnapshot S (rtStore r) (sIndex s) of
                 Inl e \<Rightarrow> (r, Inl (wrap ''open state snapshot'' e))
               | Inr (data, sz, _) \<Rightarrow>
                   (case smRestoreSnapshot M (rtMachine r) (sIndex s) sz data of
                      (m, Inl e) \<Rightarrow> (r\<lparr>rtMachine := m\<rparr>, Inl (wrap ''restore state snapshot'' e))
                    | (m, Inr _) \<Rightarrow> (r\<lparr>rtMachine := m\<rparr>, Inr ())))"

fun apply_committed :: "'m StateMachine \<Rightarrow> ('s, 'm) Runtime \<Rightarrow> Entry list \<Rightarrow> ('s, 'm) rt_call" where
  "apply_committed M r [] = (r, Inr ())"
| "apply_committed M r (e # es) =
     (let applied = smAppliedIndex M (rtMachine r)
      in if eIndex e \<le> applied then apply_committed M (answer_pending e r) es
         else if eIndex e \<noteq> applied + 1 then (r, Inl (Err ''commit apply gap''))
         else case IsMembershipEntry (eData e) of
                (_, Some x) \<Rightarrow> (r, Inl (wrap ''decode committed entry'' x))
              | (membership, None) \<Rightarrow>
                  (case smApply M (rtMachine r) (eIndex e) (if membership then [] else eData e) of
                     (m, Inl x) \<Rightarrow> (r\<lparr>rtMachine := m\<rparr>, Inl (wrap ''apply committed entry'' x))
                   | (m, Inr _) \<Rightarrow> apply_committed M (answer_pending e (r\<lparr>rtMachine := m\<rparr>)) es))"

definition snapshot_writer :: "'m StateMachine \<Rightarrow> 'm \<Rightarrow> u64 \<Rightarrow> snapshot_source" where
  "snapshot_writer M m index =
     (case smWriteSnapshot M m of
        (chunks, res) \<Rightarrow> (chunks, rbind res (\<lambda>written.
          if written \<noteq> index then Inl (Err ''state snapshot index changed'') else Inr ())))"

definition take_snapshot :: "'s StableStore \<Rightarrow> 'm StateMachine \<Rightarrow> ('s, 'm) Runtime \<Rightarrow> ('s, 'm) rt_call" where
  "take_snapshot S M r =
     (if rtSnapshotThreshold r = 0 then (r, Inr ())
      else
        let snapshotIndex = stSnapshotIndex (raft_Status (rtNode r)); applied = smAppliedIndex M (rtMachine r)
        in if \<not> (applied > snapshotIndex \<and> applied - snapshotIndex \<ge> rtSnapshotThreshold r) then (r, Inr ())
           else case raft_CreateSnapshot (rtNode r) applied [] of
                  Inl e \<Rightarrow> (r, Inl e)
                | Inr (n, Inl e) \<Rightarrow> (r\<lparr>rtNode := n\<rparr>, Inl (wrap ''compact raft log'' e))
                | Inr (n, Inr u) \<Rightarrow>
                    (case ssPersistSnapshot S (rtStore r) u (snapshot_writer M (rtMachine r) applied) of
                       (st, Inl e) \<Rightarrow> (r\<lparr>rtNode := n, rtStore := st\<rparr>, Inl (wrap ''persist raft snapshot'' e))
                     | (st, Inr _) \<Rightarrow> (r\<lparr>rtNode := n, rtStore := st\<rparr>, Inr ())))"

definition sameVoters :: "u64 list \<Rightarrow> u64 list \<Rightarrow> bool" where
  "sameVoters a b = (if length a \<noteq> length b then False else sort a = sort b)"

definition resolveMembership :: "'m StateMachine \<Rightarrow> ('s, 'm) Runtime \<Rightarrow> ('s, 'm) Runtime" where
  "resolveMembership M r =
     (case rtMembership r of
        None \<Rightarrow> r
      | Some p \<Rightarrow>
          let current = stMembership (raft_Status (rtNode r))
          in if JointVoters current \<noteq> [] \<or> mbIndex current > smAppliedIndex M (rtMachine r) \<or> \<not> sameVoters (Voters current) (pmVoters p)
             then r
             else (reply_to (pmResult p) (ProposalReply \<lparr>prIndex = mbIndex current, prTerm = 0, prErr = None\<rparr>) r)\<lparr>rtMembership := None\<rparr>)"

text \<open>Answering everything that waits with one error.\<close>

definition fail_membership :: "failure \<Rightarrow> ('s, 'm) Runtime \<Rightarrow> ('s, 'm) Runtime" where
  "fail_membership e r =
     (case rtMembership r of None \<Rightarrow> r | Some p \<Rightarrow> (reply_to (pmResult p) (failed_proposal 0 e) r)\<lparr>rtMembership := None\<rparr>)"

definition fail_pending :: "failure \<Rightarrow> ('s, 'm) Runtime \<Rightarrow> ('s, 'm) Runtime" where
  "fail_pending e r = r\<lparr>rtReplies := rtReplies r @ map (\<lambda>(i, c). (c, failed_proposal i e)) (rtPending r), rtPending := []\<rparr>"

definition fail_reads :: "failure \<Rightarrow> ('s, 'm) Runtime \<Rightarrow> ('s, 'm) Runtime" where
  "fail_reads e r =
     r\<lparr>rtReplies := rtReplies r @ concat (map (\<lambda>(_, read). map (\<lambda>c. (c, failed_read e)) (rdResults read)) (rtReads r)), rtReads := []\<rparr>"

definition fail_waiting :: "failure \<Rightarrow> ('s, 'm) Runtime \<Rightarrow> ('s, 'm) Runtime" where
  "fail_waiting e r = fail_reads e (fail_pending e (fail_membership e r))"

definition processUpdateWithSnapshot ::
  "'s StableStore \<Rightarrow> 'm StateMachine \<Rightarrow> ('s, 'm) Runtime \<Rightarrow> Update \<Rightarrow> snapshot_source option \<Rightarrow> ('s, 'm) rt_call" where
  "processUpdateWithSnapshot S M r u data =
     rt_bind (rt_persist S r u data) (\<lambda>r.
     rt_bind (rt_restore S M r u) (\<lambda>r.
     rt_bind (apply_committed M (r\<lparr>rtOutgoing := rtOutgoing r @ uMessages u\<rparr>) (uCommitted u)) (\<lambda>r.
     rt_bind (take_snapshot S M r) (\<lambda>r.
       let r = resolveMembership M r
       in (if uRoleChanged u \<and> stRole (raft_Status (rtNode r)) \<noteq> Leader then fail_waiting ErrNotLeader r else r, Inr ())))))"

definition processUpdate :: "'s StableStore \<Rightarrow> 'm StateMachine \<Rightarrow> ('s, 'm) Runtime \<Rightarrow> Update \<Rightarrow> ('s, 'm) rt_call" where
  "processUpdate S M r u = processUpdateWithSnapshot S M r u None"

text \<open>A call of the node, with the update it returns.\<close>

definition on_node :: "('s, 'm) Runtime \<Rightarrow> 'a step \<Rightarrow> (('s, 'm) Runtime \<Rightarrow> 'a \<Rightarrow> ('s, 'm) rt_call) \<Rightarrow> ('s, 'm) rt_call" where
  "on_node r c f = (case c of Inl e \<Rightarrow> (r, Inl e) | Inr (n, x) \<Rightarrow> f (r\<lparr>rtNode := n\<rparr>) x)"

section \<open>Proposals\<close>

definition proposalBytes :: "bytes \<Rightarrow> nat" where
  "proposalBytes data = (if length data > MaxEntryBytes then 0 else length data + EntryOverheadBytes)"

text \<open>
  The loop of \<open>drainProposals\<close>: how many more events may be read, the batch, its size, the other events
  and the queue.
\<close>

type_synonym proposal = "bytes \<times> nat"

fun drain_proposals :: "nat \<Rightarrow> proposal list \<Rightarrow> nat \<Rightarrow> event list \<Rightarrow> event list \<Rightarrow> proposal list \<times> event list \<times> event list" where
  "drain_proposals 0 batch sz others queue = (batch, others, queue)"
| "drain_proposals (Suc left) batch sz others queue =
     (if \<not> (length batch < maxBatchEntries \<and> sz < maxBatchBytes) then (batch, others, queue)
      else case queue of
             [] \<Rightarrow> (batch, others, queue)
           | ProposalEvent data c # queue' \<Rightarrow>
               if sz + proposalBytes data > maxBatchBytes then (batch, others @ [ProposalEvent data c], queue')
               else drain_proposals left (batch @ [(data, c)]) (sz + proposalBytes data) others queue'
           | raw # queue' \<Rightarrow> drain_proposals left batch sz (others @ [raw]) queue')"

definition drainProposals :: "('s, 'm) Runtime \<Rightarrow> proposal \<Rightarrow> ('s, 'm) Runtime \<times> proposal list" where
  "drainProposals r first =
     (case drain_proposals (rtCap r) [first] (proposalBytes (fst first)) [] (rtEvents r) of
        (batch, others, queue) \<Rightarrow> (r\<lparr>rtEvents := queue, rtDeferred := others\<rparr>, batch))"

fun register_proposals :: "('s, 'm) Runtime \<Rightarrow> proposal list \<Rightarrow> u64 list \<Rightarrow> ('s, 'm) rt_call" where
  "register_proposals r [] is = (r, Inr ())"
| "register_proposals r ((data, c) # batch) [] = (r, Inl Panic)"
| "register_proposals r ((data, c) # batch) (i # is) =
     (if i = 0 then register_proposals (reply_to c (failed_proposal 0 ErrEntryTooLarge) r) batch is
      else register_proposals (r\<lparr>rtPending := map_set i c (rtPending r)\<rparr>) batch is)"

definition proposeBatch :: "'s StableStore \<Rightarrow> 'm StateMachine \<Rightarrow> ('s, 'm) Runtime \<Rightarrow> proposal list \<Rightarrow> ('s, 'm) rt_call" where
  "proposeBatch S M r batch =
     on_node r (raft_ProposeBatch (rtNode r) (map fst batch)) (\<lambda>r res.
       case res of
         Inl e \<Rightarrow> (reply_all (map snd batch) (failed_proposal 0 e) r, Inr ())
       | Inr (indexes, u) \<Rightarrow>
           rt_bind (register_proposals r batch indexes) (\<lambda>r.
             if uEntries u = [] then (r, Inr ()) else processUpdate S M r u))"

section \<open>Appends\<close>

definition appendLoad :: "Message \<Rightarrow> nat \<times> nat" where
  "appendLoad m = (length (msgEntries m), sum_list (map (\<lambda>e. length (eData e) + EntryOverheadBytes) (msgEntries m)))"

type_synonym append_event = "Message \<times> nat"

fun drain_appends ::
  "nat \<Rightarrow> u64 \<Rightarrow> append_event list \<Rightarrow> nat \<Rightarrow> nat \<Rightarrow> event list \<Rightarrow> event list \<Rightarrow> append_event list \<times> event list \<times> event list" where
  "drain_appends 0 sender grp entries sz others queue = (grp, others, queue)"
| "drain_appends (Suc left) sender grp entries sz others queue =
     (if \<not> (entries < maxBatchEntries \<and> sz < maxBatchBytes) then (grp, others, queue)
      else case queue of
             [] \<Rightarrow> (grp, others, queue)
           | raw # queue' \<Rightarrow>
               (case raw of
                  MessageEvent m None c \<Rightarrow>
                    if msgType m \<noteq> MsgAppend \<or> msgFrom m \<noteq> sender then drain_appends left sender grp entries sz (others @ [raw]) queue'
                    else (case appendLoad m of
                            (count, bytes) \<Rightarrow>
                              if entries + count > maxBatchEntries \<or> sz + bytes > maxBatchBytes then (grp, others @ [raw], queue')
                              else drain_appends left sender (grp @ [(m, c)]) (entries + count) (sz + bytes) others queue')
                | _ \<Rightarrow> drain_appends left sender grp entries sz (others @ [raw]) queue'))"

definition drainAppends :: "('s, 'm) Runtime \<Rightarrow> append_event \<Rightarrow> ('s, 'm) Runtime \<times> append_event list" where
  "drainAppends r first =
     (case appendLoad (fst first) of
        (entries, bytes) \<Rightarrow>
          (case drain_appends (rtCap r) (msgFrom (fst first)) [first] entries bytes [] (rtEvents r) of
             (grp, others, queue) \<Rightarrow> (r\<lparr>rtEvents := queue, rtDeferred := others\<rparr>, grp)))"

text \<open>A panic inside a call leaves nobody to answer.\<close>

definition answer_messages :: "nat list \<Rightarrow> ('s, 'm) rt_call \<Rightarrow> ('s, 'm) rt_call" where
  "answer_messages cs c = (case c of (r, res) \<Rightarrow> if res = Inl Panic then c else (reply_all cs (MessageReply res) r, res))"

definition flush_appends :: "'s StableStore \<Rightarrow> 'm StateMachine \<Rightarrow> ('s, 'm) Runtime \<Rightarrow> Update \<Rightarrow> nat list \<Rightarrow> ('s, 'm) rt_call" where
  "flush_appends S M r merged waiting =
     (if waiting = [] then (r, Inr ()) else answer_messages waiting (processUpdate S M r merged))"

text \<open>What \<open>failRest\<close> and the return behind it do with the events of the group that are left.\<close>

definition or_fail_rest :: "nat list \<Rightarrow> ('s, 'm) rt_call \<Rightarrow> (('s, 'm) Runtime \<Rightarrow> ('s, 'm) rt_call) \<Rightarrow> ('s, 'm) rt_call" where
  "or_fail_rest cs c f = (case c of (r, Inl e) \<Rightarrow> answer_messages cs (r, Inl e) | (r, Inr _) \<Rightarrow> f r)"

fun step_appends :: "'s StableStore \<Rightarrow> 'm StateMachine \<Rightarrow> ('s, 'm) Runtime \<Rightarrow> Update \<Rightarrow> nat list \<Rightarrow> append_event list \<Rightarrow> ('s, 'm) rt_call" where
  "step_appends S M r merged waiting [] = flush_appends S M r merged waiting"
| "step_appends S M r merged waiting ((m, c) # grp) =
     on_node r (raft_Step (rtNode r) m) (\<lambda>r u.
       if uHard u = None \<and> uTruncateFrom u = 0 \<and> uSnapshot u = None \<and> \<not> uRoleChanged u
       then step_appends S M (logDroppedAppend (uDropped u) r)
              (merged\<lparr>uEntries := uEntries merged @ uEntries u, uMessages := uMessages merged @ uMessages u,
                      uCommitted := uCommitted merged @ uCommitted u\<rparr>) (waiting @ [c]) grp
       else or_fail_rest (c # map snd grp) (flush_appends S M r merged waiting) (\<lambda>r.
            or_fail_rest (map snd grp) (answer_messages [c] (processUpdate S M r u)) (\<lambda>r.
            step_appends S M r no_update [] grp)))"

definition stepAppends :: "'s StableStore \<Rightarrow> 'm StateMachine \<Rightarrow> ('s, 'm) Runtime \<Rightarrow> append_event list \<Rightarrow> ('s, 'm) rt_call" where
  "stepAppends S M r grp = step_appends S M r no_update [] grp"

section \<open>Reads\<close>

fun take_reads :: "event list \<Rightarrow> nat list \<times> event list" where
  "take_reads (ReadEvent c # es) = (case take_reads es of (cs, rest) \<Rightarrow> (c # cs, rest))"
| "take_reads es = ([], es)"

fun drain_reads :: "nat \<Rightarrow> nat list \<Rightarrow> event list \<Rightarrow> event list \<Rightarrow> nat list \<times> event list \<times> event list" where
  "drain_reads 0 reads others queue = (reads, others, queue)"
| "drain_reads (Suc left) reads others queue =
     (case queue of
        [] \<Rightarrow> (reads, others, queue)
      | ReadEvent c # queue' \<Rightarrow> drain_reads left (reads @ [c]) others queue'
      | raw # queue' \<Rightarrow> drain_reads left reads (others @ [raw]) queue')"

definition collectReads :: "('s, 'm) Runtime \<Rightarrow> nat \<Rightarrow> ('s, 'm) Runtime \<times> nat list" where
  "collectReads r first =
     (if rtDeferred r \<noteq> []
      then (case take_reads (rtDeferred r) of (cs, rest) \<Rightarrow> (r\<lparr>rtDeferred := rest\<rparr>, first # cs))
      else case drain_reads (rtCap r) [first] [] (rtEvents r) of
             (reads, others, queue) \<Rightarrow> (r\<lparr>rtEvents := queue, rtDeferred := others\<rparr>, reads))"

definition handle_read :: "'s StableStore \<Rightarrow> 'm StateMachine \<Rightarrow> ('s, 'm) Runtime \<Rightarrow> nat \<Rightarrow> ('s, 'm) rt_call" where
  "handle_read S M r first =
     (case collectReads r first of
        (r, reads) \<Rightarrow>
          let read = \<lparr>rdResults = reads, rdAcks = [stID (raft_Status (rtNode r))]\<rparr>;
              contextID = rtNextRead r + 1;
              r = r\<lparr>rtNextRead := contextID\<rparr>
          in on_node r (raft_ReadProbe (rtNode r) contextID) (\<lambda>r res.
               case res of
                 Inl e \<Rightarrow> (reply_all reads (failed_read e) r, Inr ())
               | Inr u \<Rightarrow>
                   rt_bind (processUpdate S M (r\<lparr>rtReads := map_set contextID read (rtReads r)\<rparr>) u) (\<lambda>r.
                     if raft_HasQuorum (rtNode r) (set (rdAcks read))
                     then ((reply_all reads (read_index (stCommitIndex (raft_Status (rtNode r)))) r)
                             \<lparr>rtReads := map_delete contextID (rtReads r)\<rparr>, Inr ())
                     else (r, Inr ()))))"

definition acknowledgeRead :: "'m StateMachine \<Rightarrow> ('s, 'm) Runtime \<Rightarrow> Message \<Rightarrow> ('s, 'm) Runtime" where
  "acknowledgeRead M r m =
     (case map_of (rtReads r) (msgContext m) of
        None \<Rightarrow> r
      | Some read \<Rightarrow>
          if stRole (raft_Status (rtNode r)) \<noteq> Leader \<or> msgTerm m \<noteq> stTerm (raft_Status (rtNode r)) then r
          else
            let read = read\<lparr>rdAcks := (if msgFrom m \<in> set (rdAcks read) then rdAcks read else rdAcks read @ [msgFrom m])\<rparr>;
                r = r\<lparr>rtReads := map_set (msgContext m) read (rtReads r)\<rparr>;
                index = stCommitIndex (raft_Status (rtNode r))
            in if \<not> raft_HasQuorum (rtNode r) (set (rdAcks read)) then r
               else if smAppliedIndex M (rtMachine r) < index then r
               else (reply_all (rdResults read) (read_index index) r)\<lparr>rtReads := map_delete (msgContext m) (rtReads r)\<rparr>)"

section \<open>The event loop\<close>

definition handle_membership :: "'s StableStore \<Rightarrow> 'm StateMachine \<Rightarrow> ('s, 'm) Runtime \<Rightarrow> u64 list \<Rightarrow> nat \<Rightarrow> ('s, 'm) rt_call" where
  "handle_membership S M r voters c =
     on_node r (raft_ProposeMembership (rtNode r) voters) (\<lambda>r res.
       case res of
         Inl e \<Rightarrow> (reply_to c (failed_proposal 0 e) r, Inr ())
       | Inr (index, u) \<Rightarrow>
           if index \<le> stCommitIndex (raft_Status (rtNode r))
           then (reply_to c (ProposalReply \<lparr>prIndex = index, prTerm = 0, prErr = None\<rparr>) r, Inr ())
           else processUpdate S M (r\<lparr>rtMembership := Some \<lparr>pmVoters = voters, pmResult = c\<rparr>\<rparr>) u)"

definition handle_message :: "'s StableStore \<Rightarrow> 'm StateMachine \<Rightarrow> ('s, 'm) Runtime \<Rightarrow> Message \<Rightarrow> snapshot_source option \<Rightarrow> nat \<Rightarrow> ('s, 'm) rt_call" where
  "handle_message S M r m data c =
     (if msgType m = MsgAppend \<and> data = None \<and> rtDeferred r = []
      then (case drainAppends r (m, c) of (r, grp) \<Rightarrow> stepAppends S M r grp)
      else answer_messages [c] (rt_bind
        (on_node r (raft_Step (rtNode r) m) (\<lambda>r u. processUpdateWithSnapshot S M r u data)) (\<lambda>r.
        (if msgType m = MsgAppendResponse \<and> \<not> msgReject m \<and> msgContext m \<noteq> 0 then acknowledgeRead M r m else r, Inr ()))))"

definition handle_proposal :: "'s StableStore \<Rightarrow> 'm StateMachine \<Rightarrow> ('s, 'm) Runtime \<Rightarrow> proposal \<Rightarrow> ('s, 'm) rt_call" where
  "handle_proposal S M r p =
     (if rtDeferred r = [] then (case drainProposals r p of (r, batch) \<Rightarrow> proposeBatch S M r batch)
      else proposeBatch S M r [p])"

definition closeResources :: "'s StableStore \<Rightarrow> 'm StateMachine \<Rightarrow> ('s, 'm) Runtime \<Rightarrow> ('s, 'm) Runtime \<times> unit result" where
  "closeResources S M r =
     (case smClose M (rtMachine r) of (m, e1) \<Rightarrow>
      case ssClose S (rtStore r) of (st, e2) \<Rightarrow>
        (r\<lparr>rtMachine := m, rtStore := st\<rparr>, case e1 of Inl e \<Rightarrow> Inl e | Inr _ \<Rightarrow> e2))"

fun rt_handle :: "'s StableStore \<Rightarrow> 'm StateMachine \<Rightarrow> ('s, 'm) Runtime \<Rightarrow> event \<Rightarrow> ('s, 'm) rt_call" where
  "rt_handle S M r (ProposalEvent data c) = handle_proposal S M r (data, c)"
| "rt_handle S M r (MembershipEvent voters c) = handle_membership S M r voters c"
| "rt_handle S M r (MessageEvent m data c) = handle_message S M r m data c"
| "rt_handle S M r (StatusEvent c) = (reply_to c (StatusReply (raft_Status (rtNode r))) r, Inr ())"
| "rt_handle S M r (ReadEvent c) = handle_read S M r c"
| "rt_handle S M r (StopEvent c) =
     (case closeResources S M r of (r, e) \<Rightarrow> ((reply_to c (StopReply e) r)\<lparr>rtDone := True\<rparr>, Inr ()))"

definition rt_fail :: "'s StableStore \<Rightarrow> 'm StateMachine \<Rightarrow> ('s, 'm) Runtime \<Rightarrow> failure \<Rightarrow> ('s, 'm) Runtime" where
  "rt_fail S M r cause = (fst (closeResources S M (fail_waiting cause r)))\<lparr>rtDone := True\<rparr>"

text \<open>The end of an iteration: an error stops the loop, a panic the process.\<close>

definition finish_iteration :: "'s StableStore \<Rightarrow> 'm StateMachine \<Rightarrow> ('s, 'm) rt_call \<Rightarrow> ('s, 'm) Runtime" where
  "finish_iteration S M c =
     (case c of (r, Inr _) \<Rightarrow> r | (r, Inl Panic) \<Rightarrow> r\<lparr>rtCrashed := True\<rparr> | (r, Inl e) \<Rightarrow> rt_fail S M r e)"

definition rt_tick :: "'s StableStore \<Rightarrow> 'm StateMachine \<Rightarrow> ('s, 'm) Runtime \<Rightarrow> ('s, 'm) Runtime" where
  "rt_tick S M r = finish_iteration S M (on_node r (raft_Tick (rtNode r)) (processUpdate S M))"

text \<open>One iteration: a deferred event first, otherwise the next queued event or a tick.\<close>

definition rt_next :: "'s StableStore \<Rightarrow> 'm StateMachine \<Rightarrow> bool \<Rightarrow> ('s, 'm) Runtime \<Rightarrow> ('s, 'm) Runtime option" where
  "rt_next S M ticked r =
     (if rtDone r \<or> rtCrashed r then None
      else case rtDeferred r of
             raw # rest \<Rightarrow> Some (finish_iteration S M (rt_handle S M (r\<lparr>rtDeferred := rest\<rparr>) raw))
           | [] \<Rightarrow>
               if ticked then Some (rt_tick S M r)
               else (case rtEvents r of
                       [] \<Rightarrow> None
                     | raw # queue \<Rightarrow> Some (finish_iteration S M (rt_handle S M (r\<lparr>rtEvents := queue\<rparr>) raw))))"

section \<open>The callers\<close>

text \<open>
  A caller sends its request and then waits for the answer. Both are a \<open>select\<close>, which takes one of the cases
  that are ready: the queue or the answer, the end of the caller's context, or the end of the runtime. The case
  is an argument, and the result is \<open>None\<close> while that case is not ready.
\<close>

datatype ready = ReadyChannel | ReadyContext failure | ReadyDone

fun submit :: "('s, 'm) Runtime \<Rightarrow> event \<Rightarrow> ready \<Rightarrow> (('s, 'm) Runtime \<times> unit result) option" where
  "submit r e ReadyChannel = (if length (rtEvents r) < rtCap r then Some (r\<lparr>rtEvents := rtEvents r @ [e]\<rparr>, Inr ()) else None)"
| "submit r e (ReadyContext x) = Some (r, Inl x)"
| "submit r e ReadyDone = (if rtDone r then Some (r, Inl ErrStopped) else None)"

fun await :: "('s, 'm) Runtime \<Rightarrow> nat \<Rightarrow> ready \<Rightarrow> reply result option" where
  "await r c ReadyChannel = map_option Inr (map_of (rtReplies r) c)"
| "await r c (ReadyContext x) = Some (Inl x)"
| "await r c ReadyDone = (if rtDone r then Some (Inl ErrStopped) else None)"

definition rt_Propose :: "('s, 'm) Runtime \<Rightarrow> bytes \<Rightarrow> nat \<Rightarrow> ready \<Rightarrow> (('s, 'm) Runtime \<times> unit result) option" where
  "rt_Propose r command c w = submit r (ProposalEvent command c) w"

definition await_proposal :: "('s, 'm) Runtime \<Rightarrow> nat \<Rightarrow> ready \<Rightarrow> proposalResult option" where
  "await_proposal r c w =
     (case await r c w of
        Some (Inr (ProposalReply p)) \<Rightarrow> Some p
      | Some (Inl x) \<Rightarrow> Some \<lparr>prIndex = 0, prTerm = 0, prErr = Some x\<rparr>
      | _ \<Rightarrow> None)"

definition rt_ChangeMembership :: "('s, 'm) Runtime \<Rightarrow> u64 list \<Rightarrow> nat \<Rightarrow> ready \<Rightarrow> (('s, 'm) Runtime \<times> unit result) option" where
  "rt_ChangeMembership r voters c w = submit r (MembershipEvent voters c) w"

definition rt_Step :: "('s, 'm) Runtime \<Rightarrow> Message \<Rightarrow> nat \<Rightarrow> ready \<Rightarrow> (('s, 'm) Runtime \<times> unit result) option" where
  "rt_Step r m c w = submit r (MessageEvent m None c) w"

definition rt_StepSnapshot :: "('s, 'm) Runtime \<Rightarrow> Message \<Rightarrow> snapshot_source option \<Rightarrow> nat \<Rightarrow> ready \<Rightarrow> (('s, 'm) Runtime \<times> unit result) option" where
  "rt_StepSnapshot r m data c w =
     (if data = None then Some (r, Inl (Err ''snapshot data reader is required'')) else submit r (MessageEvent m data c) w)"

text \<open>The wait of \<open>StepSnapshot\<close> has no case for the context.\<close>

definition await_message :: "('s, 'm) Runtime \<Rightarrow> nat \<Rightarrow> ready \<Rightarrow> unit result option" where
  "await_message r c w =
     (case await r c w of Some (Inr (MessageReply e)) \<Rightarrow> Some e | Some (Inl x) \<Rightarrow> Some (Inl x) | _ \<Rightarrow> None)"

definition rt_Status :: "('s, 'm) Runtime \<Rightarrow> nat \<Rightarrow> ready \<Rightarrow> (('s, 'm) Runtime \<times> unit result) option" where
  "rt_Status r c w = submit r (StatusEvent c) w"

definition await_status :: "('s, 'm) Runtime \<Rightarrow> nat \<Rightarrow> ready \<Rightarrow> Status result option" where
  "await_status r c w =
     (case await r c w of Some (Inr (StatusReply x)) \<Rightarrow> Some (Inr x) | Some (Inl x) \<Rightarrow> Some (Inl x) | _ \<Rightarrow> None)"

definition LinearizableRead :: "('s, 'm) Runtime \<Rightarrow> nat \<Rightarrow> ready \<Rightarrow> (('s, 'm) Runtime \<times> unit result) option" where
  "LinearizableRead r c w = submit r (ReadEvent c) w"

definition await_read :: "('s, 'm) Runtime \<Rightarrow> nat \<Rightarrow> ready \<Rightarrow> readResult option" where
  "await_read r c w =
     (case await r c w of
        Some (Inr (ReadReply x)) \<Rightarrow> Some x
      | Some (Inl x) \<Rightarrow> Some \<lparr>rrIndex = 0, rrErr = Some x\<rparr>
      | _ \<Rightarrow> None)"

text \<open>\<open>Close\<close> does its work once. A stopped runtime that took the request but does not answer it gives no error.\<close>

definition rt_Close :: "('s, 'm) Runtime \<Rightarrow> nat \<Rightarrow> ready \<Rightarrow> (('s, 'm) Runtime \<times> unit result option) option" where
  "rt_Close r c w =
     (if rtClosing r then Some (r, Some (Inr ()))
      else case submit r (StopEvent c) w of
             None \<Rightarrow> None
           | Some (r, Inr _) \<Rightarrow> Some (r\<lparr>rtClosing := True\<rparr>, None)
           | Some (r, Inl _) \<Rightarrow> Some (r\<lparr>rtClosing := True\<rparr>, Some (Inr ())))"

definition await_close :: "('s, 'm) Runtime \<Rightarrow> nat \<Rightarrow> unit result option" where
  "await_close r c =
     (case await r c ReadyChannel of
        Some (Inr (StopReply e)) \<Rightarrow> Some e
      | _ \<Rightarrow> if rtDone r then Some (Inr ()) else None)"

text \<open>The sender: what it hands to the transport for one outgoing message.\<close>

datatype sent = Sent Message | SentSnapshot Message bytes u64 u32

definition sendLoop :: "'s StableStore \<Rightarrow> 's \<Rightarrow> Message \<Rightarrow> sent option" where
  "sendLoop S st m =
     (if msgType m \<noteq> MsgSnapshot then Some (Sent m)
      else case msgSnapshot m of
             None \<Rightarrow> None
           | Some s \<Rightarrow>
               (case ssOpenSnapshot S st (sIndex s) of
                  Inl _ \<Rightarrow> None
                | Inr (data, sz, checksum) \<Rightarrow> Some (SentSnapshot m data sz checksum)))"

end
