(* ===== verification/Runtime_Inv.thy ===== *)
theory Runtime_Inv
  imports Runtime Raft_Props "HOL-Library.Multiset"
begin

text \<open>
  The event loop and what it drives stay in step. The contract of the state machine is a locale: applying
  the next index or restoring an image moves the applied index there. Under it, every iteration that
  starts with the machine at the commit index ends there, and the only errors it can meet are those of
  the store and the machine.
\<close>

section \<open>The node under the loop\<close>

lemma plan_append_length: "plan_append n es = Extend c fs \<Longrightarrow> length fs \<le> length es"
  by (induction n es rule: plan_append.induct) (auto split: if_splits)

lemma finish_append_keeps:
  "finish_append n m u = Inr (n', v) \<Longrightarrow> uEntries v = uEntries u \<and> uSnapshot v = uSnapshot u \<and> nTerm n' = nTerm n"
  by (auto simp: finish_append_def Let_def rbind_Inr_iff split: if_splits)

lemma extend_log_term: "extend_log n c es = Inr n' \<Longrightarrow> nTerm n' = nTerm n"
  by (auto simp: extend_log_def rbind_Inr_iff split: option.splits)

lemma rebuild_term: "rebuildMembership n = Inr n' \<Longrightarrow> nTerm n' = nTerm n"
  by (auto simp: rebuildMembership_def rbind_Inr_iff)

lemma append_entries_bound:
  assumes "append_entries n m u = Inr (n', v)" "uEntries u = []" "uSnapshot u = None"
  shows "length (uEntries v) \<le> length (msgEntries m) \<and> uSnapshot v = None \<and> nTerm n' = nTerm n"
proof (cases "plan_append n (msgEntries m)")
  case Present
  then show ?thesis using assms finish_append_keeps [of n m u n' v] by (simp add: append_entries_def)
next
  case Conflict_Committed
  then show ?thesis using assms by (auto simp: append_entries_def)
next
  case (Extend c es)
  then obtain n1 where n1: "extend_log n c es = Inr n1" using assms(1) by (auto simp: append_entries_def rbind_Inr_iff)
  define u1 where "u1 = u\<lparr>uTruncateFrom := (case c of None \<Rightarrow> uTruncateFrom u | Some i \<Rightarrow> i), uEntries := uEntries u @ es\<rparr>"
  have u1: "uEntries u1 = es" "uSnapshot u1 = None" using assms(2,3) by (simp_all add: u1_def)
  have "(\<exists>n2. nTerm n2 = nTerm n \<and> finish_append n2 m u1 = Inr (n', v)) \<or> n' = n \<and> uEntries v = [] \<and> uSnapshot v = None"
    using assms(1,3) extend_log_term [OF n1] unfolding append_entries_def Extend append_plan.case n1 rbind_simps Let_def u1_def [symmetric]
    by (auto split: if_splits sum.splits dest: rebuild_term)
  then show ?thesis using finish_append_keeps plan_append_length [OF Extend] u1 by fastforce
qed

lemma handleAppend_bound:
  assumes "handleAppend n m = Inr (n', v)" "wf_node n"
  shows "length (uEntries v) \<le> length (msgEntries m) \<and> uSnapshot v = None \<and> nTerm n' = nTerm n"
proof -
  obtain n1 c where f: "follow n (msgFrom m) = Inr (n1, no_update\<lparr>uRoleChanged := c\<rparr>)" and t: "nTerm n1 = nTerm n"
    using follow_returns [OF assms(2), of "msgFrom m"] by (auto simp: returns_ex same_core_eqs(1-3))
  then show ?thesis using assms(1) append_entries_bound [of n1 m "no_update\<lparr>uRoleChanged := c\<rparr>" n' v]
    by (auto simp: handleAppend_def Let_def split: if_splits)
qed


lemma evolves_lastN:
  assumes "evolves n u n'" "uSnapshot u = None"
  shows "lastN n' \<le> lastN n + length (uEntries u)"
proof -
  have "durable_of n' = persist (durable_of n) u" by (rule evolvesD(5) [OF assms(1)])
  then have "nSnap n' = nSnap n" "nLog n' = truncated (uTruncateFrom u) (nSnap n) (nLog n) @ uEntries u"
    using assms(2) by (simp_all add: durable_of_def persist_def snapshotted_def)
  then show ?thesis by (simp add: lastN_def snapN_def truncated_def)
qed

lemma append_step_bound:
  assumes "wf_node n" "call_ok n (CallStep m)" "msgType m = MsgAppend" "raft_Step n m = Inr (n', u)"
  shows "evolves n u n'" "uSnapshot u = None" "lastN n' \<le> lastN n + length (msgEntries m)" "nTerm n' = nTerm n \<or> nTerm n' = msgTerm m"
proof -
  have "raft_call n (CallStep m) = Inr (n', u)" using assms(4) by simp
  then show e: "evolves n u n'" using raft_call_step assms(1,2) by blast
  have b: "uSnapshot u = None \<and> length (uEntries u) \<le> length (msgEntries m) \<and> (nTerm n' = nTerm n \<or> nTerm n' = msgTerm m)"
  proof -
    consider "uSnapshot u = None \<and> uEntries u = [] \<and> nTerm n' = nTerm n"
      | n1 u1 v where "nTerm n1 = nTerm n \<or> nTerm n1 = msgTerm m" "uSnapshot u1 = None" "uEntries u1 = []" "wf_node n1"
          "handleAppend n1 m = Inr (n', v)" "u = merge u1 v"
    proof (cases "msgTo m \<noteq> 0 \<and> msgTo m \<noteq> nID n \<or> (\<not> isCommunicationPeer n (msgFrom m) \<or> msgFrom m = nID n) \<or> malformedAppend m \<noteq> '''' \<or> msgTerm m < nTerm n")
      case True
      then show ?thesis using assms(3,4) by (intro that(1)) (auto simp: raft_Step_def split: if_splits)
    next
      case False
      show ?thesis
      proof (cases "msgTerm m > nTerm n")
        case True
        have "nTerm n \<le> msgTerm m" using True by simp
        then obtain n1 u1 where r: "becomeFollower n (msgTerm m) 0 = Inr (n1, u1)" "steps_down n (msgTerm m) 0 n1 u1"
          using returns_pair [OF becomeFollower_returns [OF assms(1)]] by blast
        obtain v where "handleAppend n1 m = Inr (n', v)" "u = merge u1 v"
          using assms(3,4) False True r by (auto simp: raft_Step_def then_merge_def rbind_Inr_iff)
        then show ?thesis
          using r(2) by (intro that(2) [of n1 u1 v]) (auto simp: steps_down_def mild_def quiet_def dest: evolvesD(1))
      next
        case False2: False
        then obtain v where "handleAppend n m = Inr (n', v)" "u = merge no_update v"
          using assms(3,4) False by (auto simp: raft_Step_def then_merge_def rbind_Inr_iff)
        then show ?thesis using assms(1) by (intro that(2) [of n no_update v]) simp_all
      qed
    qed
    then show ?thesis
    proof cases
      case 2
      then show ?thesis using handleAppend_bound [OF 2(5,4)] by auto
    qed simp
  qed
  then show "uSnapshot u = None" "nTerm n' = nTerm n \<or> nTerm n' = msgTerm m" by simp_all
  show "lastN n' \<le> lastN n + length (msgEntries m)" using evolves_lastN [OF e] b by simp
qed


lemma fold_membership_decodes:
  "fold_membership m es = Inr m' \<Longrightarrow> e \<in> set es \<Longrightarrow> \<exists>c. decodeMembership (eData e) = Inr c"
  by (induction es arbitrary: m) (auto simp: rbind_Inr_iff split: sum.splits option.splits)

lemma IsMembershipEntry_decodes: "decodeMembership data = Inr c \<Longrightarrow> \<exists>b. IsMembershipEntry data = (b, None)"
  by (cases c) (auto simp: IsMembershipEntry_def)

text \<open>A snapshot of a committed index above the last one is always possible.\<close>

lemma raft_CreateSnapshot_works:
  assumes "wf_node n" "sIndex (nSnap n) < i" "i \<le> nCommit n"
  shows "\<exists>n' u. raft_CreateSnapshot n i data = Inr (n', Inr u) \<and> evolves n u n' \<and> nCommit n' = nCommit n \<and> nRole n' = nRole n \<and>
    nTerm n' = nTerm n \<and> lastN n' = lastN n \<and> uMessages u = [] \<and> nMembership n' = nMembership n"
proof -
  have ok: "node_ok n" "room n 0" "contiguous (snapN n) (nLog n)" "unat (nCommit n) \<le> lastN n"
    using assms(1) by (simp_all add: wf_node_def node_ok_def)
  define k where "k = unat i - snapN n"
  have lt: "snapN n < unat i" "unat i \<le> lastN n" using assms(2,3) ok(4) by (auto simp: snapN_def word_less_nat_alt word_le_nat_alt)
  have "rbind (fold_membership (base_membership n) (take k (nLog n))) (\<lambda>m. fold_membership m (drop k (nLog n))) = Inr (nMembership n)"
    using ok(1) by (simp add: node_ok_def flip: fold_membership_append)
  then obtain m where m: "fold_membership (base_membership n) (take k (nLog n)) = Inr m" by (auto simp: rbind_Inr_iff)
  then have at: "membershipAt n i = Inr m"
    using takeWhile_contiguous [OF ok(3)] lt(1) by (simp add: membershipAt_def k_def)
  have "mbIndex (base_membership n) \<le> i"
    using ok(1) assms(2) by (auto simp: base_membership_def node_ok_def snapshot_ok_def initial_ok_def)
  moreover have "eIndex e \<le> i" if "e \<in> set (take k (nLog n))" for e
  proof -
    have "\<exists>j. e = nLog n ! j \<and> j < k \<and> j < length (nLog n)" using that by (auto simp: in_set_conv_nth)
    then obtain j where "unat (eIndex e) = snapN n + j + 1" "j < k" using ok(3) by (auto simp: contiguous_def)
    then show ?thesis by (simp add: word_le_nat_alt k_def)
  qed
  ultimately have idx: "mbIndex m \<le> i" using fold_membership_index [OF m] by auto
  have "termAt n i = eTerm (nLog n ! (unat i - snapN n - 1))" "unat i - snapN n - 1 < length (nLog n)"
    using termAt_nat [OF ok(2), of i] lt by (auto simp: lastN_def entryAt_def)
  then have t: "termAt n i \<noteq> 0" using ok(3) by (simp add: contiguous_def)
  define s where "s = \<lparr>sIndex = i, sTerm = termAt n i, sData = data, sMembership = m\<rparr>"
  have at': "membershipAt n (sIndex s) = Inr m" and mem: "sMembership s = m" by (simp_all add: s_def at)
  have c: "raft_CreateSnapshot n i data = raft_Compact n s" by (simp add: raft_CreateSnapshot_def at s_def)
  obtain n' r where r: "raft_Compact n s = Inr (n', r)" "case r of Inl e \<Rightarrow> n' = n
    | Inr u \<Rightarrow> evolves n u n' \<and> nMembership n' = nMembership n \<and> nCommit n' = nCommit n \<and> nRole n' = nRole n \<and> nVotes n' = nVotes n \<and> uMessages u = []"
    using returns_pair [OF raft_Compact_returns [OF assms(1), of s]] by blast
  have "\<not> sIndex s \<le> sIndex (nSnap n)" "\<not> (sIndex s > nCommit n \<or> sTerm s = 0 \<or> termAt n (sIndex s) \<noteq> sTerm s)"
    "(if Voters (sMembership s) = [] then s\<lparr>sMembership := m\<rparr> else s) = s" "\<not> mbIndex (sMembership s) > sIndex s"
    using assms(2,3) t idx by (auto simp: s_def not_le not_less)
  note e = if_not_P [OF this(1)] if_not_P [OF this(2)] this(3) if_not_P [OF this(4)]
  have "rbind (compactLog n s) (\<lambda>n. case rebuildMembership n of Inl e \<Rightarrow> Inr (n, Inl e) | Inr n \<Rightarrow> Inr (n, Inr (no_update\<lparr>uSnapshot := Some s\<rparr>)))
      = Inr (n', r)"
    using r(1) unfolding raft_Compact_def e(1,2) at' sum.case Let_def e(3,4) by (simp add: mem equalVoters_eq)
  then have "nSnap n' = s"
    using compactLog_nat [OF ok(1), of s] lt(1) by (auto simp: s_def compacted_def rebuildMembership_def rbind_Inr_iff split: sum.splits)
  then have "n' \<noteq> n" using assms(2) by (auto simp: s_def)
  then obtain u where u: "r = Inr u" using r(2) by (cases r) auto
  then have "lastN n' = lastN n" "nTerm n' = nTerm n"
    using raft_Compact_fields [of n s n' u] r(1) assms(1,2) by (simp_all add: s_def)
  then show ?thesis using r u by (simp add: c)
qed


section \<open>What an update asks of the machine\<close>

text \<open>The committed entries, or the snapshot, of an update take a machine from index \<open>c\<close> to index \<open>k\<close>.\<close>

definition due :: "Update \<Rightarrow> u64 \<Rightarrow> u64 \<Rightarrow> bool" where
  "due u c k \<longleftrightarrow>
     (case uSnapshot u of
        None \<Rightarrow> contiguous (unat c) (uCommitted u) \<and> unat k = unat c + length (uCommitted u) \<and>
          (\<forall>e \<in> set (uCommitted u). \<exists>x. decodeMembership (eData e) = Inr x)
      | Some s \<Rightarrow> uCommitted u = [] \<and> k = max c (sIndex s))"

lemma due_evolves:
  assumes "wf_node n" "evolves n u n'"
  shows "due u (nCommit n) (nCommit n')"
proof (cases "uSnapshot u")
  case None
  have n': "contiguous (snapN n') (nLog n')" "unat (nCommit n') \<le> lastN n'" "fold_membership (base_membership n') (nLog n') = Inr (nMembership n')"
    using evolvesD(1) [OF assms(2)] by (simp_all add: wf_node_def node_ok_def)
  have "snapN n' = snapN n" using evolves_nSnap [OF assms(2) None] by (simp add: snapN_def)
  then have s: "snapN n' \<le> unat (nCommit n)" using assms(1) by (simp add: wf_node_def node_ok_def)
  define i j where "i = unat (nCommit n)" and "j = unat (nCommit n')"
  have ij: "i \<le> j" using evolvesD(6) [OF assms(2)] by (simp add: i_def j_def word_le_nat_alt)
  have com: "uCommitted u = take (j - i) (drop (i - snapN n') (nLog n'))"
    using evolvesD(8) [OF assms(2) None] entries_upto_slice [OF s n'(2)] by (simp add: i_def j_def)
  have len: "length (uCommitted u) = j - i" using s n'(2) by (simp add: com lastN_def i_def j_def)
  have "contiguous i (uCommitted u)"
    using n'(1) s len by (auto simp: contiguous_def com i_def)
  moreover have "\<exists>x. decodeMembership (eData e) = Inr x" if "e \<in> set (uCommitted u)" for e
    using that fold_membership_decodes [OF n'(3)] by (auto simp: com dest: in_set_takeD in_set_dropD)
  ultimately show ?thesis using None len ij by (auto simp: due_def i_def j_def)
next
  case (Some s)
  have "snapN n < unat (sIndex s)" using evolvesD(12) [OF assms(2)] Some by (simp add: cuts_ok_def)
  then have "nSnap n' = s"
    using evolvesD(5) [OF assms(2)] Some
    by (auto simp: durable_of_def persist_def snapshotted_def snapN_def word_le_nat_alt dest: arg_cong [of _ _ pSnap])
  then show ?thesis using evolvesD(9,13) [OF assms(2)] Some by (simp add: due_def)
qed

lemma due_join:
  assumes "due u c k" "due v k l" "uSnapshot u = None" "uSnapshot v = None"
  shows "due (u\<lparr>uEntries := es, uMessages := ms, uCommitted := uCommitted u @ uCommitted v\<rparr>) c l"
  using assms by (auto simp: due_def contiguous_append)

lemma due_idle: "uSnapshot u = None \<Longrightarrow> uCommitted u = [] \<Longrightarrow> due u c k \<longleftrightarrow> k = c"
  by (auto simp: due_def contiguous_def word_unat_eq_iff)

text \<open>The errors of the store and the machine, as the loop reports them.\<close>

inductive io_error :: "'s StableStore \<Rightarrow> 'm StateMachine \<Rightarrow> failure \<Rightarrow> bool" for S M where
  "snd (ssPersist S st u) = Inl x \<Longrightarrow> io_error S M (wrap ''persist raft update'' x)"
| "snd (ssPersistSnapshot S st u src) = Inl x \<Longrightarrow> io_error S M (wrap ''persist raft update'' x)"
| "ssOpenSnapshot S st i = Inl x \<Longrightarrow> io_error S M (wrap ''open state snapshot'' x)"
| "snd (smRestoreSnapshot M m i sz data) = Inl x \<Longrightarrow> io_error S M (wrap ''restore state snapshot'' x)"
| "snd (smApply M m i cmd) = Inl x \<Longrightarrow> io_error S M (wrap ''apply committed entry'' x)"
| "snd (ssPersistSnapshot S st u src) = Inl x \<Longrightarrow> io_error S M (wrap ''persist raft snapshot'' x)"

lemma io_persist:
  "ssPersist S st u = (st', Inl x) \<Longrightarrow> io_error S M (wrap ''persist raft update'' x)"
  "ssPersistSnapshot S st u src = (st', Inl x) \<Longrightarrow> io_error S M (wrap ''persist raft update'' x)"
  by (metis io_error.intros(1) snd_conv, metis io_error.intros(2) snd_conv)

text \<open>What a call leaves alone: the queue and the flags of the loop.\<close>

definition rt_frame :: "('s, 'm) Runtime \<Rightarrow> ('s, 'm) Runtime \<Rightarrow> bool" where
  "rt_frame r r' \<longleftrightarrow> rtEvents r' = rtEvents r \<and> rtDeferred r' = rtDeferred r \<and> rtCap r' = rtCap r \<and> rtDone r' = rtDone r \<and>
     rtCrashed r' = rtCrashed r \<and> rtSnapshotThreshold r' = rtSnapshotThreshold r"

lemma rt_frame_refl [simp]: "rt_frame r r"
  by (simp add: rt_frame_def)

lemma rt_frame_trans: "rt_frame a b \<Longrightarrow> rt_frame b c \<Longrightarrow> rt_frame a c"
  by (simp add: rt_frame_def)

text \<open>Steps that only answer requests.\<close>

definition answers :: "('s, 'm) Runtime \<Rightarrow> ('s, 'm) Runtime \<Rightarrow> bool" where
  "answers r r' \<longleftrightarrow> rt_frame r r' \<and> rtNode r' = rtNode r \<and> rtStore r' = rtStore r \<and> rtMachine r' = rtMachine r \<and> rtOutgoing r' = rtOutgoing r"

lemma answers_refl [simp]: "answers r r"
  by (simp add: answers_def)

lemma answers_trans: "answers a b \<Longrightarrow> answers b c \<Longrightarrow> answers a c"
  by (auto simp: answers_def rt_frame_def)

lemma answersD:
  assumes "answers r r'"
  shows "rtNode r' = rtNode r" "rtStore r' = rtStore r" "rtMachine r' = rtMachine r" "rtOutgoing r' = rtOutgoing r"
  using assms by (simp_all add: answers_def)

lemma answers_steps [simp]:
  "answers r (reply_to c x r)" "answers r (reply_all cs x r)" "answers r (answer_pending e r)" "answers r (logDroppedAppend d r)"
  "answers r (fail_membership x' r)" "answers r (fail_pending x' r)" "answers r (fail_reads x' r)" "answers r (resolveMembership M r)"
  "answers r (r\<lparr>rtPending := p\<rparr>)" "answers r (r\<lparr>rtReads := q\<rparr>)" "answers r (r\<lparr>rtMembership := ms\<rparr>)" "answers r (r\<lparr>rtNextRead := i\<rparr>)"
  by (simp_all add: answers_def rt_frame_def reply_to_def reply_all_def answer_pending_def logDroppedAppend_def fail_membership_def
      fail_pending_def fail_reads_def resolveMembership_def Let_def split: option.split)

lemma answers_fail_waiting [simp]: "answers r (fail_waiting x r)"
  unfolding fail_waiting_def by (meson answers_steps(5-7) answers_trans)


section \<open>The contract of the state machine\<close>

locale state_machine =
  fixes M :: "'m StateMachine" and sound :: "'m \<Rightarrow> bool"
  assumes apply_next: "\<And>m i cmd m'. sound m \<Longrightarrow> i = smAppliedIndex M m + 1 \<Longrightarrow> i \<noteq> 0 \<Longrightarrow> smApply M m i cmd = (m', Inr ()) \<Longrightarrow>
      sound m' \<and> smAppliedIndex M m' = i"
    and restore_to: "\<And>m i sz data m'. sound m \<Longrightarrow> smRestoreSnapshot M m i sz data = (m', Inr ()) \<Longrightarrow> sound m' \<and> smAppliedIndex M m' = i"
begin

definition at_index :: "('s, 'm) Runtime \<Rightarrow> u64 \<Rightarrow> bool" where
  "at_index r k \<longleftrightarrow> sound (rtMachine r) \<and> smAppliedIndex M (rtMachine r) = k"

lemma at_index_answers: "answers r r' \<Longrightarrow> at_index r' k = at_index r k"
  by (simp add: at_index_def answers_def)

text \<open>Entries that continue where the machine is are all applied, in order, or one of them fails.\<close>

lemma apply_committed_at:
  assumes "at_index r c" "contiguous (unat c) es" "unat k = unat c + length es" "\<forall>e \<in> set es. \<exists>x. decodeMembership (eData e) = Inr x"
    and "apply_committed M r es = (r', res)"
  shows "(res = Inr () \<longrightarrow> at_index r' k) \<and> (\<forall>e. res = Inl e \<longrightarrow> io_error S M e) \<and> rt_frame r r' \<and>
    rtNode r' = rtNode r \<and> rtStore r' = rtStore r \<and> rtOutgoing r' = rtOutgoing r"
  using assms
proof (induction es arbitrary: r c)
  case Nil
  then have "k = c" by (simp add: word_unat_eq_iff)
  with Nil show ?case by auto
next
  case (Cons e es)
  have c: "sound (rtMachine r)" "smAppliedIndex M (rtMachine r) = c" using Cons.prems(1) by (simp_all add: at_index_def)
  have "unat c + 1 < 2 ^ 64" using Cons.prems(3) unat_u64_less [of k] by simp
  then have inc: "unat (c + 1) = unat c + 1" by (intro unat_inc_u64) simp
  have idx: "eIndex e = c + 1" using Cons.prems(2) by (simp add: contiguous_Cons word_unat_eq_iff inc)
  have neq: "\<not> eIndex e \<le> c" "eIndex e \<noteq> 0" using inc by (auto simp: idx word_le_nat_alt word_unat_eq_iff)
  obtain b where b: "IsMembershipEntry (eData e) = (b, None)"
    using IsMembershipEntry_decodes Cons.prems(4) by (meson list.set_intros(1))
  obtain m a where a: "smApply M (rtMachine r) (eIndex e) (if b then [] else eData e) = (m, a)" by fastforce
  show ?case
  proof (cases a)
    case (Inl x)
    then have "snd (smApply M (rtMachine r) (eIndex e) (if b then [] else eData e)) = Inl x" by (simp add: a)
    then have "io_error S M (wrap ''apply committed entry'' x)" by (rule io_error.intros)
    moreover have "r' = r\<lparr>rtMachine := m\<rparr>" "res = Inl (wrap ''apply committed entry'' x)"
      using Cons.prems(5) a Inl neq(1) idx b by (simp_all add: c Let_def)
    ultimately show ?thesis by (simp add: rt_frame_def)
  next
    case (Inr y)
    define r1 where "r1 = answer_pending e (r\<lparr>rtMachine := m\<rparr>)"
    have an: "answers (r\<lparr>rtMachine := m\<rparr>) r1" by (simp add: r1_def)
    have "at_index (r\<lparr>rtMachine := m\<rparr>) (c + 1)"
      using apply_next [OF c(1) _ neq(2), of _ m] a Inr idx c(2) by (simp add: at_index_def)
    then have at: "at_index r1 (c + 1)" using at_index_answers [OF an] by simp
    have run: "apply_committed M r1 es = (r', res)"
      using Cons.prems(5) a Inr neq(1) idx b by (simp add: c Let_def r1_def)
    have "contiguous (unat (c + 1)) es" "unat k = unat (c + 1) + length es"
      using Cons.prems(2,3) inc by (simp_all add: contiguous_Cons)
    from Cons.IH [OF at this _ run] Cons.prems(4) an show ?thesis
      by (auto simp: answers_def rt_frame_def)
  qed
qed

lemma rt_restore_at:
  assumes "at_index r c" "uSnapshot u = Some s" "rt_restore S M r u = (r', res)"
  shows "(res = Inr () \<longrightarrow> at_index r' (max c (sIndex s))) \<and> (\<forall>e. res = Inl e \<longrightarrow> io_error S M e) \<and> rt_frame r r' \<and>
    rtNode r' = rtNode r \<and> rtStore r' = rtStore r \<and> rtOutgoing r' = rtOutgoing r"
proof (cases "c < sIndex s")
  case False
  then have "max c (sIndex s) = c" by (simp add: max_def)
  with False assms show ?thesis by (auto simp: rt_restore_def at_index_def)
next
  case True
  then have mx: "max c (sIndex s) = sIndex s" by (intro max_absorb2 less_imp_le)
  have c: "sound (rtMachine r)" "smAppliedIndex M (rtMachine r) = c" using assms(1) by (simp_all add: at_index_def)
  show ?thesis
  proof (cases "ssOpenSnapshot S (rtStore r) (sIndex s)")
    case (Inl x)
    then have "io_error S M (wrap ''open state snapshot'' x)" by (rule io_error.intros)
    then show ?thesis using assms(2,3) True Inl by (auto simp: rt_restore_def c)
  next
    case (Inr v)
    obtain data sz z where v: "v = (data, sz, z)" by (metis prod_cases3)
    obtain m a where a: "smRestoreSnapshot M (rtMachine r) (sIndex s) sz data = (m, a)" by fastforce
    show ?thesis
    proof (cases a)
      case (Inl x)
      have "snd (smRestoreSnapshot M (rtMachine r) (sIndex s) sz data) = Inl x" by (simp add: a Inl)
      then have "io_error S M (wrap ''restore state snapshot'' x)" by (rule io_error.intros)
      then show ?thesis using assms(2,3) True Inr Inl a by (auto simp: rt_restore_def c v rt_frame_def)
    next
      case ok: (Inr y)
      have "sound m \<and> smAppliedIndex M m = sIndex s" using restore_to [OF c(1), of "sIndex s" sz data m] a ok by simp
      then show ?thesis using assms(2,3) True Inr ok a mx by (auto simp: rt_restore_def c v rt_frame_def at_index_def)
    qed
  qed
qed

lemma take_snapshot_at:
  assumes "wf_node (rtNode r)" "at_index r k" "k \<le> nCommit (rtNode r)" "take_snapshot S M r = (r', res)"
  shows "(res = Inr () \<longrightarrow> at_index r' k \<and> wf_node (rtNode r')) \<and> (\<forall>e. res = Inl e \<longrightarrow> io_error S M e) \<and> rt_frame r r' \<and>
    nCommit (rtNode r') = nCommit (rtNode r) \<and> nTerm (rtNode r') = nTerm (rtNode r) \<and> lastN (rtNode r') = lastN (rtNode r) \<and>
    rtOutgoing r' = rtOutgoing r"
proof (cases "rtSnapshotThreshold r \<noteq> 0 \<and> k > sIndex (nSnap (rtNode r)) \<and> k - sIndex (nSnap (rtNode r)) \<ge> rtSnapshotThreshold r")
  case False
  then show ?thesis using assms by (auto simp: take_snapshot_def Let_def raft_Status_def at_index_def split: if_splits)
next
  case True
  obtain n u where n: "raft_CreateSnapshot (rtNode r) k [] = Inr (n, Inr u)" "evolves (rtNode r) u n" "nCommit n = nCommit (rtNode r)"
    "nTerm n = nTerm (rtNode r)" "lastN n = lastN (rtNode r)"
    using raft_CreateSnapshot_works [OF assms(1) _ assms(3)] True by blast
  have k: "smAppliedIndex M (rtMachine r) = k" using assms(2) by (simp add: at_index_def)
  obtain st a where a: "ssPersistSnapshot S (rtStore r) u (snapshot_writer M (rtMachine r) k) = (st, a)" by fastforce
  show ?thesis
  proof (cases a)
    case (Inl x)
    have "snd (ssPersistSnapshot S (rtStore r) u (snapshot_writer M (rtMachine r) k)) = Inl x" by (simp add: a Inl)
    then have "io_error S M (wrap ''persist raft snapshot'' x)" by (rule io_error.intros(6))
    then show ?thesis using assms(4) True n a Inl by (auto simp: take_snapshot_def k raft_Status_def Let_def rt_frame_def)
  next
    case (Inr y)
    have "wf_node n" by (rule evolvesD(1) [OF n(2)])
    then show ?thesis
      using assms(2,4) True n a Inr by (auto simp: take_snapshot_def k raft_Status_def Let_def rt_frame_def at_index_def)
  qed
qed

end


section \<open>Iterations\<close>

text \<open>The outcome of processing an update: the machine is where the update takes it, the node moved at most its snapshot.\<close>

definition same_place :: "Node \<Rightarrow> Node \<Rightarrow> bool" where
  "same_place n n' \<longleftrightarrow> nCommit n' = nCommit n \<and> nTerm n' = nTerm n \<and> lastN n' = lastN n"

lemma same_place_refl [simp]: "same_place n n"
  by (simp add: same_place_def)

context state_machine
begin

definition reaches :: "'s StableStore \<Rightarrow> ('s, 'm) Runtime \<Rightarrow> u64 \<Rightarrow> ('s, 'm) rt_call \<Rightarrow> bool" where
  "reaches S r k c \<longleftrightarrow> (case c of (r', res) \<Rightarrow> rt_frame r r' \<and> same_place (rtNode r) (rtNode r') \<and>
     (res = Inr () \<longrightarrow> at_index r' k \<and> wf_node (rtNode r')) \<and> (\<forall>e. res = Inl e \<longrightarrow> io_error S M e))"

lemma processUpdate_reaches:
  assumes "wf_node (rtNode r)" "at_index r c" "due u c k" "k \<le> nCommit (rtNode r)"
  shows "reaches S r k (processUpdateWithSnapshot S M r u data)"
proof -
  obtain r1 p where p: "rt_persist S r u data = (r1, p)" by fastforce
  have p1: "rt_frame r r1 \<and> rtNode r1 = rtNode r \<and> rtMachine r1 = rtMachine r \<and> (\<forall>e. p = Inl e \<longrightarrow> io_error S M e)"
    using p by (auto simp: rt_persist_def rt_frame_def logDroppedAppend_def io_persist split: prod.splits sum.splits if_splits)
  then have at1: "at_index r1 c" using assms(2) by (simp add: at_index_def)
  show ?thesis
  proof (cases p)
    case (Inl e)
    then show ?thesis using p1 by (simp add: processUpdateWithSnapshot_def p reaches_def)
  next
    case ok1: (Inr x)
    obtain r2 q where q: "rt_restore S M r1 u = (r2, q)" by fastforce
    define c2 where "c2 = (case uSnapshot u of None \<Rightarrow> c | Some s \<Rightarrow> max c (sIndex s))"
    have q2: "(q = Inr () \<longrightarrow> at_index r2 c2) \<and> (\<forall>e. q = Inl e \<longrightarrow> io_error S M e) \<and> rt_frame r1 r2 \<and> rtNode r2 = rtNode r1"
      using rt_restore_at [OF at1 _ q] q at1 by (cases "uSnapshot u") (auto simp: c2_def rt_restore_def)
    have fr2: "rt_frame r r2" "rtNode r2 = rtNode r" using p1 q2 by (auto intro: rt_frame_trans)
    show ?thesis
    proof (cases q)
      case (Inl e)
      then show ?thesis using q2 fr2 by (simp add: processUpdateWithSnapshot_def p ok1 q reaches_def)
    next
      case ok2: (Inr y)
      define r2' where "r2' = r2\<lparr>rtOutgoing := rtOutgoing r2 @ uMessages u\<rparr>"
      have at2: "at_index r2' c2" "rt_frame r2 r2'" "rtNode r2' = rtNode r2" using q2 ok2 by (simp_all add: r2'_def at_index_def rt_frame_def)
      have com: "contiguous (unat c2) (uCommitted u)" "unat k = unat c2 + length (uCommitted u)"
        "\<forall>e \<in> set (uCommitted u). \<exists>x. decodeMembership (eData e) = Inr x"
        using assms(3) by (auto simp: due_def c2_def contiguous_def split: option.splits)
      obtain r3 a where a: "apply_committed M r2' (uCommitted u) = (r3, a)" by fastforce
      note a3 = apply_committed_at [OF at2(1) com a, of S]
      have fr3: "rt_frame r r3" "rtNode r3 = rtNode r" using a3 at2 fr2 by (auto intro: rt_frame_trans)
      show ?thesis
      proof (cases a)
        case (Inl e)
        then show ?thesis using a3 fr3 by (simp add: processUpdateWithSnapshot_def p ok1 q ok2 a reaches_def flip: r2'_def)
      next
        case ok3: (Inr z)
        obtain r4 t where t: "take_snapshot S M r3 = (r4, t)" by fastforce
        have "wf_node (rtNode r3)" "at_index r3 k" "k \<le> nCommit (rtNode r3)" using assms(1,4) fr3 a3 ok3 by simp_all
        note t4 = take_snapshot_at [OF this t]
        have fr4: "rt_frame r r4" "same_place (rtNode r) (rtNode r4)" using t4 fr3 by (auto simp: same_place_def intro: rt_frame_trans)
        show ?thesis
        proof (cases t)
          case (Inl e)
          then show ?thesis using t4 fr4 by (simp add: processUpdateWithSnapshot_def p ok1 q ok2 a ok3 t reaches_def flip: r2'_def)
        next
          case ok4: (Inr w)
          define r5 where "r5 = resolveMembership M r4"
          define r6 where "r6 = (if uRoleChanged u \<and> stRole (raft_Status (rtNode r5)) \<noteq> Leader then fail_waiting ErrNotLeader r5 else r5)"
          have an: "answers r4 r6"
            using answers_trans [of r4 r5 r6] by (auto simp: r5_def r6_def)
          have "processUpdateWithSnapshot S M r u data = (r6, Inr ())"
            by (simp add: processUpdateWithSnapshot_def p ok1 q ok2 a ok3 t ok4 r6_def r5_def Let_def flip: r2'_def)
          then show ?thesis
            using t4 fr4 ok4 an at_index_answers [OF an] by (auto simp: reaches_def answers_def intro: rt_frame_trans)
        qed
      qed
    qed
  qed
qed

end


section \<open>Draining the queue\<close>

text \<open>Draining splits the events it reads between the batch and the others and loses none.\<close>

lemma drain_proposals_split:
  "drain_proposals left batch sz others queue = (batch', others', queue') \<Longrightarrow>
   \<exists>ps. batch' = batch @ ps \<and> mset (map (\<lambda>(d, c). ProposalEvent d c) ps) + mset others' + mset queue' = mset others + mset queue"
proof (induction left arbitrary: batch sz others queue)
  case (Suc left)
  show ?case
  proof (cases "(length batch < maxBatchEntries \<and> sz < maxBatchBytes) \<and> queue \<noteq> []")
    case True
    then obtain ev q where q: "queue = ev # q" by (cases queue) auto
    have skip: ?thesis if "drain_proposals left batch sz (others @ [ev]) q = (batch', others', queue')"
      using Suc.IH [OF that] by (auto simp: q)
    show ?thesis
    proof (cases ev)
      case (ProposalEvent d c)
      show ?thesis
      proof (cases "sz + proposalBytes d > maxBatchBytes")
        case False
        then obtain ps where "batch' = (batch @ [(d, c)]) @ ps"
          "mset (map (\<lambda>(d, c). ProposalEvent d c) ps) + mset others' + mset queue' = mset others + mset q"
          using Suc.IH [of "batch @ [(d, c)]" "sz + proposalBytes d" others q] Suc.prems True by (auto simp: q ProposalEvent)
        then show ?thesis by (intro exI [of _ "(d, c) # ps"]) (simp add: q ProposalEvent)
      qed (use Suc.prems True in \<open>auto simp: q ProposalEvent\<close>)
    qed (use skip Suc.prems True in \<open>auto simp: q\<close>)
  qed (use Suc.prems in \<open>auto split: if_splits\<close>)
qed auto

lemma drain_reads_split:
  "drain_reads left reads others queue = (reads', others', queue') \<Longrightarrow>
   \<exists>cs. reads' = reads @ cs \<and> mset (map ReadEvent cs) + mset others' + mset queue' = mset others + mset queue"
proof (induction left arbitrary: reads others queue)
  case (Suc left)
  show ?case
  proof (cases queue)
    case (Cons ev q)
    have skip: ?thesis if "drain_reads left reads (others @ [ev]) q = (reads', others', queue')"
      using Suc.IH [OF that] by (auto simp: Cons)
    show ?thesis
    proof (cases ev)
      case (ReadEvent c)
      then obtain cs where "reads' = (reads @ [c]) @ cs" "mset (map ReadEvent cs) + mset others' + mset queue' = mset others + mset q"
        using Suc.IH [of "reads @ [c]" others q] Suc.prems Cons by auto
      then show ?thesis by (intro exI [of _ "c # cs"]) (simp add: Cons ReadEvent)
    qed (use skip Suc.prems in \<open>auto simp: Cons\<close>)
  qed (use Suc.prems in auto)
qed auto

lemma take_reads_split: "take_reads es = (cs, rest) \<Longrightarrow> es = map ReadEvent cs @ rest"
  by (induction es arbitrary: cs rule: take_reads.induct) (auto split: prod.splits)

lemma drain_appends_split:
  "drain_appends left sender grp entries sz others queue = (grp', others', queue') \<Longrightarrow>
   \<exists>ms. grp' = grp @ ms \<and> (\<forall>(m, c) \<in> set ms. msgType m = MsgAppend \<and> msgFrom m = sender) \<and>
     mset (map (\<lambda>(m, c). MessageEvent m None c) ms) + mset others' + mset queue' = mset others + mset queue"
proof (induction left arbitrary: grp entries sz others queue)
  case (Suc left)
  show ?case
  proof (cases "(entries < maxBatchEntries \<and> sz < maxBatchBytes) \<and> queue \<noteq> []")
    case True
    then obtain ev q where q: "queue = ev # q" by (cases queue) auto
    have skip: ?thesis if "drain_appends left sender grp entries sz (others @ [ev]) q = (grp', others', queue')"
      using Suc.IH [OF that] by (auto simp: q)
    show ?thesis
    proof (cases ev)
      case (MessageEvent m data c)
      show ?thesis
      proof (cases "data = None \<and> msgType m = MsgAppend \<and> msgFrom m = sender")
        case app: True
        obtain count bytes where l: "appendLoad m = (count, bytes)" by fastforce
        show ?thesis
        proof (cases "entries + count > maxBatchEntries \<or> sz + bytes > maxBatchBytes")
          case False
          then have "drain_appends left sender (grp @ [(m, c)]) (entries + count) (sz + bytes) others q = (grp', others', queue')"
            using Suc.prems True app by (auto simp: q MessageEvent l)
          from Suc.IH [OF this] obtain ms where "grp' = (grp @ [(m, c)]) @ ms" "\<forall>(m, c) \<in> set ms. msgType m = MsgAppend \<and> msgFrom m = sender"
            "mset (map (\<lambda>(m, c). MessageEvent m None c) ms) + mset others' + mset queue' = mset others + mset q"
            by blast
          then show ?thesis using app by (intro exI [of _ "(m, c) # ms"]) (simp add: q MessageEvent)
        qed (use Suc.prems True app in \<open>auto simp: q MessageEvent l\<close>)
      qed (use skip Suc.prems True in \<open>auto simp: q MessageEvent split: option.splits\<close>)
    qed (use skip Suc.prems True in \<open>auto simp: q\<close>)
  qed (use Suc.prems in \<open>auto split: if_splits\<close>)
qed auto


section \<open>Room\<close>

text \<open>Terms and indices are far from the end of their range, and proposals are not membership entries.\<close>

fun event_load :: "event \<Rightarrow> nat" where
  "event_load (ProposalEvent data c) = 1"
| "event_load (MessageEvent m data c) = length (msgEntries m)"
| "event_load _ = 0"

fun event_fits :: "event \<Rightarrow> bool" where
  "event_fits (ProposalEvent data c) = (\<not> hasMembershipPrefix data)"
| "event_fits (MessageEvent m data c) = (msgTerm m + 1 \<noteq> 0 \<and> (case msgSnapshot m of None \<Rightarrow> True | Some s \<Rightarrow> unat (sIndex s) < 2 ^ 64 - 1))"
| "event_fits _ = True"

definition node_room :: "Node \<Rightarrow> event list \<Rightarrow> bool" where
  "node_room n es \<longleftrightarrow> nTerm n + 1 \<noteq> 0 \<and> lastN n + sum_list (map event_load es) + 2 < 2 ^ 64 - 1 \<and> list_all event_fits es"

definition rt_room :: "('s, 'm) Runtime \<Rightarrow> bool" where
  "rt_room r \<longleftrightarrow> node_room (rtNode r) (rtDeferred r @ rtEvents r)"

lemma node_room_mset:
  assumes "mset es \<subseteq># mset fs" "node_room n fs"
  shows "node_room n es"
proof -
  obtain gs where gs: "mset fs = mset es + gs" using assms(1) by (metis mset_subset_eq_exists_conv)
  have "sum_list (map event_load fs) = sum_list (map event_load es) + sum_mset (image_mset event_load gs)"
    using gs by (metis image_mset_union mset_map sum_mset.union sum_mset_sum_list)
  moreover have "set es \<subseteq> set fs" using assms(1) by (metis set_mset_mono set_mset_mset)
  ultimately show ?thesis using assms(2) by (auto simp: node_room_def list_all_iff)
qed

lemma node_room_place: "same_place n n' \<Longrightarrow> node_room n' es = node_room n es"
  by (simp add: node_room_def same_place_def)

lemma node_room_append:
  assumes "wf_node n" "node_room n (MessageEvent m None c # es)" "msgType m = MsgAppend" "raft_Step n m = Inr (n', u)"
  shows "evolves n u n'" "uSnapshot u = None" "node_room n' es"
proof -
  have ok: "call_ok n (CallStep m)" using assms(2) by (auto simp: node_room_def message_ok_def)
  note b = append_step_bound [OF assms(1) ok assms(3,4)]
  show "evolves n u n'" "uSnapshot u = None" by (rule b(1), rule b(2))
  show "node_room n' es" using assms(2) b(3,4) by (auto simp: node_room_def)
qed

lemma node_room_calls:
  "node_room n (MessageEvent m data c # es) \<Longrightarrow> call_ok n (CallStep m)"
  "node_room n es \<Longrightarrow> call_ok n CallTick" "node_room n es \<Longrightarrow> call_ok n (CallProposeMembership vs)"
  "node_room n (map (\<lambda>(d, c). ProposalEvent d c) batch) \<Longrightarrow> call_ok n (CallProposeBatch (map fst batch))"
proof -
  have "sum_list (map event_load (map (\<lambda>(d, c). ProposalEvent d c) batch)) = length batch"
    by (induction batch) auto
  then show "node_room n (map (\<lambda>(d, c). ProposalEvent d c) batch) \<Longrightarrow> call_ok n (CallProposeBatch (map fst batch))"
    by (auto simp: node_room_def list_all_iff simp del: map_map)
qed (auto simp: node_room_def message_ok_def)

section \<open>The handlers stay in step\<close>

context state_machine
begin

definition in_step :: "('s, 'm) Runtime \<Rightarrow> bool" where
  "in_step r \<longleftrightarrow> wf_node (rtNode r) \<and> at_index r (nCommit (rtNode r))"

definition stays :: "'s StableStore \<Rightarrow> ('s, 'm) Runtime \<Rightarrow> ('s, 'm) rt_call \<Rightarrow> bool" where
  "stays S r c \<longleftrightarrow> (case c of (r', res) \<Rightarrow> rt_frame r r' \<and> (res = Inr () \<longrightarrow> in_step r') \<and> (\<forall>e. res = Inl e \<longrightarrow> io_error S M e))"

lemma in_step_answers: "answers r r' \<Longrightarrow> in_step r' = in_step r"
  by (simp add: in_step_def at_index_def answers_def)

lemma reaches_stays:
  assumes "reaches S r (nCommit (rtNode r)) c"
  shows "stays S r c"
  using assms by (auto simp: reaches_def stays_def in_step_def same_place_def)

lemma stays_answers:
  assumes "stays S r (r1, res)" "answers r1 r2"
  shows "stays S r (r2, res)"
  using assms in_step_answers [OF assms(2)] by (auto simp: stays_def answers_def intro: rt_frame_trans)

lemma stays_answered: "in_step r \<Longrightarrow> answers r r' \<Longrightarrow> stays S r (r', Inr ())"
  using in_step_answers [of r r'] by (simp add: stays_def answers_def)

lemma stays_messages: "stays S r c \<Longrightarrow> stays S r (answer_messages cs c)"
  using stays_answers [of S r "fst c" "snd c"] by (auto simp: answer_messages_def split: prod.splits)

text \<open>An update of the node, processed at once.\<close>

lemma call_stays:
  assumes "in_step r" "evolves (rtNode r) u n"
  shows "stays S r (processUpdateWithSnapshot S M (r\<lparr>rtNode := n\<rparr>) u data)"
proof -
  have wf: "wf_node (rtNode r)" "wf_node n" using assms evolvesD(1) by (auto simp: in_step_def)
  have at: "at_index (r\<lparr>rtNode := n\<rparr>) (nCommit (rtNode r))" using assms(1) by (simp add: in_step_def at_index_def)
  have "reaches S (r\<lparr>rtNode := n\<rparr>) (nCommit n) (processUpdateWithSnapshot S M (r\<lparr>rtNode := n\<rparr>) u data)"
    using wf(2) at due_evolves [OF wf(1) assms(2)] by (intro processUpdate_reaches) simp_all
  then have "stays S (r\<lparr>rtNode := n\<rparr>) (processUpdateWithSnapshot S M (r\<lparr>rtNode := n\<rparr>) u data)"
    by (intro reaches_stays) simp
  then show ?thesis by (auto simp: stays_def rt_frame_def)
qed

lemma idle_stays:
  assumes "in_step r" "evolves (rtNode r) no_update n" "answers (r\<lparr>rtNode := n\<rparr>) r'"
  shows "stays S r (r', Inr ())"
proof -
  have "nCommit n = nCommit (rtNode r)" using evolves_commit [OF assms(2)] by simp
  then have "in_step (r\<lparr>rtNode := n\<rparr>)" using assms(1) evolvesD(1) [OF assms(2)] by (simp add: in_step_def at_index_def)
  from stays_answered [OF this assms(3), of S] show ?thesis by (auto simp: stays_def rt_frame_def)
qed

lemma flush_appends_reaches:
  assumes "wf_node (rtNode r)" "at_index r c" "due merged c k" "k \<le> nCommit (rtNode r)" "waiting = [] \<Longrightarrow> merged = no_update"
  shows "reaches S r k (flush_appends S M r merged waiting)"
proof (cases "waiting = []")
  case True
  then have "k = c" using assms(3,5) due_idle [of no_update c k] by simp
  then show ?thesis using assms(1,2) True by (simp add: flush_appends_def reaches_def)
next
  case False
  have r: "reaches S r k (processUpdate S M r merged)"
    unfolding processUpdate_def by (rule processUpdate_reaches [OF assms(1-4)])
  obtain r1 x where p: "processUpdate S M r merged = (r1, x)" by fastforce
  have an: "answers r1 (reply_all waiting (MessageReply x) r1)" by simp
  show ?thesis
    using r False at_index_answers [OF an] an
    by (auto simp: flush_appends_def answer_messages_def p reaches_def answers_def intro: rt_frame_trans)
qed

lemma step_appends_stays:
  assumes "wf_node (rtNode r)" "at_index r c" "due merged c (nCommit (rtNode r))" "uSnapshot merged = None" "waiting = [] \<Longrightarrow> merged = no_update"
    and "node_room (rtNode r) (map (\<lambda>(m, c). MessageEvent m None c) grp)" "\<forall>(m, c) \<in> set grp. msgType m = MsgAppend"
  shows "stays S r (step_appends S M r merged waiting grp)"
  using assms
proof (induction grp arbitrary: r merged waiting c)
  case Nil
  then show ?case using flush_appends_reaches [OF Nil.prems(1-3) _ Nil.prems(5)] by (auto intro!: reaches_stays)
next
  case (Cons mc grp)
  obtain m ch where mc: "mc = (m, ch)" by fastforce
  have ok: "call_ok (rtNode r) (CallStep m)" using Cons.prems(6) node_room_calls(1) by (simp add: mc)
  obtain n u where nu: "raft_Step (rtNode r) m = Inr (n, u)"
    using raft_call_evolves [OF Cons.prems(1) ok] by (auto simp: returns_ex)
  have a: "evolves (rtNode r) u n" "uSnapshot u = None" "node_room n (map (\<lambda>(m, c). MessageEvent m None c) grp)"
    using node_room_append [OF Cons.prems(1) _ _ nu] Cons.prems(6,7) by (simp_all add: mc)
  have wf: "wf_node n" by (rule evolvesD(1) [OF a(1)])
  have d: "due u (nCommit (rtNode r)) (nCommit n)" by (rule due_evolves [OF Cons.prems(1) a(1)])
  have le: "nCommit (rtNode r) \<le> nCommit n" by (rule evolvesD(6) [OF a(1)])
  let ?r = "r\<lparr>rtNode := n\<rparr>"
  have at: "at_index ?r c" using Cons.prems(2) by (simp add: at_index_def)
  have fr: "rt_frame r ?r" by (simp add: rt_frame_def)
  show ?case
  proof (cases "uHard u = None \<and> uTruncateFrom u = 0 \<and> uSnapshot u = None \<and> \<not> uRoleChanged u")
    case True
    let ?m = "merged\<lparr>uEntries := uEntries merged @ uEntries u, uMessages := uMessages merged @ uMessages u, uCommitted := uCommitted merged @ uCommitted u\<rparr>"
    let ?r1 = "logDroppedAppend (uDropped u) ?r"
    have an: "answers ?r ?r1" by simp
    have "stays S ?r1 (step_appends S M ?r1 ?m (waiting @ [ch]) grp)"
      using wf at a(3) Cons.prems(4,7) due_join [OF Cons.prems(3) d Cons.prems(4) a(2)] at_index_answers [OF an]
      by (intro Cons.IH [of ?r1 c]) (auto simp: answersD(1) [OF an])
    then have "stays S r (step_appends S M ?r1 ?m (waiting @ [ch]) grp)"
      using an fr by (auto simp: stays_def answers_def intro: rt_frame_trans)
    then show ?thesis using True by (simp add: mc on_node_def nu)
  next
    case False
    have f: "reaches S ?r (nCommit (rtNode r)) (flush_appends S M ?r merged waiting)"
      using wf le by (intro flush_appends_reaches [OF _ at Cons.prems(3) _ Cons.prems(5)]) simp_all
    obtain r1 x where x: "flush_appends S M ?r merged waiting = (r1, x)" by fastforce
    show ?thesis
    proof (cases x)
      case (Inl e)
      have "stays S ?r (r1, Inl e)" using f by (simp add: x Inl reaches_def stays_def)
      from stays_messages [OF this, of "ch # map snd grp"] fr False show ?thesis
        by (auto simp: mc on_node_def nu or_fail_rest_def x Inl stays_def intro: rt_frame_trans)
    next
      case (Inr w)
      have s1: "rt_frame ?r r1" "same_place n (rtNode r1)" "at_index r1 (nCommit (rtNode r))" "wf_node (rtNode r1)"
        using f by (simp_all add: x Inr reaches_def)
      have p: "reaches S r1 (nCommit n) (processUpdate S M r1 u)"
        unfolding processUpdate_def using s1 by (intro processUpdate_reaches [OF s1(4,3) d]) (simp add: same_place_def)
      have same: "nCommit (rtNode r1) = nCommit n" using s1(2) by (simp add: same_place_def)
      then have st: "stays S r1 (answer_messages [ch] (processUpdate S M r1 u))"
        using p by (intro stays_messages reaches_stays) simp
      obtain r2 y where y: "answer_messages [ch] (processUpdate S M r1 u) = (r2, y)" by fastforce
      obtain r2' y' where y': "processUpdate S M r1 u = (r2', y')" by fastforce
      have fr2: "rt_frame r r2" using st s1(1) fr by (auto simp: stays_def y intro: rt_frame_trans)
      show ?thesis
      proof (cases y)
        case (Inl e)
        have "stays S r1 (r2, Inl e)" using st by (simp add: y Inl)
        from stays_messages [OF this, of "map snd grp"] s1(1) fr False show ?thesis
          by (auto simp: mc on_node_def nu or_fail_rest_def x Inr y Inl stays_def intro: rt_frame_trans)
      next
        case ok2: (Inr z)
        have in2: "in_step r2" using st by (simp add: stays_def y ok2)
        have an2: "answers r2' r2" using y y' by (auto simp: answer_messages_def split: if_splits)
        have "same_place (rtNode r1) (rtNode r2)" using p an2 by (simp add: y' reaches_def answers_def)
        then have room: "node_room (rtNode r2) (map (\<lambda>(m, c). MessageEvent m None c) grp)"
          using a(3) s1(2) node_room_place by blast
        have "stays S r2 (step_appends S M r2 no_update [] grp)"
          using in2 room Cons.prems(7) by (intro Cons.IH [of r2 "nCommit (rtNode r2)"]) (auto simp: in_step_def due_idle)
        then show ?thesis
          using False fr2 by (auto simp: mc on_node_def nu or_fail_rest_def x Inr y ok2 stays_def intro: rt_frame_trans)
      qed
    qed
  qed
qed

end


section \<open>The loop\<close>

lemma length_assigned: "length (assigned k ds) = length ds"
  by (induction k ds rule: assigned.induct) auto

lemma raft_ProposeBatch_step:
  assumes "wf_node n" "call_ok n (CallProposeBatch ds)"
  shows "\<exists>n' x. raft_ProposeBatch n ds = Inr (n', x) \<and> (case x of Inl e \<Rightarrow> n' = n
    | Inr (is, u) \<Rightarrow> evolves n u n' \<and> length is = length ds \<and> (uEntries u = [] \<longrightarrow> evolves n no_update n'))"
proof (cases "nRole n = Leader")
  case False
  then show ?thesis by (simp add: proposal_not_leader)
next
  case True
  have "room n (length ds + 1)" "\<forall>c \<in> set ds. \<not> hasMembershipPrefix c" using assms(2) by (simp_all add: list_all_iff)
  from returns_pair [OF raft_ProposeBatch_returns [OF assms(1) True this]]
  obtain n' "is" u es where r: "raft_ProposeBatch n ds = Inr (n', Inr (is, u))" "map unat is = assigned (lastN n) ds" "proposes n es u n'"
    by blast
  have len: "length is = length ds" using r(2) by (metis length_map length_assigned)
  have "evolves n no_update n'" if "uEntries u = []"
  proof -
    obtain n1 is1 es1 where p: "propose_loop n ds = (n1, is1, es1)" by (metis prod_cases3)
    have "es1 = []"
    proof (rule ccontr)
      assume "es1 \<noteq> []"
      then have "\<exists>v. uEntries u = es1 @ v"
        using r(1) True by (auto simp: raft_ProposeBatch_def p Let_def rbind_Inr_iff then_merge_def)
      then show False using that \<open>es1 \<noteq> []\<close> by simp
    qed
    then have "u = no_update" using r(1) True by (simp add: raft_ProposeBatch_def p)
    then show ?thesis using r(3) by (simp add: proposes_def)
  qed
  then show ?thesis using r len by (auto simp: proposes_def)
qed

context state_machine
begin

definition settles :: "'s StableStore \<Rightarrow> ('s, 'm) rt_call \<Rightarrow> bool" where
  "settles S c \<longleftrightarrow> (case c of (r', res) \<Rightarrow> \<not> rtCrashed r' \<and> (res = Inr () \<longrightarrow> rtDone r' \<or> in_step r') \<and> (\<forall>e. res = Inl e \<longrightarrow> io_error S M e))"

lemma stays_settles: "stays S r c \<Longrightarrow> \<not> rtCrashed r \<Longrightarrow> settles S c"
  by (auto simp: stays_def settles_def rt_frame_def)

lemma in_step_queue: "in_step (r\<lparr>rtEvents := es, rtDeferred := ds\<rparr>) = in_step r" "in_step (r\<lparr>rtEvents := es\<rparr>) = in_step r"
  "in_step (r\<lparr>rtDeferred := ds\<rparr>) = in_step r"
  by (simp_all add: in_step_def at_index_def)

lemma register_proposals_answers:
  "length is = length batch \<Longrightarrow> \<exists>r'. register_proposals r batch is = (r', Inr ()) \<and> answers r r'"
proof (induction batch arbitrary: r "is")
  case (Cons p batch)
  obtain data c i is' where [simp]: "p = (data, c)" "is = i # is'" using Cons.prems by (cases p; cases "is") auto
  define r1 where "r1 = (if i = 0 then reply_to c (failed_proposal 0 ErrEntryTooLarge) r else r\<lparr>rtPending := map_set i c (rtPending r)\<rparr>)"
  have an: "answers r r1" by (simp add: r1_def)
  have "register_proposals r (p # batch) is = register_proposals r1 batch is'" by (simp add: r1_def)
  moreover obtain r' where "register_proposals r1 batch is' = (r', Inr ())" "answers r1 r'"
    using Cons.IH [of is' r1] Cons.prems by auto
  ultimately show ?case using answers_trans [OF an] by auto
qed simp

lemma proposeBatch_stays:
  assumes "in_step r" "node_room (rtNode r) (map (\<lambda>(d, c). ProposalEvent d c) batch)"
  shows "stays S r (proposeBatch S M r batch)"
proof -
  have wf: "wf_node (rtNode r)" using assms(1) by (simp add: in_step_def)
  obtain n x where x: "raft_ProposeBatch (rtNode r) (map fst batch) = Inr (n, x)" "case x of Inl e \<Rightarrow> n = rtNode r
    | Inr (is, u) \<Rightarrow> evolves (rtNode r) u n \<and> length is = length (map fst batch) \<and> (uEntries u = [] \<longrightarrow> evolves (rtNode r) no_update n)"
    using raft_ProposeBatch_step [OF wf node_room_calls(4) [OF assms(2)]] by blast
  show ?thesis
  proof (cases x)
    case (Inl e)
    then show ?thesis using x assms(1) by (simp add: proposeBatch_def on_node_def stays_answered)
  next
    case (Inr y)
    obtain "is" u where y: "y = (is, u)" by fastforce
    have nu: "evolves (rtNode r) u n" "length is = length batch" "uEntries u = [] \<Longrightarrow> evolves (rtNode r) no_update n"
      using x(2) by (simp_all add: Inr y)
    obtain r1 where r1: "register_proposals (r\<lparr>rtNode := n\<rparr>) batch is = (r1, Inr ())" "answers (r\<lparr>rtNode := n\<rparr>) r1"
      using register_proposals_answers [OF nu(2)] by blast
    define r2 where "r2 = r1\<lparr>rtNode := rtNode r\<rparr>"
    have r2: "in_step r2" "r1 = r2\<lparr>rtNode := n\<rparr>" "rt_frame r r2"
      using assms(1) r1(2) by (auto simp: r2_def in_step_def at_index_def answers_def rt_frame_def)
    show ?thesis
    proof (cases "uEntries u = []")
      case True
      have "stays S r (r1, Inr ())" using r1(2) nu(3) [OF True] assms(1) by (intro idle_stays [of r n])
      then show ?thesis using True by (simp add: proposeBatch_def on_node_def x Inr y r1)
    next
      case False
      have "stays S r2 (processUpdate S M r1 u)"
        unfolding processUpdate_def r2(2) using r2(1) nu(1) by (intro call_stays) (simp_all add: r2_def)
      then show ?thesis
        using False r2(3) by (auto simp: proposeBatch_def on_node_def x Inr y r1(1) stays_def intro: rt_frame_trans)
    qed
  qed
qed

lemma handle_proposal_settles:
  assumes "in_step r" "\<not> rtCrashed r" "node_room (rtNode r) (ProposalEvent (fst p) (snd p) # rtDeferred r @ rtEvents r)"
  shows "settles S (handle_proposal S M r p)"
proof (cases "rtDeferred r = []")
  case True
  obtain batch others queue where d: "drain_proposals (rtCap r) [p] (proposalBytes (fst p)) [] (rtEvents r) = (batch, others, queue)"
    by (metis prod_cases3)
  obtain ps where ps: "batch = [p] @ ps" "mset (map (\<lambda>(d, c). ProposalEvent d c) ps) + mset others + mset queue = mset (rtEvents r)"
    using drain_proposals_split [OF d] by auto
  have "node_room (rtNode r) (map (\<lambda>(d, c). ProposalEvent d c) batch)"
    using ps True by (intro node_room_mset [OF _ assms(3)]) (auto simp: case_prod_beta mset_subset_eq_add_left simp flip: ps(2))
  then show ?thesis
    using assms(1,2) True
    by (simp add: handle_proposal_def drainProposals_def d proposeBatch_stays [THEN stays_settles] in_step_queue)
next
  case False
  have "node_room (rtNode r) (map (\<lambda>(d, c). ProposalEvent d c) [p])"
    by (rule node_room_mset [OF _ assms(3)]) (simp add: case_prod_beta)
  then show ?thesis using assms(1,2) False by (simp add: handle_proposal_def proposeBatch_stays [THEN stays_settles])
qed

end


text \<open>A membership change that is already committed when it returns is one that changes nothing.\<close>

lemma raft_ProposeMembership_step:
  assumes "wf_node n" "room n 2"
  shows "\<exists>n' x. raft_ProposeMembership n vs = Inr (n', x) \<and> (case x of Inl e \<Rightarrow> n' = n
    | Inr (i, u) \<Rightarrow> evolves n u n' \<and> (i \<le> nCommit n' \<longrightarrow> n' = n))"
proof (cases "nRole n = Leader")
  case False
  then show ?thesis by (simp add: proposal_not_leader)
next
  case True
  from returns_pair [OF raft_ProposeMembership_returns [OF assms(1) True assms(2), of vs]]
  obtain n' x where x: "raft_ProposeMembership n vs = Inr (n', x)" "case x of Inl e \<Rightarrow> n' = n
    | Inr (i, u) \<Rightarrow> JointVoters (nMembership n) = [] \<and> mbIndex (nMembership n) \<le> nCommit n \<and>
        (\<exists>ws. normalizeVoters vs = Inr ws \<and> (ws = Voters (nMembership n) \<and> n' = n \<and> u = no_update \<or>
          (\<exists>e. unat i = lastN n + 2 \<and> eTerm e = nTerm n \<and> unat (eIndex e) = lastN n + 1 \<and>
             decodeMembership (eData e) = Inr (Some \<lparr>cPhase = configJoint, cOld = Voters (nMembership n), cNew = ws\<rparr>) \<and>
             proposes n [e] u n')))"
    by blast
  show ?thesis
  proof (cases x)
    case (Inr y)
    obtain i u where y: "y = (i, u)" by fastforce
    have "n' = n \<and> u = no_update \<or> unat i = lastN n + 2 \<and> (\<exists>e. proposes n [e] u n')" using x(2) by (auto simp: Inr y)
    then show ?thesis
      using x(1) evolves_idle [OF assms(1)] by (auto simp: Inr y proposes_def word_le_nat_alt)
  qed (use x in simp)
qed

context state_machine
begin

lemma handle_membership_stays:
  assumes "in_step r" "node_room (rtNode r) es"
  shows "stays S r (handle_membership S M r voters c)"
proof -
  have wf: "wf_node (rtNode r)" "room (rtNode r) 2" using assms by (simp_all add: in_step_def node_room_def)
  obtain n x where x: "raft_ProposeMembership (rtNode r) voters = Inr (n, x)" "case x of Inl e \<Rightarrow> n = rtNode r
    | Inr (i, u) \<Rightarrow> evolves (rtNode r) u n \<and> (i \<le> nCommit n \<longrightarrow> n = rtNode r)"
    using raft_ProposeMembership_step [OF wf] by blast
  show ?thesis
  proof (cases x)
    case (Inl e)
    then show ?thesis using x assms(1) by (simp add: handle_membership_def on_node_def stays_answered)
  next
    case (Inr y)
    obtain i u where y: "y = (i, u)" by fastforce
    show ?thesis
    proof (cases "i \<le> nCommit n")
      case True
      then show ?thesis using x assms(1) by (simp add: handle_membership_def on_node_def Inr y raft_Status_def stays_answered)
    next
      case False
      let ?r = "r\<lparr>rtMembership := Some \<lparr>pmVoters = voters, pmResult = c\<rparr>\<rparr>"
      have "stays S ?r (processUpdateWithSnapshot S M (?r\<lparr>rtNode := n\<rparr>) u None)"
        using assms(1) x(2) in_step_answers [of r ?r] by (intro call_stays) (auto simp: Inr y)
      moreover have "?r\<lparr>rtNode := n\<rparr> = r\<lparr>rtNode := n, rtMembership := Some \<lparr>pmVoters = voters, pmResult = c\<rparr>\<rparr>" by simp
      ultimately have "stays S ?r (handle_membership S M r voters c)"
        using False by (simp add: handle_membership_def on_node_def x(1) Inr y raft_Status_def processUpdate_def)
      then show ?thesis by (auto simp: stays_def rt_frame_def)
    qed
  qed
qed

lemma rt_bind_stays:
  assumes "stays S r c" "\<And>r'. in_step r' \<Longrightarrow> answers r' (f r')"
  shows "stays S r (rt_bind c (\<lambda>r. (f r, Inr ())))"
proof -
  obtain r1 x where c: "c = (r1, x)" by fastforce
  show ?thesis
  proof (cases x)
    case (Inr y)
    then have "in_step r1" using assms(1) by (simp add: c stays_def)
    then have "answers r1 (f r1)" by (rule assms(2))
    then show ?thesis using assms(1) stays_answers [of S r r1 "Inr ()" "f r1"] by (simp add: c Inr)
  qed (use assms(1) in \<open>simp add: c\<close>)
qed

lemma acknowledgeRead_answers: "answers r (acknowledgeRead M r m)"
  by (auto simp: acknowledgeRead_def Let_def answers_def rt_frame_def reply_all_def split: option.splits)

lemma handle_message_settles:
  assumes "in_step r" "\<not> rtCrashed r" "node_room (rtNode r) (MessageEvent m data c # rtDeferred r @ rtEvents r)"
  shows "settles S (handle_message S M r m data c)"
proof (cases "msgType m = MsgAppend \<and> data = None \<and> rtDeferred r = []")
  case True
  obtain entries bytes where l: "appendLoad m = (entries, bytes)" by fastforce
  obtain grp others queue where d: "drain_appends (rtCap r) (msgFrom m) [(m, c)] entries bytes [] (rtEvents r) = (grp, others, queue)"
    by (metis prod_cases3)
  obtain ms where ms: "grp = [(m, c)] @ ms" "\<forall>(m', c) \<in> set ms. msgType m' = MsgAppend \<and> msgFrom m' = msgFrom m"
    "mset (map (\<lambda>(m, c). MessageEvent m None c) ms) + mset others + mset queue = mset (rtEvents r)"
    using drain_appends_split [OF d] by auto
  have room: "node_room (rtNode r) (map (\<lambda>(m, c). MessageEvent m None c) grp)"
    using ms(1) True by (intro node_room_mset [OF _ assms(3)]) (auto simp: mset_subset_eq_add_left simp flip: ms(3))
  let ?r = "r\<lparr>rtEvents := queue, rtDeferred := others\<rparr>"
  have "stays S ?r (step_appends S M ?r no_update [] grp)"
    using assms(1) room ms(1,2) True
    by (intro step_appends_stays [of ?r "nCommit (rtNode r)"]) (auto simp: in_step_def at_index_def due_idle)
  from stays_settles [OF this] show ?thesis using True assms(2) by (simp add: handle_message_def drainAppends_def l d stepAppends_def)
next
  case False
  have wf: "wf_node (rtNode r)" using assms(1) by (simp add: in_step_def)
  obtain n u where nu: "raft_Step (rtNode r) m = Inr (n, u)" "evolves (rtNode r) u n"
    using raft_call_evolves [OF wf node_room_calls(1) [OF assms(3)]] by (auto simp: returns_ex)
  let ?ack = "\<lambda>r. if msgType m = MsgAppendResponse \<and> \<not> msgReject m \<and> msgContext m \<noteq> 0 then acknowledgeRead M r m else r"
  have "stays S r (rt_bind (on_node r (raft_Step (rtNode r) m) (\<lambda>r u. processUpdateWithSnapshot S M r u data)) (\<lambda>r. (?ack r, Inr ())))"
    using call_stays [OF assms(1) nu(2)] by (intro rt_bind_stays) (auto simp: on_node_def nu(1) acknowledgeRead_answers)
  from stays_messages [OF this, of "[c]"] show ?thesis
    using stays_settles assms(2) unfolding handle_message_def if_not_P [OF False] by blast
qed

lemma handle_read_settles:
  assumes "in_step r" "\<not> rtCrashed r"
  shows "settles S (handle_read S M r c)"
proof -
  obtain r1 reads where r1: "collectReads r c = (r1, reads)" by fastforce
  have in1: "in_step r1" "\<not> rtCrashed r1"
    using assms r1 by (auto simp: collectReads_def in_step_queue split: if_splits prod.splits)
  have wf: "wf_node (rtNode r1)" using in1(1) by (simp add: in_step_def)
  define i where "i = rtNextRead r1 + 1"
  let ?r = "r1\<lparr>rtNextRead := i\<rparr>"
  let ?read = "\<lparr>rdResults = reads, rdAcks = [stID (raft_Status (rtNode r1))]\<rparr>"
  have in2: "in_step ?r" using in1(1) in_step_answers [of r1 ?r] by simp
  obtain n x where x: "raft_ReadProbe (rtNode r1) i = Inr (n, x)" "case x of Inl e \<Rightarrow> n = rtNode r1 | Inr u \<Rightarrow> evolves (rtNode r1) u n"
    using returns_pair [OF raft_ReadProbe_returns [OF wf, of i]] by (fastforce simp: leads_def split: sum.splits)
  show ?thesis
  proof (cases x)
    case (Inl e)
    then show ?thesis
      using x stays_settles [OF stays_answered [OF in2, of "reply_all reads (failed_read e) ?r" S]] in1(2)
      by (simp add: handle_read_def r1 Let_def on_node_def i_def)
  next
    case (Inr u)
    let ?r2 = "?r\<lparr>rtReads := map_set i ?read (rtReads r1)\<rparr>"
    have "in_step ?r2" using in2 in_step_answers [of ?r ?r2] by simp
    then have st: "stays S ?r2 (processUpdateWithSnapshot S M (?r2\<lparr>rtNode := n\<rparr>) u None)"
      using x(2) by (intro call_stays) (simp_all add: Inr)
    let ?done = "\<lambda>r. if raft_HasQuorum (rtNode r) (set (rdAcks ?read))
      then (reply_all reads (read_index (stCommitIndex (raft_Status (rtNode r)))) r)\<lparr>rtReads := map_delete i (rtReads r)\<rparr> else r"
    have an: "answers r' (?done r')" for r'
      by (simp add: answers_def rt_frame_def reply_all_def)
    from stays_settles [OF rt_bind_stays [OF st an]] in1(2)
    have "settles S (rt_bind (processUpdateWithSnapshot S M (?r2\<lparr>rtNode := n\<rparr>) u None) (\<lambda>r. (?done r, Inr ())))" by simp
    moreover have "?r2\<lparr>rtNode := n\<rparr> = ?r\<lparr>rtNode := n, rtReads := map_set i ?read (rtReads r1)\<rparr>" by simp
    ultimately show ?thesis
      using x(1) unfolding i_def by (simp add: handle_read_def r1 Let_def on_node_def Inr processUpdate_def if_distrib [of "\<lambda>r. (r, Inr ())"] cong: if_cong)
  qed
qed

lemma rt_handle_settles:
  assumes "in_step r" "\<not> rtCrashed r" "node_room (rtNode r) (ev # rtDeferred r @ rtEvents r)"
  shows "settles S (rt_handle S M r ev)"
proof (cases ev)
  case (ProposalEvent data c)
  then show ?thesis using handle_proposal_settles [OF assms(1,2), of "(data, c)"] assms(3) by simp
next
  case (MembershipEvent voters c)
  then show ?thesis using stays_settles [OF handle_membership_stays [OF assms(1,3)] assms(2)] by simp
next
  case (MessageEvent m data c)
  then show ?thesis using handle_message_settles assms by simp
next
  case (StatusEvent c)
  then show ?thesis using stays_settles [OF stays_answered [OF assms(1)] assms(2)] by simp
next
  case (ReadEvent c)
  then show ?thesis using handle_read_settles [OF assms(1,2)] by simp
next
  case (StopEvent c)
  then show ?thesis using assms(2) by (auto simp: settles_def closeResources_def reply_to_def split: prod.split)
qed

lemma rt_tick_settles:
  assumes "in_step r" "\<not> rtCrashed r" "node_room (rtNode r) es"
  shows "settles S (on_node r (raft_Tick (rtNode r)) (processUpdate S M))"
proof -
  have wf: "wf_node (rtNode r)" using assms(1) by (simp add: in_step_def)
  obtain n u where nu: "raft_Tick (rtNode r) = Inr (n, u)" "evolves (rtNode r) u n"
    using raft_call_evolves [OF wf node_room_calls(2) [OF assms(3)]] by (auto simp: returns_ex)
  show ?thesis using stays_settles [OF call_stays [OF assms(1) nu(2), of S None] assms(2)] by (simp add: on_node_def nu(1) processUpdate_def)
qed

text \<open>A loop that runs is in step; one that crashed did so in the store or the machine.\<close>

definition loop_ok :: "'s StableStore \<Rightarrow> ('s, 'm) Runtime \<Rightarrow> bool" where
  "loop_ok S r \<longleftrightarrow> (rtCrashed r \<longrightarrow> io_error S M Panic) \<and> (rtDone r \<or> rtCrashed r \<or> in_step r)"

lemma finish_iteration_ok: "settles S c \<Longrightarrow> loop_ok S (finish_iteration S M c)"
  by (auto simp: settles_def finish_iteration_def loop_ok_def rt_fail_def closeResources_def fail_waiting_def fail_reads_def fail_pending_def
      fail_membership_def reply_to_def split: prod.splits sum.splits failure.splits option.splits)

end


text \<open>
  Runs of the loop: callers put requests into the queue whenever it has room, and the loop takes its
  iterations, with or without a tick, while counters are far from the end of their range.
\<close>

inductive rt_run :: "'s StableStore \<Rightarrow> 'm StateMachine \<Rightarrow> ('s, 'm) Runtime \<Rightarrow> ('s, 'm) Runtime \<Rightarrow> bool" for S M r where
  rt_start: "rt_run S M r r"
| rt_call: "rt_run S M r r1 \<Longrightarrow> submit r1 e w = Some (r2, x) \<Longrightarrow> rt_run S M r r2"
| rt_iterate: "rt_run S M r r1 \<Longrightarrow> rt_room r1 \<Longrightarrow> rt_next S M ticked r1 = Some r2 \<Longrightarrow> rt_run S M r r2"

lemma submit_cases:
  "submit r e w = Some (r', x) \<Longrightarrow> r' = r \<or> r' = r\<lparr>rtEvents := rtEvents r @ [e]\<rparr>"
  by (cases w) (auto split: if_splits)

lemma rt_next_cases:
  assumes "rt_next S M ticked r = Some r'"
  obtains ev rest where "rtDeferred r = ev # rest" "r' = finish_iteration S M (rt_handle S M (r\<lparr>rtDeferred := rest\<rparr>) ev)"
  | "rtDeferred r = []" "r' = finish_iteration S M (on_node r (raft_Tick (rtNode r)) (processUpdate S M))"
  | ev rest where "rtDeferred r = []" "rtEvents r = ev # rest" "r' = finish_iteration S M (rt_handle S M (r\<lparr>rtEvents := rest\<rparr>) ev)"
  using assms by (auto simp: rt_next_def rt_tick_def split: if_splits list.splits)

lemma rt_next_running: "rt_next S M ticked r = Some r' \<Longrightarrow> \<not> rtDone r \<and> \<not> rtCrashed r"
  by (auto simp: rt_next_def split: if_splits)

context state_machine
begin

lemma rt_next_ok:
  assumes "loop_ok S r" "rt_room r" "rt_next S M ticked r = Some r'"
  shows "loop_ok S r'"
proof -
  have run: "in_step r" "\<not> rtCrashed r" using assms(1) rt_next_running [OF assms(3)] by (auto simp: loop_ok_def)
  from assms(3) show ?thesis
  proof (cases rule: rt_next_cases)
    case (1 ev rest)
    have "settles S (rt_handle S M (r\<lparr>rtDeferred := rest\<rparr>) ev)"
      using run assms(2) 1(1) by (intro rt_handle_settles) (simp_all add: in_step_queue rt_room_def)
    then show ?thesis unfolding 1(2) by (rule finish_iteration_ok)
  next
    case 2
    have "settles S (on_node r (raft_Tick (rtNode r)) (processUpdate S M))"
      using assms(2) unfolding rt_room_def by (rule rt_tick_settles [OF run])
    then show ?thesis unfolding 2(2) by (rule finish_iteration_ok)
  next
    case (3 ev rest)
    have "settles S (rt_handle S M (r\<lparr>rtEvents := rest\<rparr>) ev)"
      using run assms(2) 3(1,2) by (intro rt_handle_settles) (simp_all add: in_step_queue rt_room_def)
    then show ?thesis unfolding 3(3) by (rule finish_iteration_ok)
  qed
qed

lemma rt_run_ok: "rt_run S M r r' \<Longrightarrow> loop_ok S r \<Longrightarrow> loop_ok S r'"
proof (induction rule: rt_run.induct)
  case (rt_call r1 e w r2 x)
  then show ?case using submit_cases [OF rt_call.hyps(2)] by (auto simp: loop_ok_def in_step_queue)
qed (auto intro: rt_next_ok)

end

end
