(* ===== verification/Kvstate.thy ===== *)
theory Kvstate
  imports Db_Snapshot Runtime_Inv
begin

text \<open>
  Package \<open>internal/kvstate\<close>: the state machine that the log of the cluster drives. A command writes one
  user key and the sequence number of the client that sent it, in one batch of the replica engine; user
  keys and sessions live under different prefixes. A command whose sequence number is not above the one
  of its client was applied before and changes nothing.

  The wire format of a command is generated code over the protobuf library and a parameter here: \<open>codec\<close>
  holds \<open>proto.Marshal\<close> and \<open>proto.Unmarshal\<close> for the message type. What is used of them is \<open>codec_ok\<close>.
\<close>

section \<open>Commands\<close>

record Command =
  cmdOperation :: int
  cmdKey :: bytes
  cmdValue :: bytes
  cmdClientId :: bytes
  cmdRequestSeq :: u64

definition OPERATION_PUT :: int where
  "OPERATION_PUT = 1"

definition OPERATION_DELETE :: int where
  "OPERATION_DELETE = 2"

record codec =
  proto_Marshal :: "Command \<Rightarrow> bytes result"
  proto_Unmarshal :: "bytes \<Rightarrow> Command result"

definition userPrefix :: bytes where
  "userPrefix = [1]"

definition sessionPrefix :: bytes where
  "sessionPrefix = 0 # asc ''session/''"

definition MaxKeyBytes :: nat where
  "MaxKeyBytes = 16 * 1024"

definition MaxValueBytes :: nat where
  "MaxValueBytes = 4 * 1024 * 1024"

definition EncodeCommand :: "codec \<Rightarrow> int \<Rightarrow> bytes \<Rightarrow> bytes \<Rightarrow> bytes \<Rightarrow> u64 \<Rightarrow> bytes result" where
  "EncodeCommand C operation key value clientID requestSeq =
     (if operation \<noteq> OPERATION_PUT \<and> operation \<noteq> OPERATION_DELETE then Inl (Err ''command operation must be put or delete'')
      else if key = [] \<or> length key > MaxKeyBytes then Inl (Err ''key length out of range'')
      else if length value > MaxValueBytes then Inl (Err ''value too large'')
      else if clientID = [] \<or> requestSeq = 0 then Inl (Err ''client ID and positive request sequence are required'')
      else proto_Marshal C \<lparr>cmdOperation = operation, cmdKey = key, cmdValue = value, cmdClientId = clientID, cmdRequestSeq = requestSeq\<rparr>)"

section \<open>The machine\<close>

record Machine =
  mDisk :: disk
  mDB :: DB

definition kv_Open :: "env \<Rightarrow> disk \<Rightarrow> string \<Rightarrow> Options option \<Rightarrow> disk \<times> Machine result" where
  "kv_Open env d path options =
     (let copy = (case options of None \<Rightarrow> DefaultOptions | Some opts \<Rightarrow> opts)\<lparr>optDurability := DurabilityReplica\<rparr>
      in case db_Open env d path (Some copy) of
           (d, Inl e) \<Rightarrow> (d, Inl e)
         | (d, Inr database) \<Rightarrow> (d, Inr \<lparr>mDisk = d, mDB = database\<rparr>))"

definition apply_batch :: "env \<Rightarrow> Machine \<Rightarrow> u64 \<Rightarrow> Mutation list \<Rightarrow> Machine \<times> unit result" where
  "apply_batch env m index ms =
     (case ApplyBatch env (mDisk m) (mDB m) index ms of (d, db, res) \<Rightarrow> (\<lparr>mDisk = d, mDB = db\<rparr>, res))"

definition command_mutations :: "Command \<Rightarrow> Mutation list" where
  "command_mutations c =
     [if cmdOperation c = OPERATION_DELETE
      then \<lparr>mutType = MutationDelete, mutKey = userPrefix @ cmdKey c, mutValue = []\<rparr>
      else \<lparr>mutType = MutationPut, mutKey = userPrefix @ cmdKey c, mutValue = cmdValue c\<rparr>,
      \<lparr>mutType = MutationPut, mutKey = sessionPrefix @ cmdClientId c, mutValue = putUint64 (cmdRequestSeq c)\<rparr>]"

text \<open>Whether the session of the client has seen the sequence number.\<close>

definition seen_request :: "bytes option \<Rightarrow> u64 \<Rightarrow> bool" where
  "seen_request raw s = (case raw of None \<Rightarrow> False | Some bs \<Rightarrow> length bs = 8 \<and> s \<le> getUint64 bs)"

definition kv_Apply :: "env \<Rightarrow> codec \<Rightarrow> Machine \<Rightarrow> u64 \<Rightarrow> bytes \<Rightarrow> Machine \<times> unit result" where
  "kv_Apply env C m index data =
     (if data = [] then apply_batch env m index []
      else case proto_Unmarshal C data of
             Inl e \<Rightarrow> (m, Inl (wrap ''decode state-machine command'' e))
           | Inr c \<Rightarrow>
               if cmdOperation c \<noteq> OPERATION_PUT \<and> cmdOperation c \<noteq> OPERATION_DELETE
               then (m, Inl (Err ''unsupported state-machine operation''))
               else if cmdClientId c = [] \<or> cmdRequestSeq c = 0
               then (m, Inl (Err ''committed command has invalid request identity''))
               else case db_Get (mDB m) (sessionPrefix @ cmdClientId c) of
                      (db, Inl e) \<Rightarrow> (m\<lparr>mDB := db\<rparr>, Inl e)
                    | (db, Inr raw) \<Rightarrow>
                        if seen_request raw (cmdRequestSeq c) then apply_batch env (m\<lparr>mDB := db\<rparr>) index []
                        else apply_batch env (m\<lparr>mDB := db\<rparr>) index (command_mutations c))"

definition kv_Get :: "Machine \<Rightarrow> bytes \<Rightarrow> Machine \<times> bytes option result" where
  "kv_Get m key =
     (if key = [] \<or> length key > MaxKeyBytes then (m, Inl (Err ''key length out of range''))
      else case db_Get (mDB m) (userPrefix @ key) of (db, res) \<Rightarrow> (m\<lparr>mDB := db\<rparr>, res))"

definition kv_WriteSnapshot :: "Machine \<Rightarrow> bytes list \<times> u64 result" where
  "kv_WriteSnapshot m = WriteReplicaSnapshot (mDB m)"

definition kv_Snapshot :: "Machine \<Rightarrow> (u64 \<times> bytes) result" where
  "kv_Snapshot m = (case kv_WriteSnapshot m of (chunks, res) \<Rightarrow> rbind res (\<lambda>index. Inr (index, concat chunks)))"

definition kv_RestoreSnapshot :: "env \<Rightarrow> Machine \<Rightarrow> u64 \<Rightarrow> u64 \<Rightarrow> bytes \<Rightarrow> Machine \<times> unit result" where
  "kv_RestoreSnapshot env m index sz reader =
     (case ReplaceReplicaSnapshot env (mDisk m) (mDB m) index sz reader of (d, db, res) \<Rightarrow> (\<lparr>mDisk = d, mDB = db\<rparr>, res))"

definition kv_Restore :: "env \<Rightarrow> Machine \<Rightarrow> u64 \<Rightarrow> bytes \<Rightarrow> Machine \<times> unit result" where
  "kv_Restore env m index data = kv_RestoreSnapshot env m index (word_of_nat (length data)) data"

definition kv_AppliedIndex :: "Machine \<Rightarrow> u64" where
  "kv_AppliedIndex m = AppliedIndex (mDB m)"

definition kv_DurableIndex :: "Machine \<Rightarrow> u64" where
  "kv_DurableIndex m = DurableIndex (mDB m)"

definition kv_Close :: "env \<Rightarrow> Machine \<Rightarrow> Machine \<times> unit result" where
  "kv_Close env m = (case db_Close env (mDisk m) (mDB m) of (d, db, res) \<Rightarrow> (\<lparr>mDisk = d, mDB = db\<rparr>, res))"

definition EngineStats :: "Machine \<Rightarrow> Stats" where
  "EngineStats m = db_Stats (mDB m)"

text \<open>The machine as the event loop sees it.\<close>

definition kv_machine :: "env \<Rightarrow> codec \<Rightarrow> Machine StateMachine" where
  "kv_machine env C = \<lparr>smApply = kv_Apply env C, smAppliedIndex = kv_AppliedIndex, smWriteSnapshot = kv_WriteSnapshot,
     smRestoreSnapshot = kv_RestoreSnapshot env, smClose = kv_Close env\<rparr>"

section \<open>Against the specification\<close>

text \<open>
  What the code relies on: decoding undoes encoding, no field is longer than its encoding, and an encoding is
  not empty and does not begin with a zero byte, since the format reserves field number zero.
\<close>

definition codec_ok :: "codec \<Rightarrow> bool" where
  "codec_ok C \<longleftrightarrow>
     (\<forall>c bs. proto_Marshal C c = Inr bs \<longrightarrow> proto_Unmarshal C bs = Inr c \<and> bs \<noteq> [] \<and> hd bs \<noteq> 0) \<and>
     (\<forall>bs c. proto_Unmarshal C bs = Inr c \<longrightarrow> length (cmdKey c) + length (cmdValue c) + length (cmdClientId c) \<le> length bs)"

text \<open>The specification: a map of the users, and the last sequence number of every client.\<close>

record KV =
  kvUser :: "bytes \<Rightarrow> bytes option"
  kvSeq :: "bytes \<Rightarrow> u64 option"

definition command_ok :: "Command \<Rightarrow> bool" where
  "command_ok c \<longleftrightarrow> cmdOperation c \<in> {OPERATION_PUT, OPERATION_DELETE} \<and> cmdClientId c \<noteq> [] \<and> cmdRequestSeq c \<noteq> 0"

definition kv_write :: "Command \<Rightarrow> KV \<Rightarrow> KV" where
  "kv_write c s = s\<lparr>kvUser := (kvUser s)(cmdKey c := (if cmdOperation c = OPERATION_DELETE then None else Some (cmdValue c))),
     kvSeq := (kvSeq s)(cmdClientId c := Some (cmdRequestSeq c))\<rparr>"

definition kv_seen :: "Command \<Rightarrow> KV \<Rightarrow> bool" where
  "kv_seen c s = (case kvSeq s (cmdClientId c) of None \<Rightarrow> False | Some n \<Rightarrow> cmdRequestSeq c \<le> n)"

definition kv_exec :: "Command \<Rightarrow> KV \<Rightarrow> KV" where
  "kv_exec c s = (if kv_seen c s then s else kv_write c s)"

text \<open>What a map of the engine says about users and clients.\<close>

definition kv_view :: "(bytes \<Rightarrow> bytes option) \<Rightarrow> KV" where
  "kv_view M = \<lparr>kvUser = (\<lambda>k. M (userPrefix @ k)),
     kvSeq = (\<lambda>c. case M (sessionPrefix @ c) of None \<Rightarrow> None | Some bs \<Rightarrow> if length bs = 8 then Some (getUint64 bs) else None)\<rparr>"

lemma prefix_neq [simp]: "userPrefix @ k \<noteq> sessionPrefix @ c" "sessionPrefix @ c \<noteq> userPrefix @ k"
  "userPrefix \<noteq> []" "sessionPrefix \<noteq> []"
  by (simp_all add: userPrefix_def sessionPrefix_def)

lemma seen_request_iff: "seen_request (M (sessionPrefix @ cmdClientId c)) (cmdRequestSeq c) \<longleftrightarrow> kv_seen c (kv_view M)"
  by (auto simp: seen_request_def kv_seen_def kv_view_def split: option.split)

lemma command_view: "kv_view (batch_map M (command_mutations c)) = kv_write c (kv_view M)"
  by (simp add: kv_view_def batch_map_def command_mutations_def mutation_effect_def kv_write_def fun_eq_iff MutationPut_def MutationDelete_def)

lemma command_mutations_ok: "check_mutations (command_mutations c) = Inr ()"
  by (simp add: command_mutations_def)

definition command_cost :: "Command \<Rightarrow> nat" where
  "command_cost c = 52 + length (cmdKey c) + length (cmdValue c) + length (cmdClientId c)"

lemma command_mutations_size:
  assumes "command_cost c < 2 ^ 32"
  shows "weight (map (mutation_record i) (command_mutations c)) \<le> command_cost c"
    "\<forall>m \<in> set (command_mutations c). fits (mutation_record i m)"
  using assms
  by (simp_all add: command_mutations_def command_cost_def fits_def mutation_record_def record_size_def recordHeaderSize_def
      userPrefix_def sessionPrefix_def asc_def)


section \<open>Applying a log\<close>

text \<open>A machine with a well-formed engine, and the specification state it holds.\<close>

definition kv_rep :: "Machine \<Rightarrow> Record list list \<Rightarrow> KV \<Rightarrow> bool" where
  "kv_rep m rss s \<longleftrightarrow> db_rep (mDB m) rss \<and> replica (mDB m) \<and> kv_view (db_map (mDB m) rss) = s"

definition kv_weight :: "Machine \<Rightarrow> Record list list \<Rightarrow> nat" where
  "kv_weight m rss = weight (versions (mDB m) rss)"

lemma apply_batch_view:
  assumes "kv_rep m rss s" "index = kv_AppliedIndex m + 1" "index \<noteq> 0" "good_sizing (eSizing env)"
    and "check_mutations ms = Inr ()" "\<forall>x \<in> set ms. fits (mutation_record index x)"
    and "weight (map (mutation_record index) ms) + kv_weight m rss \<le> 2 ^ 43"
    and "apply_batch env m index ms = (m', res)"
  shows "\<exists>rss'. kv_rep m' rss' (kv_view (batch_map (db_map (mDB m) rss) ms)) \<and> kv_AppliedIndex m' = index \<and>
    kv_weight m' rss' \<le> weight (map (mutation_record index) ms) + kv_weight m rss"
proof -
  obtain d db where run: "ApplyBatch env (mDisk m) (mDB m) index ms = (d, db, res)" "m' = \<lparr>mDisk = d, mDB = db\<rparr>"
    using assms(8) by (auto simp: apply_batch_def split: prod.splits)
  show ?thesis
    using ApplyBatch_map [OF _ _ _ assms(3,5,6,4) _ run(1), of rss] assms(1,2,7)
    by (auto simp: kv_rep_def kv_weight_def kv_AppliedIndex_def AppliedIndex_def run(2))
qed

lemma batch_map_Nil [simp]: "batch_map M [] = M"
  by (simp add: batch_map_def fun_eq_iff)

text \<open>The entry of an index: nothing for an empty one, a command otherwise.\<close>

definition entry_command :: "codec \<Rightarrow> bytes \<Rightarrow> Command option" where
  "entry_command C data =
     (if data = [] then None else case proto_Unmarshal C data of Inl _ \<Rightarrow> None | Inr c \<Rightarrow> if command_ok c then Some c else None)"

definition entry_ok :: "codec \<Rightarrow> bytes \<Rightarrow> bool" where
  "entry_ok C data \<longleftrightarrow> data = [] \<or> entry_command C data \<noteq> None"

definition entry_exec :: "codec \<Rightarrow> bytes \<Rightarrow> KV \<Rightarrow> KV" where
  "entry_exec C data s = (case entry_command C data of None \<Rightarrow> s | Some c \<Rightarrow> kv_exec c s)"

definition entry_cost :: "codec \<Rightarrow> bytes \<Rightarrow> nat" where
  "entry_cost C data = (case entry_command C data of None \<Rightarrow> 0 | Some c \<Rightarrow> command_cost c)"

lemma command_ok_iff:
  "command_ok c \<longleftrightarrow> \<not> (cmdOperation c \<noteq> OPERATION_PUT \<and> cmdOperation c \<noteq> OPERATION_DELETE) \<and> \<not> (cmdClientId c = [] \<or> cmdRequestSeq c = 0)"
  by (auto simp: command_ok_def)

lemma kv_Apply_view:
  assumes "kv_rep m rss s" "index = kv_AppliedIndex m + 1" "index \<noteq> 0" "good_sizing (eSizing env)" "entry_ok C data"
    and "entry_cost C data < 2 ^ 32" "entry_cost C data + kv_weight m rss \<le> 2 ^ 43"
    and "kv_Apply env C m index data = (m', res)"
  shows "\<exists>rss'. kv_rep m' rss' (entry_exec C data s) \<and> kv_AppliedIndex m' = index \<and> kv_weight m' rss' \<le> entry_cost C data + kv_weight m rss"
proof (cases "data = []")
  case True
  with assms(8) have run: "apply_batch env m index [] = (m', res)" by (simp add: kv_Apply_def)
  show ?thesis
    using apply_batch_view [OF assms(1-4) _ _ _ run] assms(1,7) True
    by (simp add: entry_exec_def entry_command_def entry_cost_def kv_rep_def)
next
  case False
  then obtain c where c: "proto_Unmarshal C data = Inr c" "command_ok c" "entry_command C data = Some c"
    using assms(5) by (auto simp: entry_ok_def entry_command_def split: sum.splits if_splits)
  define m1 where "m1 = m\<lparr>mDB := fst (db_Get (mDB m) (sessionPrefix @ cmdClientId c))\<rparr>"
  have g: "db_Get (mDB m) (sessionPrefix @ cmdClientId c) = (mDB m1, Inr (db_map (mDB m) rss (sessionPrefix @ cmdClientId c)))"
    "kv_rep m1 rss s" "kv_weight m1 rss = kv_weight m rss" "kv_AppliedIndex m1 = kv_AppliedIndex m"
    "db_map (mDB m1) rss = db_map (mDB m) rss"
    using db_Get_map [of "mDB m" rss "sessionPrefix @ cmdClientId c"] db_Get_keeps [of "mDB m" "sessionPrefix @ cmdClientId c"] assms(1)
    by (simp_all add: m1_def kv_rep_def kv_weight_def kv_AppliedIndex_def AppliedIndex_def prod_eq_iff)
  have m1: "m\<lparr>mDB := mDB m1\<rparr> = m1" by (simp add: m1_def)
  have view: "kv_view (db_map (mDB m) rss) = s" using assms(1) by (simp add: kv_rep_def)
  have idx: "index = kv_AppliedIndex m1 + 1" using assms(2) g(4) by simp
  have run: "(if kv_seen c s then apply_batch env m1 index [] else apply_batch env m1 index (command_mutations c)) = (m', res)"
    using assms(8) False c(1,2) unfolding kv_Apply_def if_not_P [OF False] c(1) sum.case g(1) prod.case command_ok_iff
    by (simp add: seen_request_iff view m1 split: if_splits)
  have cost: "command_cost c < 2 ^ 32" "command_cost c + kv_weight m rss \<le> 2 ^ 43" using assms(6,7) c(3) by (simp_all add: entry_cost_def)
  show ?thesis
  proof (cases "kv_seen c s")
    case True
    then show ?thesis
      using apply_batch_view [OF g(2) idx assms(3,4), of "[]" m' res] run cost c(3) view
      by (auto simp: entry_exec_def kv_exec_def entry_cost_def g)
  next
    case new: False
    then show ?thesis
      using apply_batch_view [OF g(2) idx assms(3,4) command_mutations_ok command_mutations_size(2) [OF cost(1)], of m' res] run cost c(3) view
        command_mutations_size(1) [OF cost(1), of index]
      by (fastforce simp: entry_exec_def kv_exec_def entry_cost_def g command_view)
  qed
qed

text \<open>The entries of a log at consecutive indices.\<close>

fun kv_apply_all :: "env \<Rightarrow> codec \<Rightarrow> Machine \<Rightarrow> bytes list \<Rightarrow> Machine" where
  "kv_apply_all env C m [] = m"
| "kv_apply_all env C m (data # log) = kv_apply_all env C (fst (kv_Apply env C m (kv_AppliedIndex m + 1) data)) log"

lemma kv_apply_all_view:
  assumes "kv_rep m rss s" "unat (kv_AppliedIndex m) + length log < 2 ^ 64" "good_sizing (eSizing env)"
    and "\<forall>x \<in> set log. entry_ok C x \<and> entry_cost C x < 2 ^ 32" "sum_list (map (entry_cost C) log) + kv_weight m rss \<le> 2 ^ 43"
  shows "\<exists>rss'. kv_rep (kv_apply_all env C m log) rss' (fold (entry_exec C) log s) \<and>
    unat (kv_AppliedIndex (kv_apply_all env C m log)) = unat (kv_AppliedIndex m) + length log"
  using assms
proof (induction log arbitrary: m rss s)
  case (Cons x log)
  obtain m1 res where run: "kv_Apply env C m (kv_AppliedIndex m + 1) x = (m1, res)" by fastforce
  have inc: "unat (kv_AppliedIndex m + 1) = Suc (unat (kv_AppliedIndex m))" using Cons.prems(2) unat_inc_u64 [of "kv_AppliedIndex m"] by simp
  then have "kv_AppliedIndex m + 1 \<noteq> 0" by (metis nat.distinct(1) unat_0)
  then obtain rss1 where r: "kv_rep m1 rss1 (entry_exec C x s)" "kv_AppliedIndex m1 = kv_AppliedIndex m + 1"
    "kv_weight m1 rss1 \<le> entry_cost C x + kv_weight m rss"
    using kv_Apply_view [OF Cons.prems(1) refl _ Cons.prems(3) _ _ _ run] Cons.prems(4,5) by auto
  show ?case
    using Cons.IH [OF r(1) _ Cons.prems(3)] Cons.prems(2,4,5) r(2,3) inc by (simp add: run)
qed auto


section \<open>Correctness\<close>

lemma kv_Get_view:
  assumes "kv_rep m rss s" "k \<noteq> []" "length k \<le> MaxKeyBytes"
  shows "snd (kv_Get m k) = Inr (kvUser s k)"
  using assms db_Get_map(1) [of "mDB m" rss "userPrefix @ k"] by (auto simp: kv_Get_def kv_rep_def kv_view_def split: prod.splits)

lemma kv_exec_seen: "kv_seen c (kv_exec c s)"
  by (simp add: kv_exec_def kv_write_def kv_seen_def)

lemma kv_seen_exec: "kv_seen c s \<Longrightarrow> kv_seen c (kv_exec c' s)"
  by (auto simp: kv_exec_def kv_write_def kv_seen_def split: option.splits)

lemma kv_seen_fold: "kv_seen c s \<Longrightarrow> kv_seen c (fold (entry_exec C) log s)"
  by (induction log arbitrary: s) (auto simp: entry_exec_def kv_seen_exec split: option.split)

lemma kv_seen_log:
  assumes "data \<in> set log" "entry_command C data = Some c"
  shows "kv_seen c (fold (entry_exec C) log s)"
proof -
  obtain xs ys where "log = xs @ data # ys" using assms(1) by (meson split_list)
  then show ?thesis using assms(2) kv_seen_fold [OF kv_exec_seen] by (simp add: entry_exec_def)
qed

definition sample_command :: Command where
  "sample_command = \<lparr>cmdOperation = OPERATION_PUT, cmdKey = [5], cmdValue = [6], cmdClientId = [7], cmdRequestSeq = 1\<rparr>"

definition sample_codec :: codec where
  "sample_codec = \<lparr>proto_Marshal = (\<lambda>c. if c = sample_command then Inr [8, 1, 2] else Inl (Err ''marshal'')),
     proto_Unmarshal = (\<lambda>bs. if bs = [8, 1, 2] then Inr sample_command else Inl (Err ''unmarshal''))\<rparr>"

definition sample_machine :: Machine where
  "sample_machine = \<lparr>mDisk = empty_disk, mDB = fresh_db DurabilityReplica\<rparr>"

lemma sample_codec_ok: "codec_ok sample_codec"
  by (auto simp: codec_ok_def sample_codec_def sample_command_def split: if_splits)

lemma sample_entry: "entry_command sample_codec [8, 1, 2] = Some sample_command"
  by (simp add: entry_command_def sample_codec_def command_ok_def sample_command_def)

lemma sample_machine_rep: "kv_rep sample_machine [] (kv_view Map.empty)" "kv_AppliedIndex sample_machine = 0" "kv_weight sample_machine [] = 0"
  by (simp_all add: kv_rep_def sample_machine_def kv_AppliedIndex_def AppliedIndex_def kv_weight_def)

text \<open>
  C4: replicas that apply the same log hold the same data. Applying entries at consecutive indices, with any flushes and
  failures of the disk on the way, makes every read of a user key return what the specification holds after
  the same commands, and the applied index counts the entries.
\<close>

theorem kv_log_refines:
  assumes "kv_rep m rss s" "unat (kv_AppliedIndex m) + length log < 2 ^ 64" "good_sizing (eSizing env)"
    and "\<forall>x \<in> set log. entry_ok C x \<and> entry_cost C x < 2 ^ 32" "sum_list (map (entry_cost C) log) + kv_weight m rss \<le> 2 ^ 43"
    and "k \<noteq> []" "length k \<le> MaxKeyBytes"
  shows "snd (kv_Get (kv_apply_all env C m log) k) = Inr (kvUser (fold (entry_exec C) log s) k) \<and>
    unat (kv_AppliedIndex (kv_apply_all env C m log)) = unat (kv_AppliedIndex m) + length log"
  using kv_apply_all_view [OF assms(1-5)] kv_Get_view [OF _ assms(6,7)] by blast

theorem kv_log_refines_witness:
  "snd (kv_Get (kv_apply_all env10 sample_codec sample_machine [[], [8, 1, 2]]) [5]) = Inr (Some [6]) \<and>
   unat (kv_AppliedIndex (kv_apply_all env10 sample_codec sample_machine [[], [8, 1, 2]])) = 2"
proof -
  have "\<forall>x \<in> set [[], [8, 1, 2]]. entry_ok sample_codec x \<and> entry_cost sample_codec x < 2 ^ 32"
    "sum_list (map (entry_cost sample_codec) [[], [8, 1, 2]]) + kv_weight sample_machine [] \<le> 2 ^ 43"
    by (simp_all add: entry_ok_def entry_cost_def sample_entry sample_machine_rep)
      (simp_all add: entry_command_def command_cost_def sample_command_def)
  from kv_log_refines [OF sample_machine_rep(1) _ fresh_db_rep(4) this, where k = "[5]"]
  show ?thesis
    by (simp add: sample_machine_rep entry_exec_def sample_entry MaxKeyBytes_def)
      (simp add: entry_command_def kv_exec_def kv_seen_def kv_view_def kv_write_def sample_command_def OPERATION_PUT_def OPERATION_DELETE_def)
qed

text \<open>
  C13: a command takes effect once. When the log already holds an entry, a retry of it, at any later index and behind any
  other commands, leaves the value of every user key as it is.
\<close>

theorem kv_retry_once:
  assumes "kv_rep m rss s" "unat (kv_AppliedIndex m) + length log + 1 < 2 ^ 64" "good_sizing (eSizing env)"
    and "\<forall>x \<in> set log. entry_ok C x \<and> entry_cost C x < 2 ^ 32"
    and "sum_list (map (entry_cost C) log) + entry_cost C data + kv_weight m rss \<le> 2 ^ 43"
    and "data \<in> set log" "k \<noteq> []" "length k \<le> MaxKeyBytes"
  shows "snd (kv_Get (kv_apply_all env C m (log @ [data])) k) = snd (kv_Get (kv_apply_all env C m log) k)"
proof -
  have "entry_exec C data (fold (entry_exec C) log s) = fold (entry_exec C) log s"
    using kv_seen_log [OF assms(6)] by (auto simp: entry_exec_def kv_exec_def split: option.split)
  then have same: "fold (entry_exec C) (log @ [data]) s = fold (entry_exec C) log s" by simp
  obtain rss1 where "kv_rep (kv_apply_all env C m log) rss1 (fold (entry_exec C) log s)"
    using kv_apply_all_view [OF assms(1) _ assms(3,4)] assms(2,5) by fastforce
  moreover obtain rss2 where "kv_rep (kv_apply_all env C m (log @ [data])) rss2 (fold (entry_exec C) (log @ [data]) s)"
    using kv_apply_all_view [OF assms(1) _ assms(3), of "log @ [data]" C] assms(2,4-6) by fastforce
  ultimately show ?thesis using kv_Get_view [OF _ assms(7,8)] same by metis
qed

theorem kv_retry_once_witness:
  "snd (kv_Get (kv_apply_all env10 sample_codec sample_machine ([[8, 1, 2], []] @ [[8, 1, 2]])) [5]) =
   snd (kv_Get (kv_apply_all env10 sample_codec sample_machine [[8, 1, 2], []]) [5])"
proof -
  have "\<forall>x \<in> set [[8, 1, 2], []]. entry_ok sample_codec x \<and> entry_cost sample_codec x < 2 ^ 32"
    "sum_list (map (entry_cost sample_codec) [[8, 1, 2], []]) + entry_cost sample_codec [8, 1, 2] + kv_weight sample_machine [] \<le> 2 ^ 43"
    by (simp_all add: entry_ok_def entry_cost_def sample_entry sample_machine_rep)
      (simp_all add: entry_command_def command_cost_def sample_command_def)
  from kv_retry_once [OF sample_machine_rep(1) _ fresh_db_rep(4) this, where k = "[5]"]
  show ?thesis by (simp add: sample_machine_rep MaxKeyBytes_def)
qed



section \<open>Under the event loop\<close>

text \<open>Flushes and compactions leave the applied index and the mode alone.\<close>

definition same_mode :: "DB \<Rightarrow> DB \<Rightarrow> bool" where
  "same_mode db db' \<longleftrightarrow> dbApplied db' = dbApplied db \<and> dbOpts db' = dbOpts db"

lemma same_mode_refl [simp]: "same_mode db db"
  by (simp add: same_mode_def)

lemma db_compact_mode: "same_mode db (fst (snd (db_compact env d db)))"
  by (auto simp: db_compact_def Let_def same_mode_def after_failure_def split: prod.split sum.split failure.split)

lemma maybeCompact_mode: "same_mode db (fst (snd (maybeCompact env d db)))"
  by (simp add: maybeCompact_def db_compact_mode)

lemma flush_finish_mode: "same_mode db (fst (snd (flush_finish env d db)))"
  using maybeCompact_mode [of "db\<lparr>dbFlushes := dbFlushes db + 1\<rparr>" env]
    maybeCompact_mode [of "db\<lparr>dbLog := Some _, dbFlushes := dbFlushes db + 1\<rparr>" env]
  by (auto simp: flush_finish_def same_mode_def split: option.split prod.split sum.split)

lemma flush_index_mode: "same_mode db (fst (snd (flush_index d db)))"
  by (auto simp: flush_index_def Let_def same_mode_def split: prod.split sum.split)

lemma db_flush_mode: "same_mode db (fst (snd (db_flush env d db)))"
proof -
  have "same_mode db (fst (snd (flush_finish env d' db1)))" if "same_mode db db1" for d' db1
    using that flush_finish_mode [of db1 env d'] by (simp add: same_mode_def)
  then show ?thesis
    using flush_index_mode [of db d] by (auto simp: db_flush_def Let_def after_failure_def same_mode_def split: prod.split sum.split failure.split option.split)
qed

lemma maybeFlush_mode: "same_mode db (fst (snd (maybeFlush env d db)))"
  by (simp add: maybeFlush_def db_flush_mode)

lemma ApplyBatch_index:
  assumes "replica db" "index = dbApplied db + 1" "index \<noteq> 0" "ApplyBatch env d db index ms = (d', db', Inr ())"
  shows "replica db' \<and> dbApplied db' = index"
proof -
  have "\<not> index \<le> dbApplied db" using assms(2,3) by (metis u64_inc_nonzero leD)
  define db1 where "db1 = db\<lparr>dbMem := foldl (\<lambda>m x. SetRaw m (mutation_record index x)) (dbMem db) ms, dbApplied := index\<rparr>"
  have "maybeFlush env d db1 = (d', db', Inr ())"
    using assms \<open>\<not> index \<le> dbApplied db\<close> by (auto simp: ApplyBatch_def db1_def split: sum.splits)
  moreover have "dbApplied db1 = index" "dbOpts db1 = dbOpts db" by (simp_all add: db1_def)
  ultimately show ?thesis using maybeFlush_mode [of db1 env d] assms(1) by (simp add: same_mode_def replica_def)
qed

lemma publish_snapshot_index:
  "publish_snapshot d db index n new = (d', db', Inr ()) \<Longrightarrow> dbApplied db' = index \<and> dbOpts db' = dbOpts db"
  by (auto simp: publish_snapshot_def Let_def split: prod.splits sum.splits option.splits)

lemma abort_stream_Inl: "abort_stream d db w e = (d', db', Inr ()) \<longleftrightarrow> False"
  by (simp add: abort_stream_def)

lemma image_table_publishes:
  assumes "image_table env d db index cnt rest = (d', db', Inr ())"
  shows "\<exists>d1 n new. publish_snapshot d1 db index n new = (d', db', Inr ())"
proof -
  let ?path = "sst_name (dbNextSST db + 1)"
  obtain d1 x where x: "NewStreamWriter (eSizing env) d ?path (sint cnt) = (d1, x)" by fastforce
  obtain w where w: "x = Inr w" using assms x by (cases x) (auto simp: image_table_def Let_def)
  obtain d2 w2 y where y: "image_loop (unat cnt) index d1 w rest [] = (d2, w2, y)" by (metis prod_cases3)
  obtain trailing where t: "y = Inr trailing" using assms by (cases y) (auto simp: image_table_def Let_def x w y abort_stream_Inl)
  obtain d3 w3 z where z: "stream_Finish d2 w2 = (d3, w3, z)" by (metis prod_cases3)
  have "trailing = []" using assms by (auto simp: image_table_def Let_def x w y t abort_stream_Inl split: if_splits)
  moreover obtain v where "z = Inr v"
    using assms by (cases z) (auto simp: image_table_def Let_def x w y t z abort_stream_Inl split: if_splits)
  moreover obtain r where "sstable_Open d3 ?path = Inr r"
    using assms calculation
    by (cases "sstable_Open d3 ?path") (auto simp: image_table_def Let_def x w y t z split: failure.splits)
  ultimately show ?thesis using assms by (auto simp: image_table_def Let_def x w y t z)
qed

lemma ReplaceReplicaSnapshot_index:
  assumes "ReplaceReplicaSnapshot env d db index sz data = (d', db', Inr ())"
  shows "replica db' \<and> dbApplied db' = index"
proof -
  have r: "replica db" using assms by (auto simp: ReplaceReplicaSnapshot_def split: if_splits)
  have "\<exists>d1 n new. publish_snapshot d1 db index n new = (d', db', Inr ())"
    using assms image_table_publishes [of env d db index _ _ d' db']
    unfolding ReplaceReplicaSnapshot_def Let_def by (auto split: if_splits read_outcome.splits)
  then obtain d1 n new where "publish_snapshot d1 db index n new = (d', db', Inr ())" by blast
  from publish_snapshot_index [OF this] r show ?thesis by (simp add: replica_def)
qed

lemma kv_apply_next:
  assumes a: "replica (mDB m)" "i = smAppliedIndex (kv_machine env C) m + 1" "i \<noteq> 0" "smApply (kv_machine env C) m i cmd = (m', Inr ())"
  shows "replica (mDB m') \<and> smAppliedIndex (kv_machine env C) m' = i"
proof -
  have batch: "replica (mDB m') \<and> kv_AppliedIndex m' = i"
    if h: "apply_batch env m1 i ms = (m', Inr ())" "replica (mDB m1)" "kv_AppliedIndex m1 = kv_AppliedIndex m" for m1 ms
  proof -
    obtain d' db' where r: "ApplyBatch env (mDisk m1) (mDB m1) i ms = (d', db', Inr ())" "m' = \<lparr>mDisk = d', mDB = db'\<rparr>"
      using h(1) by (auto simp: apply_batch_def split: prod.splits)
    have "i = dbApplied (mDB m1) + 1" using a(2) h(3) by (simp add: kv_machine_def kv_AppliedIndex_def AppliedIndex_def)
    from ApplyBatch_index [OF h(2) this a(3) r(1)] r(2) show ?thesis by (simp add: kv_AppliedIndex_def AppliedIndex_def)
  qed
  have get: "replica (mDB (m\<lparr>mDB := db\<rparr>))" "kv_AppliedIndex (m\<lparr>mDB := db\<rparr>) = kv_AppliedIndex m" if "db_Get (mDB m) k = (db, x)" for db k x
    using db_Get_keeps(2,4) [of "mDB m" k] that a(1) by (simp_all add: kv_AppliedIndex_def AppliedIndex_def)
  have run: "kv_Apply env C m i cmd = (m', Inr ())" using a(4) by (simp add: kv_machine_def)
  have "\<exists>m1 ms. apply_batch env m1 i ms = (m', Inr ()) \<and> replica (mDB m1) \<and> kv_AppliedIndex m1 = kv_AppliedIndex m"
  proof (cases "cmd = []")
    case True
    then show ?thesis using run a(1) by (auto simp: kv_Apply_def)
  next
    case False
    then obtain c where c: "proto_Unmarshal C cmd = Inr c" using run by (auto simp: kv_Apply_def split: sum.splits)
    obtain db x where x: "db_Get (mDB m) (sessionPrefix @ cmdClientId c) = (db, x)" by fastforce
    have "\<exists>ms. apply_batch env (m\<lparr>mDB := db\<rparr>) i ms = (m', Inr ())"
      using run False c x by (cases x) (auto simp: kv_Apply_def split: if_splits)
    then show ?thesis using get [OF x] by blast
  qed
  then show "replica (mDB m') \<and> smAppliedIndex (kv_machine env C) m' = i"
    using batch by (auto simp: kv_machine_def)
qed

lemma kv_restore_to:
  assumes "smRestoreSnapshot (kv_machine env C) m i sz data = (m', Inr ())"
  shows "replica (mDB m') \<and> smAppliedIndex (kv_machine env C) m' = i"
  using assms ReplaceReplicaSnapshot_index [of env "mDisk m" "mDB m" i sz data]
  by (auto simp: kv_machine_def kv_RestoreSnapshot_def kv_AppliedIndex_def AppliedIndex_def split: prod.splits)

interpretation kv: state_machine "kv_machine env C" "\<lambda>m. replica (mDB m)" for env C
  by (rule state_machine.intro) (rule kv_apply_next kv_restore_to, assumption+)+


definition quiet_store :: "unit StableStore" where
  "quiet_store = \<lparr>ssPersist = (\<lambda>st u. (st, Inr ())), ssPersistSnapshot = (\<lambda>st u src. (st, Inr ())),
     ssOpenSnapshot = (\<lambda>st i. Inl (Err ''no snapshot'')), ssClose = (\<lambda>st. (st, Inr ()))\<rparr>"

definition sample_loop :: "(unit, Machine) Runtime" where
  "sample_loop = \<lparr>rtNode = sample_node, rtStore = (), rtMachine = sample_machine\<lparr>mDB := (fresh_db DurabilityReplica)\<lparr>dbApplied := nCommit sample_node\<rparr>\<rparr>,
     rtEvents = [MessageEvent sample_append None 0], rtCap = 256, rtOutgoing = [], rtDone = False, rtCrashed = False, rtSnapshotThreshold = 1000,
     rtMembership = None, rtPending = [], rtReads = [], rtNextRead = 0, rtDeferred = [], rtReplies = [], rtDropped = [], rtClosing = False\<rparr>"



end
