(* ===== verification/Spec2Isabelle.thy ===== *)
theory Spec2Isabelle
  imports Memtable Bloom Wal Sstable Stream_Writer Compact Manifest Db_Map Db_Snapshot Raft_Props Raftstore_Safe Kvstate
begin

text \<open>
  A verification of \<open>lsmdb\<close>, a log-structured key-value store in Go that is replicated with Raft.

  \<^bold>\<open>The program.\<close> A node of the cluster is a stack of packages. The engine (\<open>db\<close>) keeps the newest records in
  a memtable (\<open>internal/memtable\<close>), logs writes ahead (\<open>internal/wal\<close>), flushes to sorted tables
  (\<open>internal/sstable\<close>, each with a Bloom filter from \<open>internal/bloom\<close>), merges the tables (\<open>internal/compact\<close>)
  and publishes the set of live tables (\<open>internal/manifest\<close>). The state machine (\<open>internal/kvstate\<close>) runs
  log entries on an engine in replica mode and skips retries. The consensus core (\<open>internal/raft\<close>) is a
  deterministic state machine whose methods return an \<open>Update\<close>; the stable store (\<open>internal/raftstore\<close>) persists
  updates; the event loop (\<open>internal/raftnode\<close>) owns core, store and machine, and persists, sends, applies
  and answers in that order.

  \<^bold>\<open>Conventions.\<close> Bytes are 8-bit words, Go integers words of their width (\<open>u64\<close>) or \<open>int\<close> where the code
  uses \<open>int\<close> and \<open>int64\<close> far from their bounds; offsets that come from a file keep their wrap-around. Errors and
  panics are values of \<open>failure\<close> (theory \<open>Prelude\<close>), so every early return is a branch and absence of panics is
  a theorem. A Go map is a HOL map or an association list where its order shows. Mutexes make methods atomic;
  a method is one state-passing function. Directories are values of \<open>disk\<close> (theory \<open>Disk\<close>) with a list of
  faults: the next call may work, fail, or be the last one of the process, and a write that fails or is cut
  short leaves any prefix of its bytes. Loss of unsynced data in a power failure is not modelled.

  \<^bold>\<open>The theories.\<close>

  \<^item> \<open>Prelude\<close>, \<open>Disk\<close>, \<open>Heap\<close> (\<open>container/heap\<close>), \<open>Json\<close> (what is used of \<open>encoding/json\<close>), \<open>Merge\<close> (the k-way
    merge protocol, a locale with compaction and the snapshot stream as its two interpretations).
  \<^item> \<open>Memtable\<close>: \<open>memtable.go\<close>; replay and range scans return the newest versions.
  \<^item> \<open>Bloom\<close>: \<open>bloom.go\<close>; no false negatives, the encoding round trip, no panic on decoded filters.
  \<^item> \<open>Wal\<close>: \<open>wal.go\<close> with CRC-32; replay of a torn log, and two logs that replay badly.
  \<^item> \<open>Sstable\<close>, \<open>Stream_Writer\<close>: \<open>format.go\<close>, \<open>writer.go\<close>, \<open>reader.go\<close>, \<open>stream_writer.go\<close>; tables round trip
    through their bytes, and the streaming writer makes the calls of the batch writer.
  \<^item> \<open>Compact\<close>: \<open>compactor.go\<close>; the merge keeps exactly the newest version of every key.
  \<^item> \<open>Manifest\<close>: \<open>manifest.go\<close>; publication is atomic under every fault pattern.
  \<^item> \<open>Db\<close>, \<open>Db_Map\<close>: \<open>db.go\<close>, \<open>options.go\<close>, \<open>stats.go\<close>; the handle refines a finite map, whatever flush and
    compaction do and however the directory fails.
  \<^item> \<open>Db_Snapshot\<close>: \<open>replica_snapshot.go\<close>; the streamed image of one replica installed at another.
  \<^item> \<open>Membership\<close>, \<open>Raft\<close>: \<open>membership.go\<close>, \<open>types.go\<close>, \<open>node.go\<close>. \<open>Raft_Inv\<close>, \<open>Raft_Steps\<close>, \<open>Raft_Handlers\<close> go
    through the methods and show that each evolves a well-formed node; \<open>Raft_Node\<close> collects them over runs and
    restarts (no panic, one vote per term, stable commits, durable updates); \<open>Raft_Props\<close> has the exact behaviour
    of single operations.
  \<^item> \<open>Raftstore\<close>, \<open>Raftstore_Spec\<close>, \<open>Raftstore_Safe\<close>: \<open>store.go\<close>; the files implement the durable state that
    \<open>Raft_Node\<close> speaks of, also after failures and crashes.
  \<^item> \<open>Runtime\<close>, \<open>Runtime_Inv\<close>: \<open>runtime.go\<close>; the locale \<open>state_machine\<close> is the contract of the machine, under which
    every iteration keeps machine and core in step.
  \<^item> \<open>Kvstate\<close>: \<open>state_machine.go\<close>; the machine refines a key-value store with client sessions, meets the contract
    of the event loop, and with it the whole node follows its log.

  \<^bold>\<open>Termination and bounds.\<close> Loops of the source are \<open>fun\<close> or \<open>function\<close> with their termination proofs; none has
  fuel. Where a theorem needs room (log indices below \<open>2 ^ 64\<close>, tables below the 32-bit and 63-bit limits of the
  format), the room is a premise over the sizes at hand, and its witness shows a state that has it.

  \<^bold>\<open>Parameters.\<close> The floating-point sizing of a Bloom filter, the crash hooks of the engine, the protobuf codec of
  a command and the behaviour of the transport are arguments of the definitions that use them.

  \<^bold>\<open>Not modelled.\<close> gRPC, HTTP, timers, metrics and the generated protobuf code, the command lines, the benchmarks
  and their tooling, the client's retry loop, and the in-memory network of the tests: they move modelled values
  around or measure them. Goroutine interleaving inside a method is excluded by its mutex; the goroutines of the
  event loop meet in its queues, which are explicit.
\<close>

end
